(* ===== verification/Max_Prelude.thy ===== *)
theory Max_Prelude
  imports Main "HOL-Library.Word"
begin

section \<open>Shared types, bit searches and their laws\<close>

text \<open>
  What the components of the development share: the machine types of the sources, the
  unsigned 32-bit arithmetic that the sources rely on to wrap around, counting the indices
  that satisfy a predicate, the reference definition of every ``find next bit'' routine
  (\<open>first_from\<close>), the kernel's word-array bitmaps seen as lists of booleans, and the two
  interfaces \<open>bitmap_ops\<close> (single-bit updates) and \<open>bit_search\<close> (scans) that the
  concrete bitmap representations implement.
\<close>

unbundle bit_operations_syntax

named_theorems bitmap_simps \<open>test/set/clear laws of the bitmap representations\<close>
named_theorems layout_simps \<open>arithmetic of block, segment and section numbers\<close>
named_theorems count_simps \<open>how single updates change a population count\<close>

type_synonym u8 = "8 word"
type_synonym u16 = "16 word"
type_synonym u32 = "32 word"
type_synonym u64 = "64 word"

text \<open>Why a checkpoint is written (\<open>f2fs.h\<close>).\<close>

datatype cp_reason = CP_UMOUNT | CP_FASTBOOT | CP_SYNC | CP_RECOVERY | CP_DISCARD

subsection \<open>Unsigned 32-bit arithmetic on natural numbers\<close>

text \<open>
  Block addresses, segment numbers and node numbers are C \<open>unsigned int\<close>s. They are
  natural numbers in the models; the places where the code lets an operation wrap are
  written with the two operations below.
\<close>

definition add32 :: "nat \<Rightarrow> nat \<Rightarrow> nat" where
  "add32 a b = (a + b) mod 2 ^ 32"

definition sub32 :: "nat \<Rightarrow> nat \<Rightarrow> nat" where
  "sub32 a b = (a + (2 ^ 32 - b mod 2 ^ 32)) mod 2 ^ 32"

lemma add32_small [simp]: "a + b < 2 ^ 32 \<Longrightarrow> add32 a b = a + b"
  by (simp add: add32_def)

lemma sub32_small [simp]: "b \<le> a \<Longrightarrow> a < 2 ^ 32 \<Longrightarrow> sub32 a b = a - b"
proof -
  assume le: "b \<le> a" and lt: "a < 2 ^ 32"
  then have "a + (2 ^ 32 - b mod 2 ^ 32) = 2 ^ 32 + (a - b)" by simp
  then have "sub32 a b = (2 ^ 32 + (a - b)) mod 2 ^ 32" by (simp only: sub32_def)
  with lt show "sub32 a b = a - b" by simp
qed

lemma sub32_zero_one: "sub32 0 1 = 4294967295"
  by (simp add: sub32_def)

lemma add32_lt: "add32 a b < 2 ^ 32" and sub32_lt: "sub32 a b < 2 ^ 32"
  by (simp_all add: add32_def sub32_def)

lemma bit_small_nat: "v < 2 ^ k \<Longrightarrow> bit (word_of_nat v :: 'a::len word) n \<Longrightarrow> n < k"
proof -
  assume v: "v < 2 ^ k" and b: "bit (word_of_nat v :: 'a word) n"
  from v have "take_bit k (word_of_nat v :: 'a word) = word_of_nat v"
    by (simp add: take_bit_of_nat take_bit_nat_eq_self)
  with b show "n < k" by (metis bit_take_bit_iff)
qed

subsection \<open>Counting indices\<close>

definition bit_count :: "(nat \<Rightarrow> bool) \<Rightarrow> nat \<Rightarrow> nat" where
  "bit_count P n = length (filter P [0..<n])"

lemma bit_count_card: "bit_count P n = card {i. i < n \<and> P i}"
proof -
  have "bit_count P n = card (set (filter P [0..<n]))"
    by (simp add: bit_count_def distinct_card del: set_filter)
  also have "set (filter P [0..<n]) = {i. i < n \<and> P i}" by auto
  finally show ?thesis .
qed

lemma bit_count_0 [simp]: "bit_count P 0 = 0"
  by (simp add: bit_count_def)

lemma bit_count_Suc [simp]: "bit_count P (Suc n) = bit_count P n + (if P n then 1 else 0)"
  by (simp add: bit_count_def)

lemma bit_count_le: "bit_count P n \<le> n"
  by (induction n) auto

lemma bit_count_cong: "(\<And>i. i < n \<Longrightarrow> P i = Q i) \<Longrightarrow> bit_count P n = bit_count Q n"
  by (induction n) auto

lemma bit_count_not: "bit_count (\<lambda>i. \<not> P i) n = n - bit_count P n"
proof (induction n)
  case (Suc n)
  with bit_count_le [of P n] show ?case by auto
qed simp

lemma bit_count_zero_iff: "bit_count P n = 0 \<longleftrightarrow> (\<forall>i<n. \<not> P i)"
  by (induction n) (auto simp: less_Suc_eq)

lemma bit_count_full_iff: "bit_count P n = n \<longleftrightarrow> (\<forall>i<n. P i)"
proof -
  have "bit_count P n = n \<longleftrightarrow> bit_count (\<lambda>i. \<not> P i) n = 0"
    using bit_count_le [of P n] by (auto simp: bit_count_not)
  then show ?thesis by (simp add: bit_count_zero_iff)
qed

lemma bit_count_insert [count_simps]:
  assumes "i < n" "\<not> P i" "\<And>j. j < n \<Longrightarrow> Q j = (j = i \<or> P j)"
  shows "bit_count Q n = Suc (bit_count P n)"
proof -
  have "{j. j < n \<and> Q j} = insert i {j. j < n \<and> P j}"
    using assms(1,3) by auto
  with assms(2) show ?thesis by (simp add: bit_count_card)
qed

lemma bit_count_remove [count_simps]:
  assumes "i < n" "P i" "\<And>j. j < n \<Longrightarrow> Q j = (j \<noteq> i \<and> P j)"
  shows "Suc (bit_count Q n) = bit_count P n"
proof -
  have "{j. j < n \<and> P j} = insert i {j. j < n \<and> Q j}"
    using assms by auto
  with assms(3) [OF assms(1)] show ?thesis by (simp add: bit_count_card)
qed

lemma bit_count_mono:
  assumes "\<And>j. j < n \<Longrightarrow> P j \<Longrightarrow> Q j"
  shows "bit_count P n \<le> bit_count Q n"
  using assms by (induction n) (auto simp: le_SucI)

lemma bit_count_pos: "i < n \<Longrightarrow> P i \<Longrightarrow> 0 < bit_count P n"
  by (metis bit_count_zero_iff gr0I)

subsection \<open>The reference search\<close>

text \<open>
  \<open>first_from P sz i\<close> is the least index from \<open>i\<close> on, below \<open>sz\<close>, that
  satisfies \<open>P\<close>, and \<open>sz\<close> when there is none: the documented result of every
  \<open>find_next_bit\<close> in the kernel and in the disk tools.
\<close>

function first_from :: "(nat \<Rightarrow> bool) \<Rightarrow> nat \<Rightarrow> nat \<Rightarrow> nat" where
  "first_from P sz i =
     (if i < sz then (if P i then i else first_from P sz (Suc i)) else sz)"
  by pat_completeness auto
termination
  by (relation "measure (\<lambda>(P, sz, i). sz - i)") auto

declare first_from.simps [simp del]

lemma first_from_ge [simp]: "sz \<le> i \<Longrightarrow> first_from P sz i = sz"
  by (simp add: first_from.simps)

lemma first_from_hit [simp]: "i < sz \<Longrightarrow> P i \<Longrightarrow> first_from P sz i = i"
  by (simp add: first_from.simps)

lemma first_from_miss: "i < sz \<Longrightarrow> \<not> P i \<Longrightarrow> first_from P sz i = first_from P sz (Suc i)"
  by (simp add: first_from.simps [of P sz i])

lemma first_from_le: "first_from P sz i \<le> sz"
  by (induction P sz i rule: first_from.induct) (simp add: first_from.simps)

lemma first_from_lower: "i \<le> sz \<Longrightarrow> i \<le> first_from P sz i"
proof (induction P sz i rule: first_from.induct)
  case (1 P sz i)
  show ?case
  proof (cases "i < sz \<and> \<not> P i")
    case True
    with "1.IH" have "Suc i \<le> first_from P sz (Suc i)" by simp
    with True show ?thesis by (simp add: first_from_miss)
  next
    case False
    with "1.prems" show ?thesis by (cases "i < sz") auto
  qed
qed

lemma first_from_sat: "first_from P sz i < sz \<Longrightarrow> P (first_from P sz i)"
proof (induction P sz i rule: first_from.induct)
  case (1 P sz i)
  then show ?case
    by (cases "i < sz"; cases "P i") (auto simp: first_from_miss)
qed

lemma first_from_skips: "i \<le> j \<Longrightarrow> j < first_from P sz i \<Longrightarrow> \<not> P j"
proof (induction P sz i rule: first_from.induct)
  case (1 P sz i)
  show ?case
  proof (cases "i < sz \<and> \<not> P i")
    case True
    show ?thesis
    proof (cases "i = j")
      case False
      with "1.prems" True have "Suc i \<le> j" "j < first_from P sz (Suc i)"
        by (auto simp: first_from_miss)
      with True "1.IH" show ?thesis by blast
    qed (use True in simp)
  next
    case False
    then have "first_from P sz i \<le> i \<or> first_from P sz i = sz \<and> sz \<le> i"
      by (cases "i < sz") auto
    with "1.prems" show ?thesis by auto
  qed
qed

text \<open>The three facts determine the result.\<close>

lemma first_from_unique:
  assumes "i \<le> r" "r \<le> sz" "\<And>j. i \<le> j \<Longrightarrow> j < r \<Longrightarrow> \<not> P j" "r < sz \<Longrightarrow> P r"
  shows "first_from P sz i = r"
proof (rule antisym)
  show "first_from P sz i \<le> r"
  proof (rule ccontr)
    assume "\<not> first_from P sz i \<le> r"
    then have lt: "r < first_from P sz i" by simp
    with first_from_le [of P sz i] have "r < sz" by simp
    with assms(4) have "P r" .
    moreover from assms(1) lt have "\<not> P r" by (rule first_from_skips)
    ultimately show False by contradiction
  qed
  show "r \<le> first_from P sz i"
  proof (rule ccontr)
    assume "\<not> r \<le> first_from P sz i"
    then have lt: "first_from P sz i < r" by simp
    with assms(2) have "first_from P sz i < sz" by simp
    then have "P (first_from P sz i)" by (rule first_from_sat)
    moreover have "i \<le> first_from P sz i" using assms(1,2) by (intro first_from_lower) simp
    with lt assms(3) have "\<not> P (first_from P sz i)" by blast
    ultimately show False by contradiction
  qed
qed

lemma first_from_skip_to:
  assumes "i \<le> k" "\<And>j. i \<le> j \<Longrightarrow> j < k \<Longrightarrow> j < sz \<Longrightarrow> \<not> P j"
  shows "first_from P sz i = first_from P sz k"
proof (cases "k \<le> sz")
  case True
  show ?thesis
  proof (rule first_from_unique)
    show "i \<le> first_from P sz k" using assms(1) first_from_lower [OF True] order_trans by blast
    show "first_from P sz k \<le> sz" by (rule first_from_le)
    show "\<not> P j" if "i \<le> j" "j < first_from P sz k" for j
    proof (cases "j < k")
      case True
      with that assms(2) \<open>k \<le> sz\<close> show ?thesis by simp
    next
      case False
      then have "k \<le> j" by simp
      then show ?thesis using that(2) by (rule first_from_skips)
    qed
    show "P (first_from P sz k)" if "first_from P sz k < sz"
      using that by (rule first_from_sat)
  qed
next
  case False
  have "first_from P sz i = sz" if "i \<le> sz"
    using that False assms(2) by (intro first_from_unique) auto
  with False show ?thesis by (cases "i \<le> sz") auto
qed

lemma first_from_lt_iff: "first_from P sz i < sz \<longleftrightarrow> (\<exists>j. i \<le> j \<and> j < sz \<and> P j)"
proof
  assume lt: "first_from P sz i < sz"
  then have "i < sz" by (rule_tac ccontr) simp
  then have "i \<le> first_from P sz i" by (intro first_from_lower) simp
  with lt first_from_sat [OF lt] show "\<exists>j. i \<le> j \<and> j < sz \<and> P j" by blast
next
  assume "\<exists>j. i \<le> j \<and> j < sz \<and> P j"
  then obtain j where j: "i \<le> j" "j < sz" "P j" by blast
  then have "\<not> j < first_from P sz i" using first_from_skips by blast
  with j show "first_from P sz i < sz" by simp
qed

lemma first_from_eq_size_iff: "first_from P sz i = sz \<longleftrightarrow> (\<forall>j. i \<le> j \<and> j < sz \<longrightarrow> \<not> P j)"
  using first_from_lt_iff [of P sz i] first_from_le [of P sz i] by (auto simp: order_less_le)

lemma first_from_cong:
  assumes "\<And>j. i \<le> j \<Longrightarrow> j < sz \<Longrightarrow> P j = Q j"
  shows "first_from P sz i = first_from Q sz i"
proof (cases "i \<le> sz")
  case True
  show ?thesis
  proof (rule first_from_unique)
    show "i \<le> first_from Q sz i" by (rule first_from_lower [OF True])
    show "first_from Q sz i \<le> sz" by (rule first_from_le)
    show "\<not> P j" if "i \<le> j" "j < first_from Q sz i" for j
      using that assms first_from_skips [of i j Q sz] first_from_le [of Q sz i] by auto
    show "P (first_from Q sz i)" if "first_from Q sz i < sz"
      using that assms first_from_sat [of Q sz i] first_from_lower [OF True, of Q] by auto
  qed
qed simp

lemma first_from_clamp:
  assumes "i \<le> r" "P r" "\<And>j. i \<le> j \<Longrightarrow> j < r \<Longrightarrow> \<not> P j"
  shows "first_from P sz i = min r sz"
proof (cases "i \<le> sz")
  case True
  show ?thesis
  proof (rule first_from_unique)
    show "i \<le> min r sz" "min r sz \<le> sz" using assms(1) True by simp_all
    show "\<not> P j" if "i \<le> j" "j < min r sz" for j using that assms(3) by simp
    show "P (min r sz)" if "min r sz < sz" using that assms(2) by (simp add: min_def split: if_splits)
  qed
next
  case False
  with assms(1) show ?thesis by simp
qed

lemma all_from_Suc:
  "(\<forall>j. i \<le> j \<and> j < n \<longrightarrow> P j) \<longleftrightarrow> (i < n \<longrightarrow> P i) \<and> (\<forall>j. Suc i \<le> j \<and> j < n \<longrightarrow> P j)"
  by (metis Suc_leD Suc_leI le_neq_implies_less order_refl)

subsection \<open>Runs of set bits\<close>

text \<open>
  The maximal runs of indices that satisfy a predicate, in order: what a loop enumerates that
  alternates the search for a set and for a clear bit.
\<close>

function runs :: "(nat \<Rightarrow> bool) \<Rightarrow> nat \<Rightarrow> nat \<Rightarrow> (nat \<times> nat) list" where
  "runs P mx pos =
     (let st = first_from P mx pos
      in if st \<ge> mx then []
         else let en = first_from (\<lambda>i. \<not> P i) mx (Suc st) in (st, en) # runs P mx (Suc en))"
  by pat_completeness auto
termination
proof (relation "measure (\<lambda>(P, mx, pos). mx - pos)", goal_cases)
  case (2 P mx pos st en)
  then have st: "first_from P mx pos < mx" "st = first_from P mx pos" by simp_all
  then have pos: "pos < mx" using first_from_ge [of mx pos P] by (cases "pos < mx") auto
  then have "pos \<le> st" using first_from_lower [of pos mx P] st by simp
  moreover have "Suc st \<le> en" using first_from_lower [of "Suc st" mx "\<lambda>i. \<not> P i"] 2 st by simp
  ultimately show ?case using pos by simp
qed simp

declare runs.simps [simp del]

lemma filter_upt_skip:
  assumes "i \<le> k" "k \<le> mx" "\<And>j. i \<le> j \<Longrightarrow> j < k \<Longrightarrow> \<not> P j"
  shows "filter P [i..<mx] = filter P [k..<mx]"
proof -
  have "[i..<mx] = [i..<k] @ [k..<mx]" using assms(1,2) upt_add_eq_append le_Suc_ex by metis
  moreover have "filter P [i..<k] = []" using assms(3) by (simp add: filter_empty_conv)
  ultimately show ?thesis by simp
qed

lemma filter_upt_take:
  assumes "i \<le> k" "k \<le> mx" "\<And>j. i \<le> j \<Longrightarrow> j < k \<Longrightarrow> P j"
  shows "filter P [i..<mx] = [i..<k] @ filter P [k..<mx]"
proof -
  have "[i..<mx] = [i..<k] @ [k..<mx]" using assms(1,2) upt_add_eq_append le_Suc_ex by metis
  moreover have "filter P [i..<k] = [i..<k]" using assms(3) by (simp add: filter_id_conv)
  ultimately show ?thesis by simp
qed

lemma runs_concat: "concat (map (\<lambda>(a, b). [a..<b]) (runs P mx pos)) = filter P [pos..<mx]"
proof (induction P mx pos rule: runs.induct)
  case (1 P mx pos)
  let ?st = "first_from P mx pos" and ?en = "first_from (\<lambda>i. \<not> P i) mx (Suc (first_from P mx pos))"
  show ?case
  proof (cases "?st < mx")
    case False
    then have "?st = mx" using first_from_le [of P mx pos] by simp
    then have "filter P [pos..<mx] = []" by (auto simp: first_from_eq_size_iff filter_empty_conv)
    with False show ?thesis by (simp add: runs.simps [of P mx pos] Let_def)
  next
    case True
    then have pos: "pos \<le> ?st" using first_from_ge [of mx pos P] first_from_lower [of pos mx P] by (cases "pos \<le> mx") auto
    have en: "Suc ?st \<le> ?en" "?en \<le> mx" using True first_from_lower [of "Suc ?st" mx] first_from_le by auto
    have in_run: "P j" if "?st \<le> j" "j < ?en" for j
      using that first_from_sat [OF True] first_from_skips [of "Suc ?st" j "\<lambda>i. \<not> P i" mx]
      by (cases "j = ?st") auto
    have "filter P [pos..<mx] = filter P [?st..<mx]"
      using pos True by (intro filter_upt_skip) (auto dest: first_from_skips)
    also have "\<dots> = [?st..<?en] @ filter P [?en..<mx]"
      using en in_run by (intro filter_upt_take) auto
    also have "filter P [?en..<mx] = filter P [Suc ?en..<mx]"
    proof (cases "?en < mx")
      case True
      then show ?thesis using first_from_sat [OF True] by (intro filter_upt_skip) (auto simp: less_Suc_eq_le)
    qed simp
    finally show ?thesis
      using 1 [OF refl _ refl] True by (simp add: runs.simps [of P mx pos] Let_def)
  qed
qed

lemma runs_cong:
  assumes "\<And>j. pos \<le> j \<Longrightarrow> j < mx \<Longrightarrow> P j = Q j"
  shows "runs P mx pos = runs Q mx pos"
  using assms
proof (induction P mx pos rule: runs.induct)
  case (1 P mx pos)
  let ?st = "first_from P mx pos" and ?en = "first_from (\<lambda>i. \<not> P i) mx (Suc (first_from P mx pos))"
  have st: "first_from Q mx pos = ?st" using 1(2) by (intro first_from_cong) auto
  show ?case
  proof (cases "?st < mx")
    case True
    then have pos: "pos \<le> ?st" using first_from_ge [of mx pos P] first_from_lower [of pos mx P] by (cases "pos \<le> mx") auto
    have en: "first_from (\<lambda>i. \<not> Q i) mx (Suc ?st) = ?en" using 1(2) pos by (intro first_from_cong) auto
    have "Suc ?st \<le> ?en" using True first_from_lower [of "Suc ?st" mx] by auto
    then have "runs P mx (Suc ?en) = runs Q mx (Suc ?en)" using True pos by (intro 1(1)) (auto simp: 1(2))
    with True show ?thesis by (simp add: runs.simps [of P mx pos] runs.simps [of Q mx pos] Let_def st en)
  qed (simp add: runs.simps [of P mx pos] runs.simps [of Q mx pos] st)
qed

lemma runs_bounds:
  assumes "(a, b) \<in> set (runs P mx pos)"
  shows "pos \<le> a" "a < b" "b \<le> mx" "a \<le> j \<Longrightarrow> j < b \<Longrightarrow> P j"
proof -
  have sub: "set [a..<b] \<subseteq> set (filter P [pos..<mx])"
    unfolding runs_concat [symmetric] using assms by auto
  have ab: "a < b"
    using assms
  proof (induction P mx pos rule: runs.induct)
    case (1 P mx pos)
    show ?case
      using 1(2) 1(1) [OF refl _ refl] first_from_lower [of "Suc (first_from P mx pos)" mx "\<lambda>i. \<not> P i"]
      by (auto simp: runs.simps [of P mx pos] Let_def not_le split: if_splits)
  qed
  then show "a < b" .
  have "a \<in> set [a..<b]" "b - 1 \<in> set [a..<b]" using ab by auto
  then show "pos \<le> a" "b \<le> mx" using sub ab by (auto simp: subset_iff)
  show "P j" if "a \<le> j" "j < b" using sub that by auto
qed

subsection \<open>Kernel bitmaps\<close>

text \<open>
  The kernel's \<open>unsigned long\<close> bitmaps (\<open>free_segmap\<close>, \<open>dirty_segmap\<close>, the dentry
  bitmaps) are lists of booleans, bit \<open>i\<close> being element \<open>i\<close>. The primitives are those
  of \<open>linux/bitops.h\<close>.
\<close>

type_synonym bitmap = "bool list"

definition test_bit :: "nat \<Rightarrow> bitmap \<Rightarrow> bool" where
  "test_bit i m = m ! i"

definition set_bit :: "nat \<Rightarrow> bitmap \<Rightarrow> bitmap" where
  "set_bit i m = m[i := True]"

definition clear_bit :: "nat \<Rightarrow> bitmap \<Rightarrow> bitmap" where
  "clear_bit i m = m[i := False]"

definition find_next_bit :: "bitmap \<Rightarrow> nat \<Rightarrow> nat \<Rightarrow> nat" where
  "find_next_bit m sz i = first_from (\<lambda>j. test_bit j m) sz i"

definition find_next_zero_bit :: "bitmap \<Rightarrow> nat \<Rightarrow> nat \<Rightarrow> nat" where
  "find_next_zero_bit m sz i = first_from (\<lambda>j. \<not> test_bit j m) sz i"

lemma length_set_bit [simp]: "length (set_bit i m) = length m"
  by (simp add: set_bit_def)

lemma length_clear_bit [simp]: "length (clear_bit i m) = length m"
  by (simp add: clear_bit_def)

lemma test_set_bit [bitmap_simps]:
  "i < length m \<Longrightarrow> test_bit j (set_bit i m) = (j = i \<or> test_bit j m)"
  by (auto simp: test_bit_def set_bit_def nth_list_update)

lemma test_clear_bit [bitmap_simps]:
  "i < length m \<Longrightarrow> test_bit j (clear_bit i m) = (j \<noteq> i \<and> test_bit j m)"
  by (auto simp: test_bit_def clear_bit_def nth_list_update)

subsection \<open>Interface: single-bit updates\<close>

text \<open>
  The contract every bitmap representation of the sources offers its clients: a capacity
  that updates keep, and the two read-after-write laws. Clients count set bits with
  \<open>bit_count\<close>; the population laws are proved here once.
\<close>

locale bitmap_ops =
  fixes tst :: "nat \<Rightarrow> 'm \<Rightarrow> bool"
    and put :: "nat \<Rightarrow> 'm \<Rightarrow> 'm"
    and clr :: "nat \<Rightarrow> 'm \<Rightarrow> 'm"
    and cap :: "'m \<Rightarrow> nat"
  assumes cap_put: "cap (put i m) = cap m"
    and cap_clr: "cap (clr i m) = cap m"
    and tst_put: "i < cap m \<Longrightarrow> j < cap m \<Longrightarrow> tst j (put i m) = (j = i \<or> tst j m)"
    and tst_clr: "i < cap m \<Longrightarrow> j < cap m \<Longrightarrow> tst j (clr i m) = (j \<noteq> i \<and> tst j m)"
begin

lemma count_put:
  assumes "i < n" "n \<le> cap m" "\<not> tst i m"
  shows "bit_count (\<lambda>j. tst j (put i m)) n = Suc (bit_count (\<lambda>j. tst j m) n)"
  using assms by (intro bit_count_insert [of i]) (auto simp: tst_put)

lemma count_clr:
  assumes "i < n" "n \<le> cap m" "tst i m"
  shows "Suc (bit_count (\<lambda>j. tst j (clr i m)) n) = bit_count (\<lambda>j. tst j m) n"
  using assms by (intro bit_count_remove [of i]) (auto simp: tst_clr)

lemma count_zero_put:
  assumes "i < n" "n \<le> cap m" "\<not> tst i m"
  shows "Suc (bit_count (\<lambda>j. \<not> tst j (put i m)) n) = bit_count (\<lambda>j. \<not> tst j m) n"
  using assms by (intro bit_count_remove [of i]) (auto simp: tst_put)

lemma count_zero_clr:
  assumes "i < n" "n \<le> cap m" "tst i m"
  shows "bit_count (\<lambda>j. \<not> tst j (clr i m)) n = Suc (bit_count (\<lambda>j. \<not> tst j m) n)"
  using assms by (intro bit_count_insert [of i]) (auto simp: tst_clr)

lemma count_put_idem:
  assumes "i < n" "n \<le> cap m" "tst i m"
  shows "bit_count (\<lambda>j. tst j (put i m)) n = bit_count (\<lambda>j. tst j m) n"
  using assms by (intro bit_count_cong) (auto simp: tst_put)

lemma count_clr_idem:
  assumes "i < n" "n \<le> cap m" "\<not> tst i m"
  shows "bit_count (\<lambda>j. tst j (clr i m)) n = bit_count (\<lambda>j. tst j m) n"
  using assms by (intro bit_count_cong) (auto simp: tst_clr)

end

interpretation kb: bitmap_ops test_bit set_bit clear_bit length
  by unfold_locales (auto simp: bitmap_simps)

subsection \<open>Interface: searches\<close>

text \<open>
  The contract of a pair of ``find next set bit'' and ``find next clear bit'' routines on one
  representation, and the loop that alternates them: it visits the maximal runs in order.
\<close>

locale bit_search =
  fixes tst :: "nat \<Rightarrow> 'm \<Rightarrow> bool"
    and nxt nxt0 :: "'m \<Rightarrow> nat \<Rightarrow> nat \<Rightarrow> nat"
    and cap :: "'m \<Rightarrow> nat"
  assumes nxt: "sz \<le> cap m \<Longrightarrow> nxt m sz i = first_from (\<lambda>j. tst j m) sz i"
    and nxt0: "sz \<le> cap m \<Longrightarrow> nxt0 m sz i = first_from (\<lambda>j. \<not> tst j m) sz i"
begin

lemma nxt_lower: "sz \<le> cap m \<Longrightarrow> nxt m sz i < sz \<Longrightarrow> i \<le> nxt m sz i"
  using first_from_lower [of i sz "\<lambda>j. tst j m"] first_from_ge [of sz i "\<lambda>j. tst j m"]
  by (cases "i \<le> sz") (auto simp: nxt)

lemma nxt0_lower: "sz \<le> cap m \<Longrightarrow> i < sz \<Longrightarrow> Suc i \<le> nxt0 m sz (Suc i)"
  using first_from_lower [of "Suc i" sz "\<lambda>j. \<not> tst j m"] by (simp add: nxt0)

lemma loop_is_fold:
  assumes "sz \<le> cap m"
    and "\<And>s pos. f s pos = (if nxt m sz pos \<ge> sz then s
      else f (g (nxt m sz pos) (nxt0 m sz (Suc (nxt m sz pos))) s) (Suc (nxt0 m sz (Suc (nxt m sz pos)))))"
  shows "f s pos = fold (\<lambda>(a, b). g a b) (runs (\<lambda>i. tst i m) sz pos) s"
proof -
  have "P = (\<lambda>i. tst i m) \<Longrightarrow> mx = sz \<Longrightarrow> f s pos = fold (\<lambda>(a, b). g a b) (runs P mx pos) s" for P mx
  proof (induction P mx pos arbitrary: s rule: runs.induct)
    case (1 P mx pos)
    show ?case
    proof (cases "nxt m sz pos < sz")
      case True
      let ?st = "nxt m sz pos" and ?en = "nxt0 m sz (Suc (nxt m sz pos))"
      have e: "runs P mx pos = (?st, ?en) # runs P mx (Suc ?en)"
        using True 1(2,3) nxt [OF assms(1)] nxt0 [OF assms(1)] by (subst runs.simps) (simp add: Let_def)
      have "f (g ?st ?en s) (Suc ?en) = fold (\<lambda>(a, b). g a b) (runs P mx (Suc ?en)) (g ?st ?en s)"
      proof (rule 1(1))
        show "?en = first_from (\<lambda>i. \<not> P i) mx (Suc ?st)" by (simp add: 1(2,3) nxt0 [OF assms(1)])
      qed (use True 1(2,3) nxt [OF assms(1)] in simp_all)
      with True show ?thesis unfolding assms(2) [of s pos] e by simp
    next
      case False
      then have "runs P mx pos = []"
        using 1(2,3) nxt [OF assms(1)] by (subst runs.simps) simp
      with False show ?thesis by (simp add: assms(2) [of s pos])
    qed
  qed
  then show ?thesis by blast
qed

end

interpretation ks: bit_search test_bit find_next_bit find_next_zero_bit length
  by unfold_locales (simp_all add: find_next_bit_def find_next_zero_bit_def)

subsection \<open>Interface: state machines with an invariant\<close>

text \<open>
  A component given by its start states and its step relation promises an invariant; its
  clients rely on it in every state that some run reaches.
\<close>

locale state_machine =
  fixes start :: "'s \<Rightarrow> bool"
    and step :: "'s \<Rightarrow> 's \<Rightarrow> bool"
    and invar :: "'s \<Rightarrow> bool"
  assumes invar_start: "start s \<Longrightarrow> invar s"
    and invar_step: "step s s' \<Longrightarrow> invar s \<Longrightarrow> invar s'"
begin

lemma invar_steps: "step\<^sup>*\<^sup>* s s' \<Longrightarrow> invar s \<Longrightarrow> invar s'"
  by (induction rule: rtranclp_induct) (auto intro: invar_step)

lemma invar_reachable: "start s \<Longrightarrow> step\<^sup>*\<^sup>* s s' \<Longrightarrow> invar s'"
  using invar_start invar_steps by blast

end

subsection \<open>Sums over updated lists\<close>

lemma sum_list_map_update:
  fixes f :: "'a \<Rightarrow> int"
  assumes "i < length xs"
  shows "sum_list (map f (xs[i := x])) = sum_list (map f xs) - f (xs ! i) + f x"
  using assms
proof (induction xs arbitrary: i)
  case (Cons y ys)
  then show ?case by (cases i) auto
qed simp

lemma sum_list_map_ge_elem:
  fixes f :: "'a \<Rightarrow> int"
  assumes "\<And>x. 0 \<le> f x" "i < length xs"
  shows "f (xs ! i) \<le> sum_list (map f xs)"
  using assms(2)
proof (induction xs arbitrary: i)
  case (Cons y ys)
  have "0 \<le> sum_list (map f ys)" using assms(1) by (intro sum_list_nonneg) auto
  with Cons assms(1) [of y] show ?case by (cases i) (auto simp: add_increasing)
qed simp

lemma sum_list_map_zero:
  fixes f :: "'a \<Rightarrow> int"
  assumes "\<And>i. i < length xs \<Longrightarrow> f (xs ! i) = 0"
  shows "sum_list (map f xs) = 0"
proof -
  have "map f xs = replicate (length xs) 0"
    using assms by (intro nth_equalityI) auto
  then show ?thesis by (simp add: sum_list_replicate)
qed

end
