(* ===== verification/Hash.thy ===== *)
theory Hash
  imports Max_Prelude
begin

section \<open>Directory-entry hashing and checksums\<close>

text \<open>
  The TEA-based name hash of \<open>Max/hash.c\<close> and its copy in
  \<open>disk-tools/lib/libf2fs.c\<close>, and the CRC32 of the disk tools, at their machine widths.
  A name is the list of bytes the pointer addresses; \<open>len\<close> is the length argument.
\<close>

definition DELTA :: u32 where
  "DELTA = 0x9E3779B9"

text \<open>One pass of the \<open>do \<dots> while (--n)\<close> loop, and the loop with its counter.\<close>

definition tea_round :: "u32 \<times> u32 \<times> u32 \<times> u32 \<Rightarrow> u32 \<times> u32 \<times> u32 \<Rightarrow> u32 \<times> u32 \<times> u32" where
  "tea_round key st =
     (case key of (a, b, c, d) \<Rightarrow> case st of (sm, b0, b1) \<Rightarrow>
        let sm = sm + DELTA;
            b0 = b0 + ((push_bit 4 b1 + a) XOR (b1 + sm) XOR (drop_bit 5 b1 + b));
            b1 = b1 + ((push_bit 4 b0 + c) XOR (b0 + sm) XOR (drop_bit 5 b0 + d))
        in (sm, b0, b1))"

primrec tea_rounds :: "nat \<Rightarrow> u32 \<times> u32 \<times> u32 \<times> u32 \<Rightarrow> u32 \<times> u32 \<times> u32 \<Rightarrow> u32 \<times> u32 \<times> u32" where
  "tea_rounds 0 key st = st"
| "tea_rounds (Suc n) key st = tea_rounds n key (tea_round key st)"

definition TEA_transform :: "u32 list \<Rightarrow> u32 list \<Rightarrow> u32 list" where
  "TEA_transform buf inp =
     (case tea_rounds 16 (inp ! 0, inp ! 1, inp ! 2, inp ! 3) (0, buf ! 0, buf ! 1) of
        (sm, b0, b1) \<Rightarrow> buf[0 := buf ! 0 + b0, 1 := buf ! 1 + b1])"

text \<open>
  \<open>str2hashbuf\<close>: the words written to \<open>buf\<close> in order. \<open>hashbuf_loop\<close> is the
  \<open>for\<close> loop over the bytes: it returns the words written, the pending word \<open>val\<close> and
  what is left of \<open>num\<close>.
\<close>

definition hash_pad :: "nat \<Rightarrow> u32" where
  "hash_pad len =
     (let pad = word_of_nat len OR push_bit 8 (word_of_nat len :: u32)
      in pad OR push_bit 16 pad)"

fun hashbuf_loop :: "u32 \<Rightarrow> u8 list \<Rightarrow> nat \<Rightarrow> u32 \<Rightarrow> int \<Rightarrow> u32 list \<times> u32 \<times> int" where
  "hashbuf_loop pad [] i val num = ([], val, num)"
| "hashbuf_loop pad (c # cs) i val num =
     (let val = (if i mod 4 = 0 then pad else val);
          val = ucast c + push_bit 8 val
      in if i mod 4 = 3
         then (case hashbuf_loop pad cs (Suc i) pad (num - 1) of
                 (ws, v, n) \<Rightarrow> (val # ws, v, n))
         else hashbuf_loop pad cs (Suc i) val num)"

definition str2hashbuf :: "u8 list \<Rightarrow> nat \<Rightarrow> int \<Rightarrow> u32 list" where
  "str2hashbuf msg len num =
     (let pad = hash_pad len;
          len' = (if int len > num * 4 then nat (num * 4) else len)
      in case hashbuf_loop pad (take len' msg) 0 pad num of
           (ws, val, num') \<Rightarrow>
             ws @ (if num' - 1 \<ge> 0 then [val] else []) @ replicate (nat (num' - 1)) pad)"

text \<open>The loop of \<open>f2fs_dentry_hash\<close>, 16 bytes at a time.\<close>

function hash_loop :: "u8 list \<Rightarrow> nat \<Rightarrow> u32 list \<Rightarrow> u32 list" where
  "hash_loop p len buf =
     (let buf = TEA_transform buf (str2hashbuf p len 4)
      in if len \<le> 16 then buf else hash_loop (drop 16 p) (len - 16) buf)"
  by pat_completeness auto
termination
  by (relation "measure (\<lambda>(p, len, buf). len)") auto

declare hash_loop.simps [simp del]

definition hash_seed :: "u32 list" where
  "hash_seed = [0x67452301, 0xefcdab89, 0x98badcfe, 0x10325476]"

definition F2FS_HASH_COL_BIT :: u64 where
  "F2FS_HASH_COL_BIT = push_bit 63 1"

definition is_dot_dotdot :: "u8 list \<Rightarrow> nat \<Rightarrow> bool" where
  "is_dot_dotdot name len =
     (len = 1 \<and> name ! 0 = 46 \<or> len = 2 \<and> name ! 0 = 46 \<and> name ! 1 = 46)"

definition f2fs_dentry_hash :: "u8 list \<Rightarrow> nat \<Rightarrow> u32" where
  "f2fs_dentry_hash name len =
     (if is_dot_dotdot name len then 0
      else let hash = hash_loop name len hash_seed ! 0
           in ucast ((ucast hash :: u64) AND NOT F2FS_HASH_COL_BIT))"

text \<open>The copy in the disk tools differs in its test for the dot entries.\<close>

definition f2fs_dentry_hash_tools :: "u8 list \<Rightarrow> nat \<Rightarrow> u32" where
  "f2fs_dentry_hash_tools name len =
     (if len \<le> 2 \<and> name ! 0 = 46 \<and> (name ! 1 = 46 \<or> name ! 1 = 0) then 0
      else let hash = hash_loop name len hash_seed ! 0
           in ucast ((ucast hash :: u64) AND NOT F2FS_HASH_COL_BIT))"

subsection \<open>CRC32 of the disk tools\<close>

definition CRCPOLY_LE :: u32 where
  "CRCPOLY_LE = 0xedb88320"

definition crc_step :: "u32 \<Rightarrow> u32" where
  "crc_step crc = drop_bit 1 crc XOR (if crc AND 1 \<noteq> 0 then CRCPOLY_LE else 0)"

fun f2fs_cal_crc32 :: "u32 \<Rightarrow> u8 list \<Rightarrow> u32" where
  "f2fs_cal_crc32 crc [] = crc"
| "f2fs_cal_crc32 crc (b # bs) = f2fs_cal_crc32 ((crc_step ^^ 8) (crc XOR ucast b)) bs"

definition F2FS_SUPER_MAGIC :: u32 where
  "F2FS_SUPER_MAGIC = 0xF2F52010"

definition f2fs_crc_valid :: "u32 \<Rightarrow> u8 list \<Rightarrow> int" where
  "f2fs_crc_valid blk_crc buf =
     (if f2fs_cal_crc32 F2FS_SUPER_MAGIC buf \<noteq> blk_crc then - 1 else 0)"

subsection \<open>The block buffer is filled exactly\<close>

lemma hashbuf_loop_count:
  "hashbuf_loop pad cs i val num = (ws, v, n) \<Longrightarrow>
     int (length ws) = num - n \<and> length ws = (i mod 4 + length cs) div 4"
proof (induction pad cs i val num arbitrary: ws v n rule: hashbuf_loop.induct)
  case (1 pad i val num)
  then show ?case by simp
next
  case (2 pad c cs i val num)
  have r: "i mod 4 < 4" by simp
  show ?case
  proof (cases "i mod 4 = 3")
    case True
    obtain ws' v' n' where rec: "hashbuf_loop pad cs (Suc i) pad (num - 1) = (ws', v', n')"
      by (cases "hashbuf_loop pad cs (Suc i) pad (num - 1)") auto
    have "Suc i mod 4 = 0" using True by presburger
    moreover from "2.IH"(1) [OF refl refl True rec]
    have "int (length ws') = num - 1 - n'" "length ws' = (Suc i mod 4 + length cs) div 4"
      by simp_all
    ultimately show ?thesis using "2.prems" True rec by (auto simp: Let_def)
  next
    case False
    with r have "Suc i mod 4 = Suc (i mod 4)" by (simp add: mod_Suc)
    with "2.IH"(2) [OF refl refl False] "2.prems" False show ?thesis by (auto simp: Let_def)
  qed
qed

lemma str2hashbuf_length:
  assumes "len \<le> length msg"
  shows "length (str2hashbuf msg len (int n)) = n"
proof -
  define len' where "len' = (if int len > int n * 4 then nat (int n * 4) else len)"
  have le: "len' \<le> length msg" "len' \<le> 4 * n" using assms by (auto simp: len'_def)
  obtain ws v m where rec: "hashbuf_loop (hash_pad len) (take len' msg) 0 (hash_pad len) (int n) = (ws, v, m)"
    by (cases "hashbuf_loop (hash_pad len) (take len' msg) 0 (hash_pad len) (int n)") auto
  have "int (length ws) = int n - m" "length ws = len' div 4"
    using hashbuf_loop_count [OF rec] le by (simp_all add: min_absorb2)
  moreover from this le have "length ws \<le> n" by simp
  moreover have "length (str2hashbuf msg len (int n)) =
      length ws + (if m - 1 \<ge> 0 then 1 else 0) + nat (m - 1)"
    using rec by (simp add: str2hashbuf_def Let_def len'_def [symmetric])
  ultimately show ?thesis by (simp split: if_splits)
qed

subsection \<open>The hash reads the name and nothing else\<close>

lemma str2hashbuf_take: "str2hashbuf (take len msg) len num = str2hashbuf msg len num"
proof -
  have "min (nat (num * 4)) len = nat (num * 4)" if "num * 4 < int len"
    using that by linarith
  then show ?thesis by (simp add: str2hashbuf_def Let_def)
qed

lemma hash_loop_take: "hash_loop (take len p) len buf = hash_loop p len buf"
proof (induction p len buf rule: hash_loop.induct)
  case (1 p len buf)
  show ?case
  proof (cases "len \<le> 16")
    case True
    then show ?thesis by (simp add: hash_loop.simps str2hashbuf_take Let_def)
  next
    case False
    have "hash_loop (take (len - 16) (drop 16 p)) (len - 16) (TEA_transform buf (str2hashbuf p len 4))
        = hash_loop (drop 16 p) (len - 16) (TEA_transform buf (str2hashbuf p len 4))"
      using "1.IH" [OF refl False] .
    with False show ?thesis
      by (simp add: hash_loop.simps [of p len] hash_loop.simps [of "take len p" len]
          str2hashbuf_take Let_def drop_take)
  qed
qed

text \<open>The 64-bit collision mask never touches a 32-bit hash.\<close>

lemma bit_F2FS_HASH_COL_BIT: "bit F2FS_HASH_COL_BIT n \<longleftrightarrow> n = 63"
  unfolding F2FS_HASH_COL_BIT_def by (auto simp only: bit_push_bit_iff bit_1_iff possible_bit_word) simp_all

lemma collision_mask_noop: "ucast ((ucast (h :: u32) :: u64) AND NOT F2FS_HASH_COL_BIT) = h"
proof (rule bit_word_eqI)
  fix n
  assume "n < LENGTH(32)"
  then show "bit (ucast ((ucast h :: u64) AND NOT F2FS_HASH_COL_BIT) :: u32) n = bit h n"
    by (auto simp: bit_F2FS_HASH_COL_BIT bit_simps)
qed

text \<open>
  the hash stored in a directory entry is the first word of the TEA state over exactly
  \<open>len\<close> bytes of the name; the mask with \<open>F2FS_HASH_COL_BIT\<close>, bit 63, removes nothing
  from the 32-bit value.
\<close>
theorem f2fs_dentry_hash_value:
  assumes "\<not> is_dot_dotdot name len"
  shows "f2fs_dentry_hash name len = hash_loop (take len name) len hash_seed ! 0"
  using assms by (simp add: f2fs_dentry_hash_def collision_mask_noop hash_loop_take Let_def)

theorem f2fs_dentry_hash_value_witness:
  "f2fs_dentry_hash [97, 98, 99] 2 = hash_loop [97, 98] 2 hash_seed ! 0"
  using f2fs_dentry_hash_value [of "[97, 98, 99]" 2] by (simp add: is_dot_dotdot_def)



subsection \<open>CRC32\<close>

text \<open>
  The top bit of the polynomial is set, so bit 31 of a step's result is the bit shifted out:
  a step can be undone.
\<close>

definition crc_unstep :: "u32 \<Rightarrow> u32" where
  "crc_unstep r = (if bit r 31 then push_bit 1 (r XOR CRCPOLY_LE) OR 1 else push_bit 1 r)"

lemma and_1_ne_0: "(w :: u32) AND 1 \<noteq> 0 \<longleftrightarrow> bit w 0"
  by (simp add: and_one_eq bit_0 odd_iff_mod_2_eq_one [symmetric] mod2_eq_if)

lemma crc_step_bit31: "bit (crc_step crc) 31 = bit crc 0"
proof -
  have "bit CRCPOLY_LE 31" by (simp add: CRCPOLY_LE_def)
  moreover have "\<not> bit crc 32" using bit_imp_le_length [of crc 32] by auto
  ultimately show ?thesis by (simp add: crc_step_def and_1_ne_0 bit_xor_iff bit_drop_bit_eq)
qed

lemma bit_shift_up: "n < 32 \<Longrightarrow> bit (push_bit 1 (drop_bit 1 (w :: u32))) n \<longleftrightarrow> 0 < n \<and> bit w n"
  by (cases n) (simp_all only: bit_push_bit_iff bit_drop_bit_eq possible_bit_word, simp_all)

lemma crc_unstep_step: "crc_unstep (crc_step crc) = crc"
proof (rule bit_word_eqI)
  fix n
  assume n: "n < LENGTH(32)"
  show "bit (crc_unstep (crc_step crc)) n = bit crc n"
  proof (cases "bit crc 0")
    case True
    then have e: "crc_step crc XOR CRCPOLY_LE = drop_bit 1 crc"
      by (simp add: crc_step_def and_1_ne_0 xor.assoc)
    have "crc_unstep (crc_step crc) = push_bit 1 (drop_bit 1 crc) OR 1"
      using True by (simp add: crc_unstep_def crc_step_bit31 e)
    with True n show ?thesis
      using bit_shift_up [of n crc] by (simp only: bit_or_iff) (auto simp: bit_1_iff)
  next
    case False
    then have e: "crc_step crc = drop_bit 1 crc" by (simp add: crc_step_def and_1_ne_0)
    have "crc_unstep (crc_step crc) = push_bit 1 (drop_bit 1 crc)"
      using False crc_step_bit31 [of crc] by (simp add: crc_unstep_def) (simp add: e)
    with False n show ?thesis
      using bit_shift_up [of n crc] by (cases n) simp_all
  qed
qed

lemma inj_crc_step: "inj crc_step"
  by (metis crc_unstep_step injI)

lemma inj_crc_step8: "inj (crc_step ^^ 8)"
  using inj_crc_step by (rule inj_fn)

lemma ucast_byte_inj: "(ucast (a :: u8) :: u32) = ucast b \<Longrightarrow> a = b"
proof -
  assume eq: "(ucast a :: u32) = ucast b"
  show "a = b"
  proof (rule bit_word_eqI)
    fix n
    assume "n < LENGTH(8)"
    moreover have "bit (ucast a :: u32) n = bit (ucast b :: u32) n" using eq by simp
    ultimately show "bit a n = bit b n" by (simp add: bit_simps)
  qed
qed

lemma inj_f2fs_cal_crc32: "f2fs_cal_crc32 c bs = f2fs_cal_crc32 c' bs \<Longrightarrow> c = c'"
proof (induction bs arbitrary: c c')
  case (Cons b bs)
  then have "(crc_step ^^ 8) (c XOR ucast b) = (crc_step ^^ 8) (c' XOR ucast b)" by simp
  then have "c XOR ucast b = c' XOR ucast b" by (rule injD [OF inj_crc_step8])
  then have "(c XOR ucast b) XOR ucast b = (c' XOR ucast b) XOR ucast b" by (rule arg_cong)
  then show ?case by (simp only: xor.assoc xor_self_eq xor.right_neutral)
qed simp

lemma f2fs_cal_crc32_append:
  "f2fs_cal_crc32 crc (xs @ ys) = f2fs_cal_crc32 (f2fs_cal_crc32 crc xs) ys"
  by (induction xs arbitrary: crc) auto

text \<open>
  C12: a block whose stored checksum matched is refused as soon as any single byte of it
  has changed.
\<close>
theorem crc_detects_byte_change:
  assumes "f2fs_crc_valid blk_crc buf = 0" "i < length buf" "b \<noteq> buf ! i"
  shows "f2fs_crc_valid blk_crc (buf[i := b]) = -1"
proof (rule ccontr)
  assume "f2fs_crc_valid blk_crc (buf[i := b]) \<noteq> -1"
  with assms(1) have eq: "f2fs_cal_crc32 F2FS_SUPER_MAGIC buf = f2fs_cal_crc32 F2FS_SUPER_MAGIC (buf[i := b])"
    by (auto simp: f2fs_crc_valid_def split: if_splits)
  let ?c = "f2fs_cal_crc32 F2FS_SUPER_MAGIC (take i buf)"
  have "buf = take i buf @ buf ! i # drop (Suc i) buf" using assms(2) by (rule id_take_nth_drop)
  moreover have "buf[i := b] = take i buf @ b # drop (Suc i) buf" using assms(2) by (rule upd_conv_take_nth_drop)
  ultimately have "f2fs_cal_crc32 ?c (buf ! i # drop (Suc i) buf) = f2fs_cal_crc32 ?c (b # drop (Suc i) buf)"
    using eq by (metis f2fs_cal_crc32_append)
  then have "(crc_step ^^ 8) (?c XOR ucast (buf ! i)) = (crc_step ^^ 8) (?c XOR ucast b)"
    unfolding f2fs_cal_crc32.simps by (rule inj_f2fs_cal_crc32)
  then have "?c XOR ucast (buf ! i) = ?c XOR ucast b" by (rule injD [OF inj_crc_step8])
  then have "?c XOR (?c XOR ucast (buf ! i)) = ?c XOR (?c XOR ucast b)" by (rule arg_cong)
  then have "(ucast (buf ! i) :: u32) = ucast b"
    by (simp only: xor.assoc [symmetric] xor_self_eq xor.left_neutral)
  then have "buf ! i = b" by (rule ucast_byte_inj)
  with assms(3) show False by simp
qed

theorem crc_detects_byte_change_witness:
  "f2fs_crc_valid (f2fs_cal_crc32 F2FS_SUPER_MAGIC [1, 2, 3]) ([1, 2, 3][1 := 7]) = -1"
  using crc_detects_byte_change [of "f2fs_cal_crc32 F2FS_SUPER_MAGIC [1, 2, 3]" "[1, 2, 3]" 1 7]
  by (simp add: f2fs_crc_valid_def)

end
