(* ===== verification/Rps.thy ===== *)
theory Rps
  imports Max_Prelude
begin

section \<open>The reader pass-through semaphore\<close>

text \<open>
  \<open>Max/rps.c\<close>: readers count themselves on a per-CPU counter while no writer is about
  (the highway) and on a shared counter behind the inner \<open>rw_sem\<close> otherwise (the lowway);
  a writer announces itself, waits for the readers that are inside a preempt-disabled
  section, takes \<open>rw_sem\<close>, moves the per-CPU counts to the shared counter and waits for
  it to drop to zero.

  The model is a step relation over the shared state and the program counter of each of a
  fixed number of threads; every access to shared memory is its own step, so the steps of
  different threads interleave freely. \<open>synchronize_sched_expedited\<close> is a program
  counter that carries the threads still to leave the preempt-disabled section they were in
  when it was called. \<open>down_read\<close> and \<open>down_write\<close> of the inner semaphore are atomic
  steps guarded by its holders. A reader may take and release the lock on different CPUs.
  Counters are integers: the number of threads bounds them far below the width of
  \<open>int\<close>.
\<close>

datatype pc =
    Idle
  | HwAdd nat            \<comment> \<open>\<open>go_highway(+1)\<close>: saw no writer, about to add on this CPU\<close>
  | TryLow               \<comment> \<open>\<open>rps_down_read_try_lock\<close>: saw a writer, about to try \<open>rw_sem\<close>\<close>
  | LowWait              \<comment> \<open>\<open>go_lowway\<close>: about to take \<open>rw_sem\<close> for reading\<close>
  | LowHold              \<comment> \<open>holds \<open>rw_sem\<close>, about to increment \<open>lowway_cnt\<close>\<close>
  | LowDone              \<comment> \<open>incremented, about to release \<open>rw_sem\<close>\<close>
  | Reading              \<comment> \<open>inside the read-side critical section\<close>
  | HwSub nat            \<comment> \<open>\<open>go_highway(-1)\<close>: saw no writer, about to subtract on this CPU\<close>
  | LowDec               \<comment> \<open>\<open>rps_up_read\<close>: about to decrement \<open>lowway_cnt\<close>\<close>
  | WSync "nat list"     \<comment> \<open>\<open>rps_down_write\<close>: announced, in \<open>synchronize_sched\<close>\<close>
  | WLock                \<comment> \<open>about to take \<open>rw_sem\<close> for writing\<close>
  | WRead "nat list" int \<comment> \<open>\<open>clear_highway\<close>: CPUs left, sum so far\<close>
  | WZero "nat list" int \<comment> \<open>\<open>clear_highway\<close>: about to zero the first CPU left\<close>
  | WAdd int             \<comment> \<open>about to add the sum to \<open>lowway_cnt\<close>\<close>
  | WWait                \<comment> \<open>\<open>wait_event\<close> on \<open>lowway_cnt\<close>\<close>
  | Writing              \<comment> \<open>inside the write-side critical section\<close>
  | WUpSync "nat list"   \<comment> \<open>\<open>rps_up_write\<close>: released \<open>rw_sem\<close>, in \<open>synchronize_sched\<close>\<close>
  | WDec                 \<comment> \<open>about to decrement \<open>writers_cnt\<close>\<close>

record rps =
  highway_cnt :: "int list"
  lowway_cnt :: int
  writers_cnt :: int
  sem_readers :: "nat list"
  sem_writer :: "nat option"
  pcs :: "pc list"

datatype rps_error = ENOMEM

definition rps_init_rwsem :: "bool \<Rightarrow> nat \<Rightarrow> nat \<Rightarrow> rps_error + rps" where
  "rps_init_rwsem alloc_ok ncpus nthreads =
     (if \<not> alloc_ok then Inl ENOMEM
      else Inr \<lparr>highway_cnt = replicate ncpus 0, lowway_cnt = 0, writers_cnt = 0,
                sem_readers = [], sem_writer = None, pcs = replicate nthreads Idle\<rparr>)"

text \<open>Preempt-disabled sections and the grace period.\<close>

fun in_section :: "pc \<Rightarrow> bool" where
  "in_section (HwAdd c) = True"
| "in_section (HwSub c) = True"
| "in_section _ = False"

definition section_threads :: "pc list \<Rightarrow> nat list" where
  "section_threads ps = filter (\<lambda>t. in_section (ps ! t)) [0..<length ps]"

fun quiesce :: "nat \<Rightarrow> pc \<Rightarrow> pc" where
  "quiesce t (WSync ts) = WSync (removeAll t ts)"
| "quiesce t (WUpSync ts) = WUpSync (removeAll t ts)"
| "quiesce t p = p"

definition goto :: "nat \<Rightarrow> pc \<Rightarrow> rps \<Rightarrow> rps" where
  "goto t p s = s\<lparr>pcs := (pcs s)[t := p]\<rparr>"

definition leave_section :: "nat \<Rightarrow> pc \<Rightarrow> rps \<Rightarrow> rps" where
  "leave_section t p s = s\<lparr>pcs := map (quiesce t) ((pcs s)[t := p])\<rparr>"

definition this_cpu_add :: "nat \<Rightarrow> int \<Rightarrow> rps \<Rightarrow> rps" where
  "this_cpu_add c v s = s\<lparr>highway_cnt := (highway_cnt s)[c := highway_cnt s ! c + v]\<rparr>"

subsection \<open>The steps\<close>

inductive rps_step :: "rps \<Rightarrow> rps \<Rightarrow> bool" where
  down_read_fast: "t < length (pcs s) \<Longrightarrow> pcs s ! t = Idle \<Longrightarrow> writers_cnt s = 0 \<Longrightarrow>
     c < length (highway_cnt s) \<Longrightarrow> rps_step s (goto t (HwAdd c) s)"
| down_read_slow: "t < length (pcs s) \<Longrightarrow> pcs s ! t = Idle \<Longrightarrow> writers_cnt s \<noteq> 0 \<Longrightarrow>
     rps_step s (goto t LowWait s)"
| try_lock_slow: "t < length (pcs s) \<Longrightarrow> pcs s ! t = Idle \<Longrightarrow> writers_cnt s \<noteq> 0 \<Longrightarrow>
     rps_step s (goto t TryLow s)"
| highway_add: "t < length (pcs s) \<Longrightarrow> pcs s ! t = HwAdd c \<Longrightarrow>
     rps_step s (leave_section t Reading (this_cpu_add c 1 s))"
| try_lock_ok: "t < length (pcs s) \<Longrightarrow> pcs s ! t = TryLow \<Longrightarrow> sem_writer s = None \<Longrightarrow>
     rps_step s (goto t LowHold (s\<lparr>sem_readers := t # sem_readers s\<rparr>))"
| try_lock_fail: "t < length (pcs s) \<Longrightarrow> pcs s ! t = TryLow \<Longrightarrow>
     rps_step s (goto t Idle s)"
| lowway_down: "t < length (pcs s) \<Longrightarrow> pcs s ! t = LowWait \<Longrightarrow> sem_writer s = None \<Longrightarrow>
     rps_step s (goto t LowHold (s\<lparr>sem_readers := t # sem_readers s\<rparr>))"
| lowway_inc: "t < length (pcs s) \<Longrightarrow> pcs s ! t = LowHold \<Longrightarrow>
     rps_step s (goto t LowDone (s\<lparr>lowway_cnt := lowway_cnt s + 1\<rparr>))"
| lowway_up: "t < length (pcs s) \<Longrightarrow> pcs s ! t = LowDone \<Longrightarrow>
     rps_step s (goto t Reading (s\<lparr>sem_readers := removeAll t (sem_readers s)\<rparr>))"
| up_read_fast: "t < length (pcs s) \<Longrightarrow> pcs s ! t = Reading \<Longrightarrow> writers_cnt s = 0 \<Longrightarrow>
     c < length (highway_cnt s) \<Longrightarrow> rps_step s (goto t (HwSub c) s)"
| up_read_slow: "t < length (pcs s) \<Longrightarrow> pcs s ! t = Reading \<Longrightarrow> writers_cnt s \<noteq> 0 \<Longrightarrow>
     rps_step s (goto t LowDec s)"
| highway_sub: "t < length (pcs s) \<Longrightarrow> pcs s ! t = HwSub c \<Longrightarrow>
     rps_step s (leave_section t Idle (this_cpu_add c (- 1) s))"
| lowway_dec: "t < length (pcs s) \<Longrightarrow> pcs s ! t = LowDec \<Longrightarrow>
     rps_step s (goto t Idle (s\<lparr>lowway_cnt := lowway_cnt s - 1\<rparr>))"
| down_write_announce: "t < length (pcs s) \<Longrightarrow> pcs s ! t = Idle \<Longrightarrow>
     rps_step s (goto t (WSync (section_threads (pcs s))) (s\<lparr>writers_cnt := writers_cnt s + 1\<rparr>))"
| down_write_synced: "t < length (pcs s) \<Longrightarrow> pcs s ! t = WSync [] \<Longrightarrow>
     rps_step s (goto t WLock s)"
| down_write_lock: "t < length (pcs s) \<Longrightarrow> pcs s ! t = WLock \<Longrightarrow>
     sem_writer s = None \<Longrightarrow> sem_readers s = [] \<Longrightarrow>
     rps_step s (goto t (WRead [0..<length (highway_cnt s)] 0) (s\<lparr>sem_writer := Some t\<rparr>))"
| clear_read: "t < length (pcs s) \<Longrightarrow> pcs s ! t = WRead (c # cs) n \<Longrightarrow>
     rps_step s (goto t (WZero (c # cs) (n + highway_cnt s ! c)) s)"
| clear_zero: "t < length (pcs s) \<Longrightarrow> pcs s ! t = WZero (c # cs) n \<Longrightarrow>
     rps_step s (goto t (WRead cs n) (s\<lparr>highway_cnt := (highway_cnt s)[c := 0]\<rparr>))"
| clear_done: "t < length (pcs s) \<Longrightarrow> pcs s ! t = WRead [] n \<Longrightarrow>
     rps_step s (goto t (WAdd n) s)"
| down_write_add: "t < length (pcs s) \<Longrightarrow> pcs s ! t = WAdd n \<Longrightarrow>
     rps_step s (goto t WWait (s\<lparr>lowway_cnt := lowway_cnt s + n\<rparr>))"
| down_write_enter: "t < length (pcs s) \<Longrightarrow> pcs s ! t = WWait \<Longrightarrow> lowway_cnt s = 0 \<Longrightarrow>
     rps_step s (goto t Writing s)"
| up_write_unlock: "t < length (pcs s) \<Longrightarrow> pcs s ! t = Writing \<Longrightarrow>
     rps_step s (goto t (WUpSync (section_threads (pcs s))) (s\<lparr>sem_writer := None\<rparr>))"
| up_write_synced: "t < length (pcs s) \<Longrightarrow> pcs s ! t = WUpSync [] \<Longrightarrow>
     rps_step s (goto t WDec s)"
| up_write_dec: "t < length (pcs s) \<Longrightarrow> pcs s ! t = WDec \<Longrightarrow>
     rps_step s (goto t Idle (s\<lparr>writers_cnt := writers_cnt s - 1\<rparr>))"

definition rps_start :: "nat \<Rightarrow> nat \<Rightarrow> rps \<Rightarrow> bool" where
  "rps_start ncpus nthreads s = (rps_init_rwsem True ncpus nthreads = Inr s)"

definition rps_reachable :: "nat \<Rightarrow> nat \<Rightarrow> rps \<Rightarrow> bool" where
  "rps_reachable ncpus nthreads s' = (\<exists>s. rps_start ncpus nthreads s \<and> rps_step\<^sup>*\<^sup>* s s')"

subsection \<open>The invariant\<close>

fun is_writer :: "pc \<Rightarrow> bool" where
  "is_writer (WSync ts) = True"
| "is_writer WLock = True"
| "is_writer (WRead cs n) = True"
| "is_writer (WZero cs n) = True"
| "is_writer (WAdd n) = True"
| "is_writer WWait = True"
| "is_writer Writing = True"
| "is_writer (WUpSync ts) = True"
| "is_writer WDec = True"
| "is_writer _ = False"

definition synced :: "pc \<Rightarrow> bool" where
  "synced p = (is_writer p \<and> (\<forall>ts. p \<noteq> WSync ts))"

fun holds_write :: "pc \<Rightarrow> bool" where
  "holds_write (WRead cs n) = True"
| "holds_write (WZero cs n) = True"
| "holds_write (WAdd n) = True"
| "holds_write WWait = True"
| "holds_write Writing = True"
| "holds_write _ = False"

definition holds_read :: "pc \<Rightarrow> bool" where
  "holds_read p = (p = LowHold \<or> p = LowDone)"

text \<open>A thread that the counters account for: it has been counted in and not yet out.\<close>

fun contrib :: "pc \<Rightarrow> int" where
  "contrib LowDone = 1"
| "contrib Reading = 1"
| "contrib (HwSub c) = 1"
| "contrib LowDec = 1"
| "contrib _ = 0"

text \<open>What a writer has taken from the highway and not yet put on the lowway.\<close>

fun pending :: "int list \<Rightarrow> pc \<Rightarrow> int" where
  "pending hs (WRead cs n) = n"
| "pending hs (WZero (c # cs) n) = n - hs ! c"
| "pending hs (WAdd n) = n"
| "pending hs p = 0"

text \<open>CPUs a writer has still to clear, once it holds the semaphore.\<close>

fun uncleared :: "pc \<Rightarrow> nat list option" where
  "uncleared (WRead cs n) = Some cs"
| "uncleared (WZero cs n) = Some cs"
| "uncleared (WAdd n) = Some []"
| "uncleared WWait = Some []"
| "uncleared Writing = Some []"
| "uncleared p = None"

definition inv_count_writers :: "rps \<Rightarrow> bool" where
  "inv_count_writers s = (writers_cnt s = sum_list (map (\<lambda>p. of_bool (is_writer p)) (pcs s)))"

definition inv_sections :: "rps \<Rightarrow> bool" where
  "inv_sections s = (\<forall>w < length (pcs s). \<forall>t < length (pcs s). in_section (pcs s ! t) \<longrightarrow>
     \<not> synced (pcs s ! w) \<and> (\<forall>ts. pcs s ! w = WSync ts \<longrightarrow> t \<in> set ts))"

definition inv_sem :: "rps \<Rightarrow> bool" where
  "inv_sem s = ((\<forall>t < length (pcs s). holds_write (pcs s ! t) \<longleftrightarrow> sem_writer s = Some t) \<and>
     (\<forall>t < length (pcs s). holds_read (pcs s ! t) \<longleftrightarrow> t \<in> set (sem_readers s)) \<and>
     (sem_writer s \<noteq> None \<longrightarrow> sem_readers s = []))"

definition inv_total :: "rps \<Rightarrow> bool" where
  "inv_total s = (sum_list (highway_cnt s) + lowway_cnt s
     + sum_list (map (pending (highway_cnt s)) (pcs s)) = sum_list (map contrib (pcs s)))"

definition inv_cleared :: "rps \<Rightarrow> bool" where
  "inv_cleared s = (\<forall>w < length (pcs s). \<forall>cs. uncleared (pcs s ! w) = Some cs \<longrightarrow>
     set cs \<subseteq> {..< length (highway_cnt s)} \<and>
     (\<forall>c < length (highway_cnt s). c \<notin> set cs \<longrightarrow> highway_cnt s ! c = 0))"

definition inv_drained :: "rps \<Rightarrow> bool" where
  "inv_drained s = (\<forall>w < length (pcs s). pcs s ! w = Writing \<longrightarrow> lowway_cnt s = 0)"

definition inv_cpus :: "rps \<Rightarrow> bool" where
  "inv_cpus s = (\<forall>t < length (pcs s). \<forall>c. pcs s ! t = HwAdd c \<or> pcs s ! t = HwSub c \<longrightarrow>
     c < length (highway_cnt s))"

definition rps_inv :: "rps \<Rightarrow> bool" where
  "rps_inv s = (inv_cpus s \<and> inv_count_writers s \<and> inv_sections s \<and> inv_sem s \<and> inv_total s \<and>
     inv_cleared s \<and> inv_drained s)"

subsection \<open>Program counters under the grace-period bookkeeping\<close>

lemma quiesce_simps [simp]:
  "is_writer (quiesce t p) = is_writer p" "holds_write (quiesce t p) = holds_write p"
  "holds_read (quiesce t p) = holds_read p" "contrib (quiesce t p) = contrib p"
  "pending hs (quiesce t p) = pending hs p" "uncleared (quiesce t p) = uncleared p"
  "in_section (quiesce t p) = in_section p" "synced (quiesce t p) = synced p"
  "quiesce t p = Writing \<longleftrightarrow> p = Writing" "quiesce t p = LowHold \<longleftrightarrow> p = LowHold"
  "quiesce t p = LowDone \<longleftrightarrow> p = LowDone" "quiesce t p = Reading \<longleftrightarrow> p = Reading"
  by (cases p; simp add: holds_read_def synced_def)+

lemma quiesce_WSync: "quiesce t p = WSync ts \<longleftrightarrow> (\<exists>us. p = WSync us \<and> ts = removeAll t us)"
  by (cases p) auto

lemma contrib_nonneg: "0 \<le> contrib p"
  by (cases p) auto

lemma inv_count_writers_pos:
  assumes "inv_count_writers s" "t < length (pcs s)" "is_writer (pcs s ! t)"
  shows "0 < writers_cnt s"
proof -
  have "of_bool (is_writer (pcs s ! t)) \<le> sum_list (map (\<lambda>p. of_bool (is_writer p) :: int) (pcs s))"
    using assms(2) by (intro sum_list_map_ge_elem) auto
  with assms show ?thesis by (simp add: inv_count_writers_def)
qed

lemma length_pcs [simp]:
  "length (pcs (goto t p s)) = length (pcs s)" "length (pcs (leave_section t p s)) = length (pcs s)"
  by (simp_all add: goto_def leave_section_def)

lemma fields_goto [simp]:
  "highway_cnt (goto t p s) = highway_cnt s" "lowway_cnt (goto t p s) = lowway_cnt s"
  "writers_cnt (goto t p s) = writers_cnt s" "sem_readers (goto t p s) = sem_readers s"
  "sem_writer (goto t p s) = sem_writer s" "pcs (goto t p s) = (pcs s)[t := p]"
  by (simp_all add: goto_def)

lemma fields_leave [simp]:
  "highway_cnt (leave_section t p s) = highway_cnt s" "lowway_cnt (leave_section t p s) = lowway_cnt s"
  "writers_cnt (leave_section t p s) = writers_cnt s" "sem_readers (leave_section t p s) = sem_readers s"
  "sem_writer (leave_section t p s) = sem_writer s"
  "pcs (leave_section t p s) = map (quiesce t) ((pcs s)[t := p])"
  by (simp_all add: leave_section_def)

lemma fields_this_cpu_add [simp]:
  "pcs (this_cpu_add c v s) = pcs s" "lowway_cnt (this_cpu_add c v s) = lowway_cnt s"
  "writers_cnt (this_cpu_add c v s) = writers_cnt s" "sem_readers (this_cpu_add c v s) = sem_readers s"
  "sem_writer (this_cpu_add c v s) = sem_writer s"
  "highway_cnt (this_cpu_add c v s) = (highway_cnt s)[c := highway_cnt s ! c + v]"
  by (simp_all add: this_cpu_add_def)

lemma step_count_writers: "rps_step s s' \<Longrightarrow> inv_count_writers s \<Longrightarrow> inv_count_writers s'"
  by (induction rule: rps_step.induct)
    (simp_all add: inv_count_writers_def sum_list_map_update o_def)

lemma quiesce_Hw [simp]:
  "quiesce t p = HwAdd c \<longleftrightarrow> p = HwAdd c" "quiesce t p = HwSub c \<longleftrightarrow> p = HwSub c"
  by (cases p; simp)+

lemma step_cpus: "rps_step s s' \<Longrightarrow> inv_cpus s \<Longrightarrow> inv_cpus s'"
  by (induction rule: rps_step.induct) (auto simp: inv_cpus_def nth_list_update split: if_splits)

lemma in_section_threads: "t < length ps \<Longrightarrow> in_section (ps ! t) \<Longrightarrow> t \<in> set (section_threads ps)"
  by (simp add: section_threads_def)

text \<open>
  While a writer is announced nobody enters a section, so the threads a grace period waits
  for are all the threads inside one; after it there are none.
\<close>

lemma sections_goto:
  assumes "inv_sections s" "t < length (pcs s)"
    and "in_section p \<longrightarrow> (\<forall>w < length (pcs s). \<not> is_writer (pcs s ! w))" "in_section p \<longrightarrow> \<not> is_writer p"
    and "synced p \<longrightarrow> synced (pcs s ! t) \<or> pcs s ! t = WSync []"
    and "\<forall>ts. p = WSync ts \<longrightarrow> ts = section_threads (pcs s)"
    and "pcs s' = (pcs s)[t := p]"
  shows "inv_sections s'"
  unfolding inv_sections_def
proof (intro allI impI)
  fix w u
  assume w: "w < length (pcs s')" and u: "u < length (pcs s')" and sec: "in_section (pcs s' ! u)"
  have W: "w < length (pcs s)" and U: "u < length (pcs s)" using w u assms(7) by simp_all
  have inv: "\<not> synced (pcs s ! x) \<and> (\<forall>ts. pcs s ! x = WSync ts \<longrightarrow> y \<in> set ts)"
    if "x < length (pcs s)" "y < length (pcs s)" "in_section (pcs s ! y)" for x y
    using assms(1) that by (auto simp: inv_sections_def)
  show "\<not> synced (pcs s' ! w) \<and> (\<forall>ts. pcs s' ! w = WSync ts \<longrightarrow> u \<in> set ts)"
  proof (cases "u = t")
    case True
    then have "in_section p" using sec assms(2,7) by simp
    then have "\<not> is_writer (pcs s' ! w)"
      using assms(3,4,7) W by (cases "w = t") auto
    then show ?thesis by (auto simp: synced_def)
  next
    case False
    then have old: "in_section (pcs s ! u)" using sec assms(7) by simp
    show ?thesis
    proof (cases "w = t")
      case True
      with inv [OF assms(2) U old] assms(2,5,6,7) in_section_threads [OF U old] show ?thesis
        by auto
    next
      case False
      with inv [OF W U old] assms(7) show ?thesis by simp
    qed
  qed
qed

lemma sections_leave:
  assumes "inv_sections s" "t < length (pcs s)" "\<not> in_section p" "\<not> is_writer p"
    and "pcs s' = map (quiesce t) ((pcs s)[t := p])"
  shows "inv_sections s'"
  unfolding inv_sections_def
proof (intro allI impI)
  fix w u
  assume w: "w < length (pcs s')" and u: "u < length (pcs s')" and sec: "in_section (pcs s' ! u)"
  have W: "w < length (pcs s)" and U: "u < length (pcs s)" using w u assms(5) by simp_all
  have ne: "u \<noteq> t" and old: "in_section (pcs s ! u)"
    using sec assms(2,3,5) U by (auto simp: nth_list_update split: if_splits)
  have inv: "\<not> synced (pcs s ! w) \<and> (\<forall>ts. pcs s ! w = WSync ts \<longrightarrow> u \<in> set ts)"
    using assms(1) W U old by (auto simp: inv_sections_def)
  show "\<not> synced (pcs s' ! w) \<and> (\<forall>ts. pcs s' ! w = WSync ts \<longrightarrow> u \<in> set ts)"
  proof (cases "w = t")
    case True
    then have "\<not> is_writer (pcs s' ! w)" using assms(2,4,5) by simp
    then show ?thesis by (auto simp: synced_def)
  next
    case False
    with inv ne W assms(5) show ?thesis by (auto simp: quiesce_WSync)
  qed
qed

lemma no_writers:
  assumes "inv_count_writers s" "writers_cnt s = 0"
  shows "\<forall>w < length (pcs s). \<not> is_writer (pcs s ! w)"
  using inv_count_writers_pos [OF assms(1)] assms(2) by fastforce

lemma step_sections: "rps_step s s' \<Longrightarrow> inv_count_writers s \<Longrightarrow> inv_sections s \<Longrightarrow> inv_sections s'"
proof (induction rule: rps_step.induct)
  case (down_read_fast t s c)
  then show ?case
    using no_writers [of s] by - (rule sections_goto [of s t "HwAdd c"], simp_all add: synced_def)
next
  case (up_read_fast t s c)
  then show ?case
    using no_writers [of s] by - (rule sections_goto [of s t "HwSub c"], simp_all add: synced_def)
next
  case (highway_add t s c)
  then show ?case by - (rule sections_leave [of s t Reading], simp_all)
next
  case (highway_sub t s c)
  then show ?case by - (rule sections_leave [of s t Idle], simp_all)
qed (erule (1) sections_goto; simp add: synced_def)+

subsection \<open>Who holds the inner semaphore\<close>

lemma sem_cases:
  assumes "inv_sem s" "t < length (pcs s)" "sem_writer s = Some w" "w \<noteq> t"
  shows "\<not> holds_write (pcs s ! t)" "\<not> holds_read (pcs s ! t)"
  using assms by (auto simp: inv_sem_def)

lemma step_sem: "rps_step s s' \<Longrightarrow> inv_sem s \<Longrightarrow> inv_sem s'"
proof (induction rule: rps_step.induct)
  case (highway_add t s c)
  then show ?case by (auto simp: inv_sem_def nth_list_update holds_read_def split: if_splits)
next
  case (highway_sub t s c)
  then show ?case by (auto simp: inv_sem_def nth_list_update holds_read_def split: if_splits)
next
  case (lowway_up t s)
  have "sem_writer s = None"
    using lowway_up by (cases "sem_writer s") (auto simp: inv_sem_def holds_read_def)
  with lowway_up show ?case by (auto simp: inv_sem_def nth_list_update holds_read_def)
next
  case (up_write_unlock t s)
  have "sem_writer s = Some t" using up_write_unlock by (auto simp: inv_sem_def)
  with up_write_unlock show ?case by (auto simp: inv_sem_def nth_list_update holds_read_def)
qed (auto simp: inv_sem_def nth_list_update holds_read_def split: if_splits)

subsection \<open>The counters account for every reader\<close>

lemma sum_pending_cong:
  assumes "\<And>t cs n. t < length ps \<Longrightarrow> ps ! t \<noteq> WZero cs n"
  shows "sum_list (map (pending hs) ps) = sum_list (map (pending hs') ps)"
proof -
  have "pending hs p = pending hs' p" if "p \<in> set ps" for p
  proof -
    from that obtain t where "t < length ps" "ps ! t = p" by (auto simp: in_set_conv_nth)
    with assms have "\<And>cs n. p \<noteq> WZero cs n" by blast
    then show ?thesis by (cases p) auto
  qed
  then show ?thesis by (metis map_cong)
qed

lemma section_no_clearing:
  assumes "inv_sections s" "t < length (pcs s)" "in_section (pcs s ! t)" "u < length (pcs s)"
  shows "pcs s ! u \<noteq> WZero cs n" "uncleared (pcs s ! u) = None" "pcs s ! u \<noteq> Writing"
proof -
  have "\<not> synced (pcs s ! u)" using assms by (auto simp: inv_sections_def)
  then show "pcs s ! u \<noteq> WZero cs n" "uncleared (pcs s ! u) = None" "pcs s ! u \<noteq> Writing"
    by (cases "pcs s ! u"; auto simp: synced_def)+
qed

lemma total_this_cpu_add:
  assumes "inv_sections s" "inv_cpus s" "t < length (pcs s)" "pcs s ! t = HwAdd c \<or> pcs s ! t = HwSub c"
  shows "sum_list (highway_cnt (this_cpu_add c v s)) = sum_list (highway_cnt s) + v"
    and "sum_list (map (pending (highway_cnt (this_cpu_add c v s))) (pcs s))
           = sum_list (map (pending (highway_cnt s)) (pcs s))"
proof -
  have "c < length (highway_cnt s)" using assms(2-4) by (auto simp: inv_cpus_def)
  then show "sum_list (highway_cnt (this_cpu_add c v s)) = sum_list (highway_cnt s) + v"
    using sum_list_map_update [of c "highway_cnt s" "\<lambda>x. x" "highway_cnt s ! c + v"] by simp
  have "in_section (pcs s ! t)" using assms(4) by auto
  then show "sum_list (map (pending (highway_cnt (this_cpu_add c v s))) (pcs s))
      = sum_list (map (pending (highway_cnt s)) (pcs s))"
    using section_no_clearing(1) [OF assms(1,3)] by (intro sum_pending_cong) auto
qed

lemma step_total:
  "rps_step s s' \<Longrightarrow> inv_sections s \<Longrightarrow> inv_cpus s \<Longrightarrow> inv_sem s \<Longrightarrow> inv_cleared s \<Longrightarrow>
     inv_total s \<Longrightarrow> inv_total s'"
proof (induction rule: rps_step.induct)
  case (highway_add t s c)
  then show ?case
    using total_this_cpu_add [of s t c 1]
    by (simp add: inv_total_def sum_list_map_update o_def)
next
  case (highway_sub t s c)
  then show ?case
    using total_this_cpu_add [of s t c "- 1"]
    by (simp add: inv_total_def sum_list_map_update o_def)
next
  case (clear_zero t s c cs n)
  have c: "c < length (highway_cnt s)"
    using clear_zero by (fastforce simp: inv_cleared_def)
  let ?ps = "(pcs s)[t := WRead cs n]"
  have own: "sem_writer s = Some t" using clear_zero by (auto simp: inv_sem_def)
  have "?ps ! u \<noteq> WZero ds m" if "u < length ?ps" for u ds m
    using that clear_zero(1) sem_cases(1) [OF clear_zero(5) _ own, of u] by (cases "u = t") auto
  then have "sum_list (map (pending ((highway_cnt s)[c := 0])) ?ps) = sum_list (map (pending (highway_cnt s)) ?ps)"
    by (intro sum_pending_cong) auto
  moreover have "sum_list ((highway_cnt s)[c := 0]) = sum_list (highway_cnt s) - highway_cnt s ! c"
    using sum_list_map_update [OF c, of "\<lambda>x. x" 0] by simp
  ultimately show ?case
    using clear_zero by (simp add: inv_total_def sum_list_map_update)
qed (simp_all add: inv_total_def sum_list_map_update)

lemma holder_unique:
  assumes "inv_sem s" "t < length (pcs s)" "u < length (pcs s)"
    and "holds_write (pcs s ! t)" "holds_write (pcs s ! u)"
  shows "t = u"
  using assms by (auto simp: inv_sem_def)

lemma uncleared_holds: "uncleared p = Some cs \<Longrightarrow> holds_write p"
  by (cases p) auto

text \<open>Only the thread that holds the semaphore for writing has CPUs left to clear.\<close>

lemma inv_clearedD:
  assumes "inv_cleared s" "w < length (pcs s)" "uncleared (pcs s ! w) = Some cs"
  shows "set cs \<subseteq> {..< length (highway_cnt s)}"
    and "c < length (highway_cnt s) \<Longrightarrow> c \<notin> set cs \<Longrightarrow> highway_cnt s ! c = 0"
  using assms by (auto simp: inv_cleared_def)

lemma cleared_goto:
  assumes "inv_cleared s" "inv_sem s" "t < length (pcs s)"
    and "pcs s' = (pcs s)[t := p]" "highway_cnt s' = highway_cnt s"
    and "uncleared p \<noteq> None \<longrightarrow> uncleared p = uncleared (pcs s ! t) \<or>
           uncleared p = Some [0..<length (highway_cnt s)]"
  shows "inv_cleared s'"
  unfolding inv_cleared_def
proof (intro allI impI)
  fix w cs
  assume w: "w < length (pcs s')" and un: "uncleared (pcs s' ! w) = Some cs"
  have old: "uncleared (pcs s ! w) = Some cs \<Longrightarrow> set cs \<subseteq> {..< length (highway_cnt s)} \<and>
     (\<forall>c < length (highway_cnt s). c \<notin> set cs \<longrightarrow> highway_cnt s ! c = 0)"
    using assms(1,4) w by (auto simp: inv_cleared_def)
  show "set cs \<subseteq> {..< length (highway_cnt s')} \<and>
     (\<forall>c < length (highway_cnt s'). c \<notin> set cs \<longrightarrow> highway_cnt s' ! c = 0)"
  proof (cases "w = t")
    case True
    with un assms(3,4) have "uncleared p = Some cs" by simp
    with assms(6) True old assms(5) show ?thesis by auto
  next
    case False
    with un assms(4,5) old show ?thesis by simp
  qed
qed

lemma step_cleared:
  "rps_step s s' \<Longrightarrow> inv_sections s \<Longrightarrow> inv_sem s \<Longrightarrow> inv_cleared s \<Longrightarrow> inv_cleared s'"
proof (induction rule: rps_step.induct)
  case (highway_add t s c)
  then show ?case
    using section_no_clearing(2) [of s t] by (auto simp: inv_cleared_def nth_list_update)
next
  case (highway_sub t s c)
  then show ?case
    using section_no_clearing(2) [of s t] by (auto simp: inv_cleared_def nth_list_update)
next
  case (clear_zero t s c cs n)
  have old: "set (c # cs) \<subseteq> {..< length (highway_cnt s)}"
    "\<forall>d < length (highway_cnt s). d \<notin> set (c # cs) \<longrightarrow> highway_cnt s ! d = 0"
    using inv_clearedD [OF clear_zero(5,1), of "c # cs"] clear_zero(2) by simp_all
  show ?case
    unfolding inv_cleared_def
  proof (intro allI impI)
    fix w ds
    let ?s = "goto t (WRead cs n) (s\<lparr>highway_cnt := (highway_cnt s)[c := 0]\<rparr>)"
    assume w: "w < length (pcs ?s)" and un: "uncleared (pcs ?s ! w) = Some ds"
    have "w = t"
      using holder_unique [OF clear_zero(4,1), of w] w un clear_zero(2) uncleared_holds
      by (cases "w = t") auto
    then have "ds = cs" using un clear_zero(1) by simp
    with old show "set ds \<subseteq> {..< length (highway_cnt ?s)} \<and>
      (\<forall>c < length (highway_cnt ?s). c \<notin> set ds \<longrightarrow> highway_cnt ?s ! c = 0)"
      by (auto simp: nth_list_update)
  qed
qed (rule cleared_goto, assumption, assumption, assumption, simp, simp, simp)+

subsection \<open>A writer inside excludes every reader\<close>

lemma writing_no_contrib:
  assumes "inv_sem s" "inv_total s" "inv_cleared s" "inv_drained s"
    and "w < length (pcs s)" "pcs s ! w = Writing" "t < length (pcs s)"
  shows "contrib (pcs s ! t) = 0"
proof -
  have "highway_cnt s ! c = 0" if "c < length (highway_cnt s)" for c
    using inv_clearedD(2) [OF assms(3,5), of "[]" c] assms(6) that by simp
  then have "sum_list (highway_cnt s) = 0"
    using sum_list_map_zero [of "highway_cnt s" "\<lambda>x. x"] by simp
  moreover have "pending (highway_cnt s) (pcs s ! u) = 0" if "u < length (pcs s)" for u
    using holder_unique [OF assms(1,5) that] assms(6) by (cases "pcs s ! u") auto
  then have "sum_list (map (pending (highway_cnt s)) (pcs s)) = 0"
    by (rule sum_list_map_zero)
  moreover have "lowway_cnt s = 0" using assms(4-6) by (auto simp: inv_drained_def)
  ultimately have "sum_list (map contrib (pcs s)) = 0" using assms(2) by (simp add: inv_total_def)
  with sum_list_map_ge_elem [of contrib t "pcs s"] contrib_nonneg assms(7)
  have "contrib (pcs s ! t) \<le> 0" by simp
  with contrib_nonneg [of "pcs s ! t"] show ?thesis by simp
qed

lemma step_drained:
  "rps_step s s' \<Longrightarrow> inv_sections s \<Longrightarrow> inv_sem s \<Longrightarrow> inv_total s \<Longrightarrow> inv_cleared s \<Longrightarrow>
     inv_drained s \<Longrightarrow> inv_drained s'"
proof (induction rule: rps_step.induct)
  case (lowway_dec t s)
  then have "pcs s ! w \<noteq> Writing" if "w < length (pcs s)" for w
    using writing_no_contrib [of s w t] that by auto
  with lowway_dec show ?case by (auto simp: inv_drained_def nth_list_update)
next
  case (lowway_inc t s)
  then have "sem_writer s = None" by (auto simp: inv_sem_def holds_read_def)
  with lowway_inc have "pcs s ! w \<noteq> Writing" if "w < length (pcs s)" for w
    using that by (auto simp: inv_sem_def)
  with lowway_inc show ?case by (auto simp: inv_drained_def nth_list_update)
next
  case (down_write_add t s n)
  then have "pcs s ! w \<noteq> Writing" if "w < length (pcs s)" for w
    using holder_unique [of s t w] that by auto
  with down_write_add show ?case by (auto simp: inv_drained_def nth_list_update)
qed (auto simp: inv_drained_def nth_list_update split: if_splits)

lemma rps_inv_step: "rps_step s s' \<Longrightarrow> rps_inv s \<Longrightarrow> rps_inv s'"
  unfolding rps_inv_def
  using step_cpus step_count_writers step_sections step_sem step_total step_cleared step_drained
  by (intro conjI) blast+

lemma rps_inv_start: "rps_start ncpus nthreads s \<Longrightarrow> rps_inv s"
  by (auto simp: rps_start_def rps_init_rwsem_def rps_inv_def inv_cpus_def inv_count_writers_def
      inv_sections_def inv_sem_def inv_total_def inv_cleared_def inv_drained_def holds_read_def
      sum_list_replicate map_replicate_const)

interpretation rps: state_machine "rps_start ncpus nthreads" rps_step rps_inv
  by unfold_locales (auto intro: rps_inv_start rps_inv_step)

lemma rps_reachable_inv: "rps_reachable ncpus nthreads s \<Longrightarrow> rps_inv s"
  unfolding rps_reachable_def using rps.invar_reachable by blast

lemma rps_reachable_step: "rps_reachable ncpus nthreads s \<Longrightarrow> rps_step s s' \<Longrightarrow> rps_reachable ncpus nthreads s'"
  unfolding rps_reachable_def by (meson rtranclp.rtrancl_into_rtrancl)

text \<open>
  C1: in every reachable state of any number of threads on any number of CPUs, while one
  thread is inside the write-side section no other thread is inside a read-side or a
  write-side section.
\<close>
theorem rps_exclusion:
  assumes "rps_reachable ncpus nthreads s"
    and "w < length (pcs s)" "pcs s ! w = Writing" "t < length (pcs s)" "t \<noteq> w"
  shows "pcs s ! t \<noteq> Reading \<and> pcs s ! t \<noteq> Writing"
proof -
  from assms(1) have inv: "rps_inv s" by (rule rps_reachable_inv)
  then have "contrib (pcs s ! t) = 0"
    using assms(2-4) by (intro writing_no_contrib) (simp_all add: rps_inv_def)
  moreover have "pcs s ! t \<noteq> Writing"
    using holder_unique [of s t w] inv assms(2-5) by (auto simp: rps_inv_def)
  ultimately show ?thesis by auto
qed

text \<open>
  In every reachable state in which no writer is moving counts, the per-CPU counters
  and the shared counter together hold exactly the number of threads that have been counted
  in and not yet out, wherever each of them was counted.
\<close>
theorem rps_counters_balance:
  assumes "rps_reachable ncpus nthreads s" "\<forall>p \<in> set (pcs s). pending (highway_cnt s) p = 0"
  shows "sum_list (highway_cnt s) + lowway_cnt s =
    int (length (filter (\<lambda>p. contrib p = 1) (pcs s)))"
proof -
  have "contrib p = 1 \<or> contrib p = 0" for p by (cases p) auto
  then have "sum_list (map contrib ps) = int (length (filter (\<lambda>p. contrib p = 1) ps))" for ps
    by (induction ps) fastforce+
  moreover have "inv_total s" using rps_reachable_inv [OF assms(1)] by (simp add: rps_inv_def)
  moreover have "sum_list (map (pending (highway_cnt s)) (pcs s)) = 0"
    using assms(2) by (intro sum_list_map_zero) auto
  ultimately show ?thesis by (simp add: inv_total_def)
qed

subsection \<open>A run that reaches the write-side section\<close>

definition writer_at :: "pc \<Rightarrow> int \<Rightarrow> nat option \<Rightarrow> rps" where
  "writer_at p n w = \<lparr>highway_cnt = [0], lowway_cnt = 0, writers_cnt = n, sem_readers = [],
     sem_writer = w, pcs = [p, Idle]\<rparr>"

lemma writer_at_goto: "goto 0 q (writer_at p n w) = writer_at q n w"
  by (simp add: writer_at_def goto_def)

lemma writer_run: "rps_reachable 1 2 (writer_at Writing 1 (Some 0))"
proof -
  note step = rps_reachable_step [where ncpus = 1 and nthreads = 2]
  have start: "rps_reachable 1 2 (writer_at Idle 0 None)"
    by (auto simp: rps_reachable_def rps_start_def rps_init_rwsem_def writer_at_def numeral_2_eq_2)
  have "rps_step (writer_at Idle 0 None) (writer_at (WSync []) 1 None)"
    using down_write_announce [of 0 "writer_at Idle 0 None"]
    by (simp add: writer_at_def goto_def section_threads_def)
  with start have "rps_reachable 1 2 (writer_at (WSync []) 1 None)" by (rule step)
  moreover have "rps_step (writer_at (WSync []) 1 None) (writer_at WLock 1 None)"
    using down_write_synced [of 0 "writer_at (WSync []) 1 None"] by (simp add: writer_at_def goto_def)
  ultimately have "rps_reachable 1 2 (writer_at WLock 1 None)" by (rule step)
  moreover have "rps_step (writer_at WLock 1 None) (writer_at (WRead [0] 0) 1 (Some 0))"
    using down_write_lock [of 0 "writer_at WLock 1 None"] by (simp add: writer_at_def goto_def)
  ultimately have "rps_reachable 1 2 (writer_at (WRead [0] 0) 1 (Some 0))" by (rule step)
  moreover have "rps_step (writer_at (WRead [0] 0) 1 (Some 0)) (writer_at (WZero [0] 0) 1 (Some 0))"
    using clear_read [of 0 "writer_at (WRead [0] 0) 1 (Some 0)" 0 "[]" 0] by (simp add: writer_at_def goto_def)
  ultimately have "rps_reachable 1 2 (writer_at (WZero [0] 0) 1 (Some 0))" by (rule step)
  moreover have "rps_step (writer_at (WZero [0] 0) 1 (Some 0)) (writer_at (WRead [] 0) 1 (Some 0))"
    using clear_zero [of 0 "writer_at (WZero [0] 0) 1 (Some 0)" 0 "[]" 0] by (simp add: writer_at_def goto_def)
  ultimately have "rps_reachable 1 2 (writer_at (WRead [] 0) 1 (Some 0))" by (rule step)
  moreover have "rps_step (writer_at (WRead [] 0) 1 (Some 0)) (writer_at (WAdd 0) 1 (Some 0))"
    using clear_done [of 0 "writer_at (WRead [] 0) 1 (Some 0)" 0] by (simp add: writer_at_def goto_def)
  ultimately have "rps_reachable 1 2 (writer_at (WAdd 0) 1 (Some 0))" by (rule step)
  moreover have "rps_step (writer_at (WAdd 0) 1 (Some 0)) (writer_at WWait 1 (Some 0))"
    using down_write_add [of 0 "writer_at (WAdd 0) 1 (Some 0)" 0] by (simp add: writer_at_def goto_def)
  ultimately have "rps_reachable 1 2 (writer_at WWait 1 (Some 0))" by (rule step)
  moreover have "rps_step (writer_at WWait 1 (Some 0)) (writer_at Writing 1 (Some 0))"
    using down_write_enter [of 0 "writer_at WWait 1 (Some 0)"] by (simp add: writer_at_def goto_def)
  ultimately show ?thesis by (rule step)
qed

theorem rps_exclusion_witness:
  "pcs (writer_at Writing 1 (Some 0)) ! 1 \<noteq> Reading \<and> pcs (writer_at Writing 1 (Some 0)) ! 1 \<noteq> Writing"
  using rps_exclusion [OF writer_run, of 0 1] by (simp add: writer_at_def)

theorem rps_counters_balance_witness:
  "sum_list (highway_cnt (writer_at Writing 1 (Some 0))) + lowway_cnt (writer_at Writing 1 (Some 0)) =
    int (length (filter (\<lambda>p. contrib p = 1) (pcs (writer_at Writing 1 (Some 0)))))"
  using rps_counters_balance [OF writer_run] by (simp add: writer_at_def)

end
