(* ===== verification/Bitops.thy ===== *)
theory Bitops
  imports Max_Prelude
begin

section \<open>Byte bitmaps of the file system and of the disk tools\<close>

text \<open>
  The on-disk validity maps are arrays of bytes. The file system addresses bit \<open>nr\<close> from
  the most significant end of its byte (\<open>f2fs_test_bit\<close> and its kin in \<open>Max/f2fs.h\<close>);
  the disk tools also use the little-endian order (\<open>test_bit_le\<close> and its kin in
  \<open>disk-tools/lib/libf2fs.c\<close>). Both are shown to implement \<open>bitmap_ops\<close>. The
  byte-at-a-time search of the disk tools is shown equal to the reference search, and the
  bit-at-a-time search of \<open>segment.c\<close> equal to it as long as it stops inside the memory
  it may read.
\<close>

type_synonym bytemap = "u8 list"

subsection \<open>Most significant bit first (\<open>Max/f2fs.h\<close>)\<close>

definition f2fs_mask :: "nat \<Rightarrow> u8" where
  "f2fs_mask nr = push_bit (7 - nr mod 8) 1"

definition f2fs_test_bit :: "nat \<Rightarrow> bytemap \<Rightarrow> bool" where
  "f2fs_test_bit nr addr = (f2fs_mask nr AND addr ! (nr div 8) \<noteq> 0)"

definition f2fs_set_bit :: "nat \<Rightarrow> bytemap \<Rightarrow> bytemap" where
  "f2fs_set_bit nr addr = addr[nr div 8 := addr ! (nr div 8) OR f2fs_mask nr]"

definition f2fs_clear_bit :: "nat \<Rightarrow> bytemap \<Rightarrow> bytemap" where
  "f2fs_clear_bit nr addr = addr[nr div 8 := addr ! (nr div 8) AND NOT (f2fs_mask nr)]"

definition f2fs_test_and_set_bit :: "nat \<Rightarrow> bytemap \<Rightarrow> bool \<times> bytemap" where
  "f2fs_test_and_set_bit nr addr =
     (f2fs_mask nr AND addr ! (nr div 8) \<noteq> 0,
      addr[nr div 8 := addr ! (nr div 8) OR f2fs_mask nr])"

definition f2fs_test_and_clear_bit :: "nat \<Rightarrow> bytemap \<Rightarrow> bool \<times> bytemap" where
  "f2fs_test_and_clear_bit nr addr =
     (f2fs_mask nr AND addr ! (nr div 8) \<noteq> 0,
      addr[nr div 8 := addr ! (nr div 8) AND NOT (f2fs_mask nr)])"

definition f2fs_change_bit :: "nat \<Rightarrow> bytemap \<Rightarrow> bytemap" where
  "f2fs_change_bit nr addr = addr[nr div 8 := addr ! (nr div 8) XOR f2fs_mask nr]"

subsection \<open>Least significant bit first (\<open>disk-tools/lib/libf2fs.c\<close>)\<close>

definition mask_le :: "nat \<Rightarrow> u8" where
  "mask_le nr = push_bit (nr mod 8) 1"

definition test_bit_le :: "nat \<Rightarrow> bytemap \<Rightarrow> bool" where
  "test_bit_le nr addr = (mask_le nr AND addr ! (nr div 8) \<noteq> 0)"

definition test_and_set_bit_le :: "nat \<Rightarrow> bytemap \<Rightarrow> bool \<times> bytemap" where
  "test_and_set_bit_le nr addr =
     (mask_le nr AND addr ! (nr div 8) \<noteq> 0,
      addr[nr div 8 := addr ! (nr div 8) OR mask_le nr])"

definition test_and_clear_bit_le :: "nat \<Rightarrow> bytemap \<Rightarrow> bool \<times> bytemap" where
  "test_and_clear_bit_le nr addr =
     (mask_le nr AND addr ! (nr div 8) \<noteq> 0,
      addr[nr div 8 := addr ! (nr div 8) AND NOT (mask_le nr)])"

text \<open>The lookup table \<open>bits_in_byte\<close> and its accessor.\<close>

definition bits_in_byte :: "nat list" where
  "bits_in_byte =
    [0, 1, 1, 2, 1, 2, 2, 3, 1, 2, 2, 3, 2, 3, 3, 4,
     1, 2, 2, 3, 2, 3, 3, 4, 2, 3, 3, 4, 3, 4, 4, 5,
     1, 2, 2, 3, 2, 3, 3, 4, 2, 3, 3, 4, 3, 4, 4, 5,
     2, 3, 3, 4, 3, 4, 4, 5, 3, 4, 4, 5, 4, 5, 5, 6,
     1, 2, 2, 3, 2, 3, 3, 4, 2, 3, 3, 4, 3, 4, 4, 5,
     2, 3, 3, 4, 3, 4, 4, 5, 3, 4, 4, 5, 4, 5, 5, 6,
     2, 3, 3, 4, 3, 4, 4, 5, 3, 4, 4, 5, 4, 5, 5, 6,
     3, 4, 4, 5, 4, 5, 5, 6, 4, 5, 5, 6, 5, 6, 6, 7,
     1, 2, 2, 3, 2, 3, 3, 4, 2, 3, 3, 4, 3, 4, 4, 5,
     2, 3, 3, 4, 3, 4, 4, 5, 3, 4, 4, 5, 4, 5, 5, 6,
     2, 3, 3, 4, 3, 4, 4, 5, 3, 4, 4, 5, 4, 5, 5, 6,
     3, 4, 4, 5, 4, 5, 5, 6, 4, 5, 5, 6, 5, 6, 6, 7,
     2, 3, 3, 4, 3, 4, 4, 5, 3, 4, 4, 5, 4, 5, 5, 6,
     3, 4, 4, 5, 4, 5, 5, 6, 4, 5, 5, 6, 5, 6, 6, 7,
     3, 4, 4, 5, 4, 5, 5, 6, 4, 5, 5, 6, 5, 6, 6, 7,
     4, 5, 5, 6, 5, 6, 6, 7, 5, 6, 6, 7, 6, 7, 7, 8]"

definition get_bits_in_byte :: "u8 \<Rightarrow> nat" where
  "get_bits_in_byte n = bits_in_byte ! unat n"

text \<open>\<open>__ffs\<close>: the index of the least set bit of a byte by halving.\<close>

definition ffs8 :: "u8 \<Rightarrow> nat" where
  "ffs8 word =
     (let (num, word) = (if word AND 0xf = 0 then (4, drop_bit 4 word) else (0, word));
          (num, word) = (if word AND 0x3 = 0 then (num + 2, drop_bit 2 word) else (num, word))
      in if word AND 0x1 = 0 then num + 1 else num)"

text \<open>
  \<open>_find_next_bit_le\<close>: the first byte is masked below \<open>start\<close>, then whole bytes are
  skipped while they are zero. \<open>invert\<close> is 0 for the search of a set bit and 0xff for
  the search of a clear bit. \<open>find_le_loop\<close> is the \<open>while (!tmp)\<close> loop.
\<close>

function find_le_loop :: "bytemap \<Rightarrow> nat \<Rightarrow> nat \<Rightarrow> u8 \<Rightarrow> u8 \<Rightarrow> nat" where
  "find_le_loop addr nbits start invert tmp =
     (if tmp = 0
      then (let start' = start + 8
            in if start' \<ge> nbits then nbits
               else find_le_loop addr nbits start' invert (addr ! (start' div 8) XOR invert))
      else min (start + ffs8 tmp) nbits)"
  by pat_completeness auto
termination
  by (relation "measure (\<lambda>(addr, nbits, start, invert, tmp). nbits - start)") auto

definition find_next_bit_le_gen :: "bytemap \<Rightarrow> nat \<Rightarrow> nat \<Rightarrow> u8 \<Rightarrow> nat" where
  "find_next_bit_le_gen addr nbits start invert =
     (if nbits = 0 \<or> start \<ge> nbits then nbits
      else let tmp = addr ! (start div 8) XOR invert;
               tmp = tmp AND push_bit (start mod 8) 0xff
           in find_le_loop addr nbits (start div 8 * 8) invert tmp)"

definition find_next_bit_le :: "bytemap \<Rightarrow> nat \<Rightarrow> nat \<Rightarrow> nat" where
  "find_next_bit_le addr sz offset = find_next_bit_le_gen addr sz offset 0"

definition find_next_zero_bit_le :: "bytemap \<Rightarrow> nat \<Rightarrow> nat \<Rightarrow> nat" where
  "find_next_zero_bit_le addr sz offset = find_next_bit_le_gen addr sz offset 0xff"

subsection \<open>The searches of \<open>segment.c\<close>\<close>

text \<open>
  \<open>__find_rev_next_bit\<close> and \<open>__find_rev_next_zero_bit\<close> step one bit at a time with no
  bound and clamp the result to \<open>size\<close> afterwards. The list is the map together with
  whatever memory follows it; a scan that runs off the end of that memory is \<open>None\<close>.
\<close>

function rev_scan :: "bool \<Rightarrow> bytemap \<Rightarrow> nat \<Rightarrow> nat option" where
  "rev_scan b addr offset =
     (if offset < 8 * length addr
      then (if f2fs_test_bit offset addr = b then Some offset
            else rev_scan b addr (Suc offset))
      else None)"
  by pat_completeness auto
termination
  by (relation "measure (\<lambda>(b, addr, offset). 8 * length addr - offset)") auto

definition find_rev_next_bit :: "bytemap \<Rightarrow> nat \<Rightarrow> nat \<Rightarrow> nat option" where
  "find_rev_next_bit addr sz offset =
     (case rev_scan True addr offset of
        None \<Rightarrow> None
      | Some offset' \<Rightarrow> Some (if offset' > sz then sz else offset'))"

definition find_rev_next_zero_bit :: "bytemap \<Rightarrow> nat \<Rightarrow> nat \<Rightarrow> nat option" where
  "find_rev_next_zero_bit addr sz offset =
     (case rev_scan False addr offset of
        None \<Rightarrow> None
      | Some offset' \<Rightarrow> Some (if offset' > sz then sz else offset'))"

declare find_le_loop.simps [simp del] rev_scan.simps [simp del]

subsection \<open>Masks and bits\<close>

lemma bit_f2fs_mask: "bit (f2fs_mask nr) k \<longleftrightarrow> k = 7 - nr mod 8"
  by (auto simp: f2fs_mask_def bit_simps)

lemma bit_mask_le: "bit (mask_le nr) k \<longleftrightarrow> k = nr mod 8"
proof -
  have "nr mod 8 < 8" by simp
  then show ?thesis by (auto simp: mask_le_def bit_simps)
qed

lemma and_single_bit_ne_0:
  fixes m w :: u8
  assumes "\<And>k. bit m k \<longleftrightarrow> k = n"
  shows "m AND w \<noteq> 0 \<longleftrightarrow> bit w n"
proof
  assume "m AND w \<noteq> 0"
  then obtain k where "bit (m AND w) k"
    using bit_eq_iff [of "m AND w" 0] by (auto simp only: bit_0_eq bot_apply bot_bool_def)
  with assms show "bit w n" by (auto simp: bit_simps)
next
  assume "bit w n"
  with assms have "bit (m AND w) n" by (simp add: bit_simps)
  then show "m AND w \<noteq> 0" by auto
qed

lemma f2fs_test_bit_bit: "f2fs_test_bit nr addr = bit (addr ! (nr div 8)) (7 - nr mod 8)"
  unfolding f2fs_test_bit_def by (rule and_single_bit_ne_0) (rule bit_f2fs_mask)

lemma test_bit_le_bit: "test_bit_le nr addr = bit (addr ! (nr div 8)) (nr mod 8)"
  unfolding test_bit_le_def by (rule and_single_bit_ne_0) (rule bit_mask_le)

lemma same_bit_position_le: "i div 8 = j div 8 \<Longrightarrow> (i mod 8 = j mod 8) = (i = (j::nat))"
  by (metis div_mult_mod_eq)

lemma same_bit_position:
  assumes "i div 8 = j div 8"
  shows "(7 - i mod 8 = 7 - j mod 8) = (i = (j::nat))"
proof -
  have "i mod 8 < 8" "j mod 8 < 8" by simp_all
  then have "(7 - i mod 8 = 7 - j mod 8) = (i mod 8 = j mod 8)" by linarith
  also have "\<dots> = (i = j)" using assms by (rule same_bit_position_le)
  finally show ?thesis .
qed

subsection \<open>Read-after-write laws\<close>

lemma length_f2fs_set_bit [simp]: "length (f2fs_set_bit i m) = length m"
  by (simp add: f2fs_set_bit_def)

lemma length_f2fs_clear_bit [simp]: "length (f2fs_clear_bit i m) = length m"
  by (simp add: f2fs_clear_bit_def)

lemma length_f2fs_change_bit [simp]: "length (f2fs_change_bit i m) = length m"
  by (simp add: f2fs_change_bit_def)

lemma div8_lt: "i < 8 * n \<Longrightarrow> i div 8 < (n::nat)"
  by (simp add: div_less_iff_less_mult mult.commute)

lemma bit_pos_lt: "7 - i mod 8 < (8::nat)"
  by simp

lemma f2fs_test_set_bit [bitmap_simps]:
  assumes "i < 8 * length m"
  shows "f2fs_test_bit j (f2fs_set_bit i m) = (j = i \<or> f2fs_test_bit j m)"
proof (cases "j div 8 = i div 8")
  case True
  with assms have "i div 8 < length m" by (simp add: div8_lt)
  then show ?thesis
    using True same_bit_position [OF True]
    by (auto simp: f2fs_test_bit_bit f2fs_set_bit_def bit_f2fs_mask bit_or_iff)
next
  case False
  then show ?thesis
    by (auto simp: f2fs_test_bit_bit f2fs_set_bit_def)
qed

lemma f2fs_test_clear_bit [bitmap_simps]:
  assumes "i < 8 * length m"
  shows "f2fs_test_bit j (f2fs_clear_bit i m) = (j \<noteq> i \<and> f2fs_test_bit j m)"
proof (cases "j div 8 = i div 8")
  case True
  with assms have "i div 8 < length m" by (simp add: div8_lt)
  then show ?thesis
    using True same_bit_position [OF True]
    by (auto simp: f2fs_test_bit_bit f2fs_clear_bit_def bit_f2fs_mask bit_and_iff bit_not_iff)
next
  case False
  then show ?thesis
    by (auto simp: f2fs_test_bit_bit f2fs_clear_bit_def)
qed

lemma f2fs_test_change_bit [bitmap_simps]:
  assumes "i < 8 * length m"
  shows "f2fs_test_bit j (f2fs_change_bit i m) = (if j = i then \<not> f2fs_test_bit j m else f2fs_test_bit j m)"
proof (cases "j div 8 = i div 8")
  case True
  with assms have "i div 8 < length m" by (simp add: div8_lt)
  then show ?thesis
    using True same_bit_position [OF True]
    by (auto simp: f2fs_test_bit_bit f2fs_change_bit_def bit_f2fs_mask bit_xor_iff)
next
  case False
  then show ?thesis
    by (auto simp: f2fs_test_bit_bit f2fs_change_bit_def)
qed

text \<open>The combined operations are the test followed by the update.\<close>

lemma f2fs_test_and_set_bit_eq [simp]:
  "f2fs_test_and_set_bit i m = (f2fs_test_bit i m, f2fs_set_bit i m)"
  by (simp add: f2fs_test_and_set_bit_def f2fs_test_bit_def f2fs_set_bit_def)

lemma f2fs_test_and_clear_bit_eq [simp]:
  "f2fs_test_and_clear_bit i m = (f2fs_test_bit i m, f2fs_clear_bit i m)"
  by (simp add: f2fs_test_and_clear_bit_def f2fs_test_bit_def f2fs_clear_bit_def)

interpretation fb: bitmap_ops f2fs_test_bit f2fs_set_bit f2fs_clear_bit "\<lambda>m. 8 * length m"
  by unfold_locales (simp_all add: bitmap_simps)

lemma test_bit_le_set:
  assumes "i < 8 * length m"
  shows "test_bit_le j (snd (test_and_set_bit_le i m)) = (j = i \<or> test_bit_le j m)"
proof (cases "j div 8 = i div 8")
  case True
  with assms have "i div 8 < length m" by (simp add: div8_lt)
  then show ?thesis
    using True same_bit_position_le [OF True]
    by (auto simp: test_bit_le_bit test_and_set_bit_le_def bit_mask_le bit_or_iff)
next
  case False
  then show ?thesis by (auto simp: test_bit_le_bit test_and_set_bit_le_def)
qed

lemma test_bit_le_clear:
  assumes "i < 8 * length m"
  shows "test_bit_le j (snd (test_and_clear_bit_le i m)) = (j \<noteq> i \<and> test_bit_le j m)"
proof (cases "j div 8 = i div 8")
  case True
  with assms have "i div 8 < length m" by (simp add: div8_lt)
  then show ?thesis
    using True same_bit_position_le [OF True]
    by (auto simp: test_bit_le_bit test_and_clear_bit_le_def bit_mask_le bit_and_iff bit_not_iff)
next
  case False
  then show ?thesis by (auto simp: test_bit_le_bit test_and_clear_bit_le_def)
qed

lemma length_test_and_bit_le [simp]:
  "length (snd (test_and_set_bit_le i m)) = length m"
  "length (snd (test_and_clear_bit_le i m)) = length m"
  by (simp_all add: test_and_set_bit_le_def test_and_clear_bit_le_def)

interpretation lb: bitmap_ops test_bit_le
  "\<lambda>i m. snd (test_and_set_bit_le i m)" "\<lambda>i m. snd (test_and_clear_bit_le i m)"
  "\<lambda>m. 8 * length m"
  by unfold_locales (simp_all add: test_bit_le_set test_bit_le_clear)

subsection \<open>Facts about all 256 bytes\<close>

lemma byte_cases:
  assumes "\<forall>n \<in> set [0..<256]. P (word_of_nat n :: u8)"
  shows "P w"
proof -
  have "unat w < 2 ^ LENGTH(8)" by (rule unsigned_less)
  then have "unat w < 256" by simp
  then have "unat w \<in> set [0..<256]" by simp
  with assms have "P (word_of_nat (unat w))" by blast
  then show ?thesis by simp
qed

lemma ffs8_correct: "w \<noteq> 0 \<longrightarrow> (ffs8 w < 8 \<and> bit w (ffs8 w) \<and> (\<forall>k \<in> set [0..<ffs8 w]. \<not> bit w k))"
  by (rule byte_cases) code_simp

lemma bits_in_byte_popcount: "get_bits_in_byte w = bit_count (bit w) 8"
  by (rule byte_cases) code_simp

subsection \<open>The byte-wise search equals the reference search\<close>

lemma ffs8_bit: "w \<noteq> 0 \<Longrightarrow> bit w (ffs8 w)"
  and ffs8_lt: "w \<noteq> 0 \<Longrightarrow> ffs8 w < 8"
  and ffs8_below: "w \<noteq> 0 \<Longrightarrow> k < ffs8 w \<Longrightarrow> \<not> bit w k"
  using ffs8_correct [of w] by auto

lemma byte_ne_0_iff: "(w::u8) \<noteq> 0 \<longleftrightarrow> (\<exists>k<8. bit w k)"
proof
  assume "w \<noteq> 0"
  then show "\<exists>k<8. bit w k" using ffs8_bit ffs8_lt by blast
qed auto

lemma find_le_loop_first_from:
  assumes "start mod 8 = 0" "start \<le> s" "s < start + 8" "s < nbits"
    and "\<And>k. k < 8 \<Longrightarrow> bit tmp k \<longleftrightarrow>
           s \<le> start + k \<and> bit (addr ! ((start + k) div 8) XOR invert) ((start + k) mod 8)"
  shows "find_le_loop addr nbits start invert tmp =
           first_from (\<lambda>i. bit (addr ! (i div 8) XOR invert) (i mod 8)) nbits s"
  using assms
proof (induction addr nbits start invert tmp arbitrary: s rule: find_le_loop.induct)
  case (1 addr nbits start invert tmp)
  let ?P = "\<lambda>i. bit (addr ! (i div 8) XOR invert) (i mod 8)"
  obtain q where q: "start = 8 * q" using "1.prems"(1) by auto
  have tmp: "\<And>k. k < 8 \<Longrightarrow> bit tmp k \<longleftrightarrow> s \<le> start + k \<and> ?P (start + k)"
    using "1.prems"(5) .
  show ?case
  proof (cases "tmp = 0")
    case True
    have none: "\<not> ?P j" if "s \<le> j" "j < start + 8" for j
    proof -
      from that "1.prems"(2) obtain k where k: "j = start + k" "k < 8"
        using le_Suc_ex [of start j] by auto
      with True tmp [of k] that show ?thesis by simp
    qed
    have skip: "first_from ?P nbits s = first_from ?P nbits (start + 8)"
      using "1.prems"(3) none by (intro first_from_skip_to) auto
    show ?thesis
    proof (cases "start + 8 \<ge> nbits")
      case True
      with \<open>tmp = 0\<close> skip show ?thesis by (simp add: find_le_loop.simps)
    next
      case False
      have "find_le_loop addr nbits (start + 8) invert (addr ! ((start + 8) div 8) XOR invert)
              = first_from ?P nbits (start + 8)"
      proof (rule "1.IH" [OF True refl False])
        show "(start + 8) mod 8 = 0" by (simp add: q)
        show "start + 8 \<le> start + 8" "start + 8 < start + 8 + 8" by simp_all
        show "start + 8 < nbits" using False by simp
        fix k :: nat
        assume "k < 8"
        moreover have "start + 8 + k = k + 8 * Suc q" "start + 8 = 8 * Suc q"
          by (simp_all add: q)
        ultimately have "(start + 8 + k) div 8 = (start + 8) div 8" "(start + 8 + k) mod 8 = k"
          by (simp_all only: div_mult_self2 mod_mult_self2 div_mult_self1_is_m) simp_all
        then show "bit (addr ! ((start + 8) div 8) XOR invert) k \<longleftrightarrow>
          start + 8 \<le> start + 8 + k \<and> ?P (start + 8 + k)" by simp
      qed
      with True False skip show ?thesis
        by (simp add: find_le_loop.simps [of addr nbits start invert 0] Let_def)
    qed
  next
    case False
    let ?r = "start + ffs8 tmp"
    have hit: "s \<le> ?r" "?P ?r"
      using ffs8_bit [OF False] tmp [OF ffs8_lt [OF False]] by auto
    have below: "\<not> ?P j" if "s \<le> j" "j < ?r" for j
    proof -
      from that "1.prems"(2) obtain k where k: "j = start + k" "k < ffs8 tmp"
        using le_Suc_ex [of start j] by auto
      with ffs8_lt [OF False] ffs8_below [OF False k(2)] tmp [of k] that show ?thesis by simp
    qed
    have "first_from ?P nbits s = min ?r nbits"
      using hit below by (rule first_from_clamp)
    with False show ?thesis by (simp add: find_le_loop.simps)
  qed
qed

lemma bit_first_byte_mask: "k < 8 \<Longrightarrow> bit (push_bit n 0xff :: u8) k \<longleftrightarrow> n \<le> k"
proof -
  have "(0xff :: u8) = mask 8" by (simp add: mask_eq_exp_minus_1)
  then have ff: "bit (0xff :: u8) j \<longleftrightarrow> j < 8" for j
    using bit_mask_iff [where 'a = u8, of 8 j] by (simp only: possible_bit_word) simp
  assume "k < 8"
  then show ?thesis using ff [of "k - n"] by (auto simp: bit_push_bit_iff)
qed

lemma find_next_bit_le_gen_eq:
  "find_next_bit_le_gen addr nbits start invert =
     first_from (\<lambda>i. bit (addr ! (i div 8) XOR invert) (i mod 8)) nbits start"
proof (cases "start < nbits")
  case True
  let ?b = "start div 8 * 8"
  have "find_le_loop addr nbits ?b invert
          ((addr ! (start div 8) XOR invert) AND push_bit (start mod 8) 0xff) =
        first_from (\<lambda>i. bit (addr ! (i div 8) XOR invert) (i mod 8)) nbits start"
  proof (rule find_le_loop_first_from)
    show "?b mod 8 = 0" "?b \<le> start" "start < nbits" using True by simp_all
    show "start < ?b + 8" using mod_less_divisor [of 8 start] div_mult_mod_eq [of start 8]
      by linarith
    fix k :: nat
    assume k: "k < 8"
    then have "(?b + k) div 8 = start div 8" "(?b + k) mod 8 = k" by simp_all
    moreover have "start mod 8 \<le> k \<longleftrightarrow> start \<le> ?b + k"
      using div_mult_mod_eq [of start 8] by linarith
    ultimately show "bit ((addr ! (start div 8) XOR invert) AND push_bit (start mod 8) 0xff) k
        \<longleftrightarrow> start \<le> ?b + k \<and> bit (addr ! ((?b + k) div 8) XOR invert) ((?b + k) mod 8)"
      by (auto simp: bit_and_iff bit_first_byte_mask [OF k])
  qed
  with True show ?thesis by (simp add: find_next_bit_le_gen_def Let_def)
next
  case False
  then show ?thesis by (simp add: find_next_bit_le_gen_def)
qed

lemma bit_xor_ff: "k < 8 \<Longrightarrow> bit (w XOR (0xff :: u8)) k \<longleftrightarrow> \<not> bit w k"
  using bit_first_byte_mask [of k 0] by (simp add: bit_xor_iff)

text \<open>
  C10: the byte-at-a-time searches \<open>find_next_bit_le\<close> and \<open>find_next_zero_bit_le\<close> of the
  disk tools return the least set (clear) bit from \<open>offset\<close> on below \<open>size\<close>, and
  \<open>size\<close> when there is none.
\<close>
theorem find_next_bit_le_first:
  "find_next_bit_le addr sz offset = first_from (\<lambda>i. test_bit_le i addr) sz offset \<and>
   find_next_zero_bit_le addr sz offset = first_from (\<lambda>i. \<not> test_bit_le i addr) sz offset"
  by (simp add: find_next_bit_le_def find_next_zero_bit_le_def find_next_bit_le_gen_eq test_bit_le_bit bit_xor_ff)

interpretation ls: bit_search test_bit_le find_next_bit_le find_next_zero_bit_le "\<lambda>m. 8 * length m"
  by unfold_locales
    (simp_all add: find_next_bit_le_def find_next_zero_bit_le_def find_next_bit_le_gen_eq test_bit_le_bit bit_xor_ff)

subsection \<open>The unbounded search of \<open>segment.c\<close>\<close>

lemma rev_scan_Some:
  "rev_scan b addr offset = Some r \<Longrightarrow>
     offset \<le> r \<and> r < 8 * length addr \<and> f2fs_test_bit r addr = b \<and>
     (\<forall>j. offset \<le> j \<and> j < r \<longrightarrow> f2fs_test_bit j addr \<noteq> b)"
proof (induction b addr offset rule: rev_scan.induct)
  case (1 b addr offset)
  show ?case
  proof (cases "offset < 8 * length addr \<and> f2fs_test_bit offset addr \<noteq> b")
    case True
    with "1.prems" have "rev_scan b addr (Suc offset) = Some r"
      by (simp add: rev_scan.simps [of b addr offset])
    with "1.IH" True show ?thesis
      by (auto simp: all_from_Suc [of offset r])
  next
    case False
    with "1.prems" show ?thesis
      by (auto simp: rev_scan.simps [of b addr offset] split: if_splits)
  qed
qed

lemma rev_scan_None: "rev_scan b addr offset = None \<longleftrightarrow>
     (\<forall>j. offset \<le> j \<and> j < 8 * length addr \<longrightarrow> f2fs_test_bit j addr \<noteq> b)"
proof (induction b addr offset rule: rev_scan.induct)
  case (1 b addr offset)
  show ?case
  proof (cases "offset < 8 * length addr \<and> f2fs_test_bit offset addr \<noteq> b")
    case True
    with "1.IH" show ?thesis
      by (simp add: rev_scan.simps [of b addr offset] all_from_Suc [of offset "8 * length addr"])
  next
    case False
    then show ?thesis by (auto simp: rev_scan.simps [of b addr offset])
  qed
qed

lemma rev_scan_clamp:
  assumes "rev_scan b addr offset = Some r"
  shows "min r sz = first_from (\<lambda>i. f2fs_test_bit i addr = b) sz offset"
  using rev_scan_Some [OF assms] by (intro first_from_clamp [symmetric]) auto

lemma find_rev_next_zero_bit_eq:
  "find_rev_next_zero_bit mem sz offset =
    (if \<exists>j. offset \<le> j \<and> j < 8 * length mem \<and> \<not> f2fs_test_bit j mem
     then Some (first_from (\<lambda>i. \<not> f2fs_test_bit i mem) sz offset) else None)"
proof (cases "rev_scan False mem offset")
  case None
  moreover from None have "\<not> (\<exists>j. offset \<le> j \<and> j < 8 * length mem \<and> \<not> f2fs_test_bit j mem)"
    using rev_scan_None by blast
  ultimately show ?thesis by (simp add: find_rev_next_zero_bit_def)
next
  case (Some r)
  then have "\<exists>j. offset \<le> j \<and> j < 8 * length mem \<and> \<not> f2fs_test_bit j mem"
    using rev_scan_Some by blast
  with Some rev_scan_clamp [OF Some, of sz] show ?thesis
    by (simp add: find_rev_next_zero_bit_def min_def split: if_splits)
qed

text \<open>
  Whatever memory follows the map, when \<open>__find_rev_next_zero_bit\<close> returns it returns
  the least clear bit from \<open>offset\<close> on, or \<open>size\<close>; and it returns exactly when a clear
  bit exists before the end of the readable memory, which for a full map lies outside it.
\<close>
theorem find_rev_next_zero_bit_correct:
  "find_rev_next_zero_bit mem sz offset =
    (if \<exists>j. offset \<le> j \<and> j < 8 * length mem \<and> \<not> f2fs_test_bit j mem
     then Some (first_from (\<lambda>i. \<not> f2fs_test_bit i mem) sz offset) else None)"
  by (rule find_rev_next_zero_bit_eq)

lemma find_rev_next_bit_correct:
  "find_rev_next_bit mem sz offset =
    (if \<exists>j. offset \<le> j \<and> j < 8 * length mem \<and> f2fs_test_bit j mem
     then Some (first_from (\<lambda>i. f2fs_test_bit i mem) sz offset) else None)"
proof (cases "rev_scan True mem offset")
  case None
  moreover from None have "\<not> (\<exists>j. offset \<le> j \<and> j < 8 * length mem \<and> f2fs_test_bit j mem)"
    using rev_scan_None by blast
  ultimately show ?thesis by (simp add: find_rev_next_bit_def)
next
  case (Some r)
  then have "\<exists>j. offset \<le> j \<and> j < 8 * length mem \<and> f2fs_test_bit j mem"
    using rev_scan_Some by blast
  with Some rev_scan_clamp [OF Some, of sz] show ?thesis
    by (simp add: find_rev_next_bit_def min_def split: if_splits)
qed

text \<open>
  The clients in \<open>segment.c\<close> only see the clamped result, which the memory behind the map
  does not influence: a scan that leaves the map yields \<open>size\<close> wherever it stops.
\<close>

definition rev_next_bit :: "bytemap \<Rightarrow> nat \<Rightarrow> nat \<Rightarrow> nat" where
  "rev_next_bit m sz i = (case find_rev_next_bit m sz i of Some r \<Rightarrow> r | None \<Rightarrow> sz)"

definition rev_next_zero_bit :: "bytemap \<Rightarrow> nat \<Rightarrow> nat \<Rightarrow> nat" where
  "rev_next_zero_bit m sz i = (case find_rev_next_zero_bit m sz i of Some r \<Rightarrow> r | None \<Rightarrow> sz)"

lemma rev_next_bit_first: "sz \<le> 8 * length m \<Longrightarrow> rev_next_bit m sz i = first_from (\<lambda>j. f2fs_test_bit j m) sz i"
  using first_from_eq_size_iff [of "\<lambda>j. f2fs_test_bit j m" sz i]
  by (auto simp: rev_next_bit_def find_rev_next_bit_correct)

lemma rev_next_zero_bit_first:
  "sz \<le> 8 * length m \<Longrightarrow> rev_next_zero_bit m sz i = first_from (\<lambda>j. \<not> f2fs_test_bit j m) sz i"
  using first_from_eq_size_iff [of "\<lambda>j. \<not> f2fs_test_bit j m" sz i]
  by (auto simp: rev_next_zero_bit_def find_rev_next_zero_bit_eq)

interpretation rs: bit_search f2fs_test_bit rev_next_bit rev_next_zero_bit "\<lambda>m. 8 * length m"
  by unfold_locales (simp_all add: rev_next_bit_first rev_next_zero_bit_first)

lemma rev_next_bit_tail:
  assumes "sz \<le> 8 * length m" "find_rev_next_bit (m @ tail) sz i = Some r"
  shows "rev_next_bit m sz i = r"
proof -
  have "f2fs_test_bit j (m @ tail) = f2fs_test_bit j m" if "j < sz" for j
    using that assms(1) div8_lt [of j "length m"] by (simp add: f2fs_test_bit_def nth_append)
  then have "first_from (\<lambda>j. f2fs_test_bit j (m @ tail)) sz i = first_from (\<lambda>j. f2fs_test_bit j m) sz i"
    by (intro first_from_cong) auto
  with assms show ?thesis by (auto simp: rev_next_bit_first find_rev_next_bit_correct split: if_splits)
qed

end
