(* ===== verification/Segmap.thy ===== *)
theory Segmap
  imports Max_Prelude "HOL-Library.Code_Target_Nat"
begin

section \<open>The free-segment map\<close>

text \<open>
  \<open>struct free_segmap_info\<close> of \<open>Max/segment.h\<close> and its five operations. A set bit of
  \<open>free_segmap\<close> is a segment in use, a set bit of \<open>free_secmap\<close> a section with a
  segment in use; the two counters are the numbers of clear bits. The operations run under
  \<open>segmap_lock\<close>, so each is one state transformer. \<open>spc\<close> is \<open>sbi->segs_per_sec\<close>.
\<close>

record free_segmap_info =
  start_segno :: nat
  free_segments :: nat
  free_sections :: nat
  free_segmap :: bitmap
  free_secmap :: bitmap

definition find_next_inuse :: "free_segmap_info \<Rightarrow> nat \<Rightarrow> nat \<Rightarrow> nat" where
  "find_next_inuse free_i mx segno = find_next_bit (free_segmap free_i) mx segno"

definition set_free :: "nat \<Rightarrow> free_segmap_info \<Rightarrow> nat \<Rightarrow> free_segmap_info" where
  "set_free spc f segno =
     (let secno = segno div spc;
          start_segno = secno * spc;
          f = f\<lparr>free_segmap := clear_bit segno (free_segmap f),
                free_segments := add32 (free_segments f) 1\<rparr>;
          nxt = find_next_bit (free_segmap f) (start_segno + spc) start_segno
      in if nxt \<ge> start_segno + spc
         then f\<lparr>free_secmap := clear_bit secno (free_secmap f),
                free_sections := add32 (free_sections f) 1\<rparr>
         else f)"

definition set_inuse :: "nat \<Rightarrow> free_segmap_info \<Rightarrow> nat \<Rightarrow> free_segmap_info" where
  "set_inuse spc f segno =
     (let secno = segno div spc;
          f = f\<lparr>free_segmap := set_bit segno (free_segmap f),
                free_segments := sub32 (free_segments f) 1\<rparr>;
          old = test_bit secno (free_secmap f);
          f = f\<lparr>free_secmap := set_bit secno (free_secmap f)\<rparr>
      in if \<not> old then f\<lparr>free_sections := sub32 (free_sections f) 1\<rparr> else f)"

definition set_test_and_free :: "nat \<Rightarrow> free_segmap_info \<Rightarrow> nat \<Rightarrow> free_segmap_info" where
  "set_test_and_free spc f segno =
     (let secno = segno div spc;
          start_segno = secno * spc;
          old = test_bit segno (free_segmap f);
          f = f\<lparr>free_segmap := clear_bit segno (free_segmap f)\<rparr>
      in if old
         then let f = f\<lparr>free_segments := add32 (free_segments f) 1\<rparr>;
                  nxt = find_next_bit (free_segmap f) (start_segno + spc) start_segno
              in if nxt \<ge> start_segno + spc
                 then let old_sec = test_bit secno (free_secmap f);
                          f = f\<lparr>free_secmap := clear_bit secno (free_secmap f)\<rparr>
                      in if old_sec then f\<lparr>free_sections := add32 (free_sections f) 1\<rparr> else f
                 else f
         else f)"

definition set_test_and_inuse :: "nat \<Rightarrow> free_segmap_info \<Rightarrow> nat \<Rightarrow> free_segmap_info" where
  "set_test_and_inuse spc f segno =
     (let secno = segno div spc;
          old = test_bit segno (free_segmap f);
          f = f\<lparr>free_segmap := set_bit segno (free_segmap f)\<rparr>
      in if \<not> old
         then let f = f\<lparr>free_segments := sub32 (free_segments f) 1\<rparr>;
                  old_sec = test_bit secno (free_secmap f);
                  f = f\<lparr>free_secmap := set_bit secno (free_secmap f)\<rparr>
              in if \<not> old_sec then f\<lparr>free_sections := sub32 (free_sections f) 1\<rparr> else f
         else f)"

subsection \<open>Abstract view and invariant\<close>

text \<open>
  The abstract state is the set of segments in use. The invariant ties every concrete
  field to it, for a main area of \<open>nsecs\<close> sections of \<open>spc\<close> segments.
\<close>

definition in_use :: "free_segmap_info \<Rightarrow> nat set" where
  "in_use f = {i. i < length (free_segmap f) \<and> test_bit i (free_segmap f)}"

definition sec_in_use :: "nat \<Rightarrow> free_segmap_info \<Rightarrow> nat \<Rightarrow> bool" where
  "sec_in_use spc f secno = (\<exists>i \<in> set [secno * spc ..< secno * spc + spc]. test_bit i (free_segmap f))"

definition segmap_inv :: "nat \<Rightarrow> nat \<Rightarrow> free_segmap_info \<Rightarrow> bool" where
  "segmap_inv nsecs spc f =
     (0 < spc \<and> nsecs * spc < 2 ^ 32 \<and>
      length (free_segmap f) = nsecs * spc \<and> length (free_secmap f) = nsecs \<and>
      free_segments f = bit_count (\<lambda>i. \<not> test_bit i (free_segmap f)) (nsecs * spc) \<and>
      free_sections f = bit_count (\<lambda>i. \<not> test_bit i (free_secmap f)) nsecs \<and>
      (\<forall>s \<in> set [0..<nsecs]. test_bit s (free_secmap f) = sec_in_use spc f s))"

subsection \<open>Arithmetic of segments and sections\<close>

lemma secno_lt [layout_simps]: "segno < nsecs * spc \<Longrightarrow> segno div spc < (nsecs::nat)"
  by (simp add: less_mult_imp_div_less)

lemma section_bounds:
  assumes "0 < (spc::nat)"
  shows "segno div spc * spc \<le> segno" "segno < segno div spc * spc + spc"
  using assms div_mult_mod_eq [of segno spc] mod_less_divisor [OF assms, of segno]
  by linarith+

lemma section_end_le: "s < nsecs \<Longrightarrow> s * spc + spc \<le> nsecs * (spc::nat)"
proof -
  assume "s < nsecs"
  then have "Suc s * spc \<le> nsecs * spc" by (intro mult_le_mono1) simp
  then show ?thesis by simp
qed

lemma section_unique:
  assumes "0 < (spc::nat)" "s * spc \<le> i" "i < s * spc + spc"
  shows "i div spc = s"
proof -
  obtain r where "i = s * spc + r" "r < spc" using assms(2,3) le_Suc_ex by fastforce
  with assms(1) show ?thesis by simp
qed

lemma find_next_bit_section:
  "find_next_bit m (b + spc) b \<ge> b + spc \<longleftrightarrow> (\<forall>i \<in> set [b ..< b + spc]. \<not> test_bit i m)"
  using first_from_lt_iff [of "\<lambda>j. test_bit j m" "b + spc" b]
  by (auto simp: find_next_bit_def not_less [symmetric])

lemma free_counts_small:
  assumes "segmap_inv nsecs spc f"
  shows "free_segments f < 2 ^ 32" "free_sections f < 2 ^ 32"
proof -
  have "free_segments f \<le> nsecs * spc" "free_sections f \<le> nsecs" "nsecs \<le> nsecs * spc"
    "nsecs * spc < 2 ^ 32"
    using assms bit_count_le by (auto simp: segmap_inv_def)
  then show "free_segments f < 2 ^ 32" "free_sections f < 2 ^ 32" by linarith+
qed

lemma add32_Suc: "Suc n < 2 ^ 32 \<Longrightarrow> add32 n 1 = Suc n"
  by simp

lemma sub32_Suc: "Suc n = m \<Longrightarrow> m < 2 ^ 32 \<Longrightarrow> sub32 m 1 = n"
  using sub32_small [of 1 m] by auto

lemma segmap_invD:
  assumes "segmap_inv nsecs spc f"
  shows "0 < spc" "nsecs * spc < 2 ^ 32" "length (free_segmap f) = nsecs * spc"
    "length (free_secmap f) = nsecs"
    "free_segments f = bit_count (\<lambda>i. \<not> test_bit i (free_segmap f)) (nsecs * spc)"
    "free_sections f = bit_count (\<lambda>i. \<not> test_bit i (free_secmap f)) nsecs"
    "\<And>s. s < nsecs \<Longrightarrow> test_bit s (free_secmap f) = sec_in_use spc f s"
  using assms by (auto simp: segmap_inv_def)

subsection \<open>Taking a segment\<close>

lemma sec_in_use_set:
  assumes "segno < length (free_segmap f)" "0 < spc" "free_segmap g = set_bit segno (free_segmap f)"
  shows "sec_in_use spc g s = (s = segno div spc \<or> sec_in_use spc f s)"
proof -
  have "sec_in_use spc g s = (segno \<in> set [s * spc ..< s * spc + spc] \<or> sec_in_use spc f s)"
    using assms(1,3) by (auto simp: sec_in_use_def bitmap_simps)
  moreover have "segno \<in> set [s * spc ..< s * spc + spc] \<longleftrightarrow> s = segno div spc"
    using section_unique [OF assms(2), of s segno] section_bounds [OF assms(2), of segno] by auto
  ultimately show ?thesis by simp
qed

lemma set_inuse_inv:
  assumes inv: "segmap_inv nsecs spc f" and seg: "segno < nsecs * spc"
    and clear: "\<not> test_bit segno (free_segmap f)"
  shows "segmap_inv nsecs spc (set_inuse spc f segno)"
proof -
  note d = segmap_invD [OF inv]
  let ?g = "set_inuse spc f segno" and ?sec = "segno div spc"
  have sec: "?sec < nsecs" using seg by (rule secno_lt)
  have fields: "free_segmap ?g = set_bit segno (free_segmap f)"
    "free_secmap ?g = set_bit ?sec (free_secmap f)"
    "free_segments ?g = sub32 (free_segments f) 1"
    "free_sections ?g = (if test_bit ?sec (free_secmap f) then free_sections f
                         else sub32 (free_sections f) 1)"
    by (simp_all add: set_inuse_def Let_def)
  have cnt: "Suc (bit_count (\<lambda>i. \<not> test_bit i (set_bit segno (free_segmap f))) (nsecs * spc)) = free_segments f"
    using kb.count_zero_put [of segno "nsecs * spc" "free_segmap f"] seg clear d by simp
  have segs: "free_segments ?g = bit_count (\<lambda>i. \<not> test_bit i (free_segmap ?g)) (nsecs * spc)"
    using sub32_Suc [OF cnt free_counts_small(1) [OF inv]] by (simp add: fields)
  have secs: "free_sections ?g = bit_count (\<lambda>i. \<not> test_bit i (free_secmap ?g)) nsecs"
  proof (cases "test_bit ?sec (free_secmap f)")
    case True
    then show ?thesis
      using d sec by (auto simp: fields bitmap_simps intro!: bit_count_cong)
  next
    case False
    then have "Suc (bit_count (\<lambda>i. \<not> test_bit i (set_bit ?sec (free_secmap f))) nsecs) = free_sections f"
      using kb.count_zero_put [of ?sec nsecs "free_secmap f"] sec d by simp
    from sub32_Suc [OF this free_counts_small(2) [OF inv]] False show ?thesis
      by (simp add: fields)
  qed
  have "test_bit s (free_secmap ?g) = sec_in_use spc ?g s" if "s < nsecs" for s
    using sec_in_use_set [of segno f spc ?g s] d seg sec that by (auto simp: fields bitmap_simps)
  with segs secs d show ?thesis by (simp add: segmap_inv_def fields)
qed

lemma set_inuse_in_use:
  "segno < length (free_segmap f) \<Longrightarrow> in_use (set_inuse spc f segno) = insert segno (in_use f)"
  by (auto simp: in_use_def set_inuse_def Let_def bitmap_simps)

subsection \<open>Releasing a segment\<close>

lemma sec_in_use_clear:
  assumes "segno < length (free_segmap f)" "0 < spc" "free_segmap g = clear_bit segno (free_segmap f)"
    and "s \<noteq> segno div spc"
  shows "sec_in_use spc g s = sec_in_use spc f s"
proof -
  have "segno \<notin> set [s * spc ..< s * spc + spc]"
    using section_unique [OF assms(2), of s segno] assms(4) by auto
  with assms(1,3) show ?thesis by (auto simp: sec_in_use_def bitmap_simps)
qed

lemma set_free_inv:
  assumes inv: "segmap_inv nsecs spc f" and seg: "segno < nsecs * spc"
    and used: "test_bit segno (free_segmap f)"
  shows "segmap_inv nsecs spc (set_free spc f segno)"
proof -
  note d = segmap_invD [OF inv]
  let ?g = "set_free spc f segno" and ?sec = "segno div spc"
  have sec: "?sec < nsecs" using seg by (rule secno_lt)
  define lst where "lst = (\<forall>i \<in> set [?sec * spc ..< ?sec * spc + spc]. \<not> test_bit i (clear_bit segno (free_segmap f)))"
  have last: "lst \<longleftrightarrow> \<not> sec_in_use spc ?g ?sec"
    by (auto simp: sec_in_use_def set_free_def Let_def lst_def)
  have fields: "free_segmap ?g = clear_bit segno (free_segmap f)"
    "free_secmap ?g = (if lst then clear_bit ?sec (free_secmap f) else free_secmap f)"
    "free_segments ?g = add32 (free_segments f) 1"
    "free_sections ?g = (if lst then add32 (free_sections f) 1 else free_sections f)"
    by (simp_all add: set_free_def Let_def find_next_bit_section lst_def del: set_upt)
  have "sec_in_use spc f ?sec"
    using used section_bounds [OF d(1), of segno] by (auto simp: sec_in_use_def)
  then have secset: "test_bit ?sec (free_secmap f)" using d(7) [OF sec] by simp
  have cnt: "bit_count (\<lambda>i. \<not> test_bit i (clear_bit segno (free_segmap f))) (nsecs * spc) = Suc (free_segments f)"
    using kb.count_zero_clr [of segno "nsecs * spc" "free_segmap f"] seg used d by simp
  moreover have "\<dots> \<le> nsecs * spc" using cnt bit_count_le by metis
  ultimately have segs: "free_segments ?g = bit_count (\<lambda>i. \<not> test_bit i (free_segmap ?g)) (nsecs * spc)"
    using d(2) by (simp add: fields)
  have secs: "free_sections ?g = bit_count (\<lambda>i. \<not> test_bit i (free_secmap ?g)) nsecs"
  proof (cases lst)
    case True
    have cs: "bit_count (\<lambda>i. \<not> test_bit i (clear_bit ?sec (free_secmap f))) nsecs = Suc (free_sections f)"
      using kb.count_zero_clr [of ?sec nsecs "free_secmap f"] sec secset d by simp
    then have "Suc (free_sections f) \<le> nsecs" using bit_count_le by metis
    moreover have "nsecs \<le> nsecs * spc" using d(1) by simp
    ultimately have "Suc (free_sections f) < 2 ^ 32" using d(2) by linarith
    from add32_Suc [OF this] cs True show ?thesis by (simp add: fields)
  next
    case False
    then show ?thesis using d(6) by (simp add: fields)
  qed
  have "test_bit s (free_secmap ?g) = sec_in_use spc ?g s" if "s < nsecs" for s
  proof (cases "s = ?sec")
    case True
    then show ?thesis using last secset d(4) sec by (auto simp: fields(2) bitmap_simps)
  next
    case False
    then have "sec_in_use spc ?g s = sec_in_use spc f s"
      using sec_in_use_clear [of segno f spc ?g s] d(1,3) seg fields(1) by simp
    with False d(4) d(7) [OF that] sec that show ?thesis
      by (auto simp: fields(2) bitmap_simps)
  qed
  with segs secs d show ?thesis by (simp add: segmap_inv_def fields(1,2))
qed

lemma set_free_in_use:
  "segno < length (free_segmap f) \<Longrightarrow> in_use (set_free spc f segno) = in_use f - {segno}"
  by (auto simp: in_use_def set_free_def Let_def bitmap_simps)

subsection \<open>The test-and variants\<close>

lemma set_bit_idem: "i < length m \<Longrightarrow> test_bit i m \<Longrightarrow> set_bit i m = m"
  by (simp add: test_bit_def set_bit_def list_update_same_conv)

lemma clear_bit_idem: "i < length m \<Longrightarrow> \<not> test_bit i m \<Longrightarrow> clear_bit i m = m"
  by (simp add: test_bit_def clear_bit_def list_update_same_conv)

lemma set_test_and_inuse_eq:
  assumes "segno < length (free_segmap f)"
  shows "set_test_and_inuse spc f segno =
    (if test_bit segno (free_segmap f) then f else set_inuse spc f segno)"
  using assms by (simp add: set_test_and_inuse_def set_inuse_def Let_def set_bit_idem)

lemma set_test_and_free_eq:
  assumes inv: "segmap_inv nsecs spc f" and seg: "segno < nsecs * spc"
  shows "set_test_and_free spc f segno =
    (if test_bit segno (free_segmap f) then set_free spc f segno else f)"
proof (cases "test_bit segno (free_segmap f)")
  case True
  note d = segmap_invD [OF inv]
  have sec: "segno div spc < nsecs" using seg by (rule secno_lt)
  have "sec_in_use spc f (segno div spc)"
    using True section_bounds [OF d(1), of segno] by (auto simp: sec_in_use_def)
  then have "test_bit (segno div spc) (free_secmap f)" using d(7) [OF sec] by simp
  with True show ?thesis by (simp add: set_test_and_free_def set_free_def Let_def)
next
  case False
  then show ?thesis
    using segmap_invD(3) [OF inv] seg by (simp add: set_test_and_free_def Let_def clear_bit_idem)
qed

lemma set_test_and_inuse_inv:
  "segmap_inv nsecs spc f \<Longrightarrow> segno < nsecs * spc \<Longrightarrow> segmap_inv nsecs spc (set_test_and_inuse spc f segno)"
  using set_inuse_inv segmap_invD(3) by (simp add: set_test_and_inuse_eq)

lemma set_test_and_free_inv:
  "segmap_inv nsecs spc f \<Longrightarrow> segno < nsecs * spc \<Longrightarrow> segmap_inv nsecs spc (set_test_and_free spc f segno)"
  using set_free_inv by (simp add: set_test_and_free_eq)

subsection \<open>Interface: a pool of segments\<close>

text \<open>
  What allocation, garbage collection and checkpointing rely on: taking and releasing a
  segment act on the set of segments in use, and the free count is exact. Releasing a batch
  of segments, as \<open>set_prefree_as_free_segments\<close> does, is proved against the interface.
\<close>

locale segment_pool =
  fixes invar :: "'s \<Rightarrow> bool"
    and used :: "'s \<Rightarrow> nat set"
    and cap :: nat
    and occupy :: "'s \<Rightarrow> nat \<Rightarrow> 's"
    and release :: "'s \<Rightarrow> nat \<Rightarrow> 's"
    and nfree :: "'s \<Rightarrow> nat"
  assumes used_bound: "invar s \<Longrightarrow> used s \<subseteq> {..<cap}"
    and nfree_eq: "invar s \<Longrightarrow> nfree s = cap - card (used s)"
    and occupy_invar: "invar s \<Longrightarrow> i < cap \<Longrightarrow> invar (occupy s i)"
    and occupy_used: "invar s \<Longrightarrow> i < cap \<Longrightarrow> used (occupy s i) = insert i (used s)"
    and release_invar: "invar s \<Longrightarrow> i < cap \<Longrightarrow> invar (release s i)"
    and release_used: "invar s \<Longrightarrow> i < cap \<Longrightarrow> used (release s i) = used s - {i}"
begin

lemma finite_used: "invar s \<Longrightarrow> finite (used s)"
  using used_bound finite_subset by blast

lemma card_used_le: "invar s \<Longrightarrow> card (used s) \<le> cap"
  using used_bound card_mono [of "{..<cap}" "used s"] by simp

lemma occupy_nfree:
  assumes "invar s" "i < cap" "i \<notin> used s"
  shows "Suc (nfree (occupy s i)) = nfree s"
proof -
  have "card (insert i (used s)) \<le> cap"
    using card_used_le [OF occupy_invar [OF assms(1,2)]] occupy_used [OF assms(1,2)] by simp
  with assms show ?thesis
    by (simp add: nfree_eq occupy_invar occupy_used finite_used)
qed

lemma release_all:
  assumes "set xs \<subseteq> {..<cap}" "invar s"
  shows "invar (fold (\<lambda>i s. release s i) xs s) \<and>
    used (fold (\<lambda>i s. release s i) xs s) = used s - set xs"
  using assms
proof (induction xs arbitrary: s)
  case (Cons x xs)
  then have "invar (release s x)" "used (release s x) = used s - {x}"
    by (auto intro: release_invar simp: release_used)
  with Cons show ?case by auto
qed simp

lemma release_all_nfree:
  assumes "set xs \<subseteq> used s" "invar s"
  shows "nfree (fold (\<lambda>i s. release s i) xs s) = nfree s + card (set xs)"
proof -
  have sub: "set xs \<subseteq> {..<cap}" using assms used_bound by blast
  have "card (used s - set xs) = card (used s) - card (set xs)"
    using assms(1) by (intro card_Diff_subset) auto
  moreover have "card (set xs) \<le> card (used s)"
    using assms finite_used by (intro card_mono) auto
  moreover note card_used_le [OF assms(2)]
  ultimately show ?thesis
    using release_all [OF sub assms(2)] assms(2) by (simp add: nfree_eq)
qed

end

lemma segmap_nfree: "segmap_inv nsecs spc f \<Longrightarrow> free_segments f = nsecs * spc - card (in_use f)"
  using segmap_invD(3,5) [of nsecs spc f] by (simp add: bit_count_not bit_count_card in_use_def)

interpretation pool: segment_pool "segmap_inv nsecs spc" in_use "nsecs * spc"
  "set_test_and_inuse spc" "set_test_and_free spc" free_segments for nsecs spc
proof unfold_locales
  fix s i
  assume inv: "segmap_inv nsecs spc s"
  show "in_use s \<subseteq> {..<nsecs * spc}" using segmap_invD(3) [OF inv] by (auto simp: in_use_def)
  show "free_segments s = nsecs * spc - card (in_use s)" using inv by (rule segmap_nfree)
  assume i: "i < nsecs * spc"
  show "segmap_inv nsecs spc (set_test_and_inuse spc s i)" using inv i by (rule set_test_and_inuse_inv)
  show "segmap_inv nsecs spc (set_test_and_free spc s i)" using inv i by (rule set_test_and_free_inv)
  show "in_use (set_test_and_inuse spc s i) = insert i (in_use s)"
    using segmap_invD(3) [OF inv] i set_inuse_in_use [of i s]
    by (auto simp: set_test_and_inuse_eq in_use_def)
  show "in_use (set_test_and_free spc s i) = in_use s - {i}"
    using segmap_invD(3) [OF inv] i set_free_in_use [of i s]
    by (auto simp: set_test_and_free_eq [OF inv i] in_use_def)
qed

text \<open>
  C6: marking a segment as used keeps the map consistent (both counters exact, a section
  marked exactly when it holds a used segment), adds the segment to the set in use, and
  lowers the free count by one when the segment was free and not at all otherwise.
\<close>
theorem set_test_and_inuse_correct:
  assumes "segmap_inv nsecs spc f" "segno < nsecs * spc"
  shows "segmap_inv nsecs spc (set_test_and_inuse spc f segno)
    \<and> in_use (set_test_and_inuse spc f segno) = insert segno (in_use f)
    \<and> free_segments (set_test_and_inuse spc f segno) + (if segno \<in> in_use f then 0 else 1) = free_segments f"
proof -
  have "Suc (free_segments (set_test_and_inuse spc f segno)) = free_segments f" if "segno \<notin> in_use f"
    using that assms by (intro pool.occupy_nfree)
  moreover have "set_test_and_inuse spc f segno = f" if "segno \<in> in_use f"
    using that by (simp add: in_use_def set_test_and_inuse_eq)
  ultimately show ?thesis
    using pool.occupy_invar [OF assms] pool.occupy_used [OF assms] by auto
qed

definition empty_segmap :: free_segmap_info where
  "empty_segmap = \<lparr>start_segno = 0, free_segments = 6, free_sections = 3,
     free_segmap = replicate 6 False, free_secmap = replicate 3 False\<rparr>"

theorem set_test_and_inuse_correct_witness:
  "segmap_inv 3 2 (set_test_and_inuse 2 empty_segmap 3)
    \<and> in_use (set_test_and_inuse 2 empty_segmap 3) = insert 3 (in_use empty_segmap)
    \<and> free_segments (set_test_and_inuse 2 empty_segmap 3) + (if 3 \<in> in_use empty_segmap then 0 else 1)
        = free_segments empty_segmap"
proof (rule set_test_and_inuse_correct)
  show "segmap_inv 3 2 empty_segmap" by code_simp
  show "3 < (3::nat) * 2" by simp
qed

lemma sec_in_use_iff:
  assumes "0 < spc" "length (free_segmap f) = nsecs * spc" "s < nsecs"
  shows "sec_in_use spc f s = (\<exists>i \<in> in_use f. i div spc = s)"
proof
  assume "sec_in_use spc f s"
  then obtain i where i: "s * spc \<le> i" "i < s * spc + spc" "test_bit i (free_segmap f)"
    by (auto simp: sec_in_use_def)
  then have "i div spc = s" using assms(1) by (intro section_unique)
  moreover have "i \<in> in_use f" using i section_end_le [OF assms(3), of spc] assms(2) by (simp add: in_use_def)
  ultimately show "\<exists>i \<in> in_use f. i div spc = s" by blast
next
  assume "\<exists>i \<in> in_use f. i div spc = s"
  then show "sec_in_use spc f s"
    using section_bounds [OF assms(1)] by (auto simp: in_use_def sec_in_use_def)
qed

text \<open>
  C7: releasing a segment keeps the map consistent, removes the segment from the set in
  use, and frees the section exactly when that was its last used segment.
\<close>
theorem set_test_and_free_correct:
  assumes "segmap_inv nsecs spc f" "segno < nsecs * spc"
  shows "segmap_inv nsecs spc (set_test_and_free spc f segno)
    \<and> in_use (set_test_and_free spc f segno) = in_use f - {segno}
    \<and> test_bit (segno div spc) (free_secmap (set_test_and_free spc f segno))
       = (\<exists>i \<in> in_use f - {segno}. i div spc = segno div spc)"
proof -
  let ?g = "set_test_and_free spc f segno"
  have inv: "segmap_inv nsecs spc ?g" and use: "in_use ?g = in_use f - {segno}"
    using pool.release_invar [OF assms] pool.release_used [OF assms] by auto
  note d = segmap_invD [OF inv]
  have sec: "segno div spc < nsecs" using assms(2) by (rule secno_lt)
  have "sec_in_use spc ?g (segno div spc) = (\<exists>i \<in> in_use ?g. i div spc = segno div spc)"
    using d(1,3) sec by (rule sec_in_use_iff)
  with inv use d(7) [OF sec] show ?thesis by simp
qed

theorem set_test_and_free_correct_witness:
  "segmap_inv 3 2 (set_test_and_free 2 (set_test_and_inuse 2 empty_segmap 3) 3)
    \<and> in_use (set_test_and_free 2 (set_test_and_inuse 2 empty_segmap 3) 3)
        = in_use (set_test_and_inuse 2 empty_segmap 3) - {3}
    \<and> test_bit (3 div 2) (free_secmap (set_test_and_free 2 (set_test_and_inuse 2 empty_segmap 3) 3))
       = (\<exists>i \<in> in_use (set_test_and_inuse 2 empty_segmap 3) - {3}. i div 2 = 3 div 2)"
proof (rule set_test_and_free_correct)
  show "segmap_inv 3 2 (set_test_and_inuse 2 empty_segmap 3)" by code_simp
  show "3 < (3::nat) * 2" by simp
qed

end
