(* ===== verification/Segstate.thy ===== *)
theory Segstate
  imports Bitops Segmap
begin

section \<open>State and layout of the segment manager\<close>

text \<open>
  The structures of \<open>Max/segment.h\<close> and the parts of \<open>struct f2fs_sm_info\<close> and
  \<open>struct f2fs_sb_info\<close> (\<open>Max/f2fs.h\<close>) the segment manager works on, as records with
  the source's field names, and the address arithmetic of the header's macros. Locks are
  not state: the operations modelled here run under \<open>sentry_lock\<close>, \<open>seglist_lock\<close>,
  \<open>segmap_lock\<close> and \<open>curseg_mutex\<close>. The block layer is the log of discard requests.
\<close>

subsection \<open>Constants\<close>

definition NULL_ADDR :: nat where "NULL_ADDR = 0"
definition NEW_ADDR :: nat where "NEW_ADDR = 2 ^ 32 - 1"
definition NULL_SEGNO :: nat where "NULL_SEGNO = 2 ^ 32 - 1"
definition SIT_VBLOCK_MAP_SIZE :: nat where "SIT_VBLOCK_MAP_SIZE = 64"
definition SIT_ENTRY_PER_BLOCK :: nat where "SIT_ENTRY_PER_BLOCK = 55"
definition NR_CURSEG_TYPE :: nat where "NR_CURSEG_TYPE = 6"

text \<open>\<open>enum\<close> of the log types, and \<open>enum dirty_type\<close>, which continues it.\<close>

definition CURSEG_HOT_DATA :: nat where "CURSEG_HOT_DATA = 0"
definition CURSEG_WARM_DATA :: nat where "CURSEG_WARM_DATA = 1"
definition CURSEG_COLD_DATA :: nat where "CURSEG_COLD_DATA = 2"
definition CURSEG_HOT_NODE :: nat where "CURSEG_HOT_NODE = 3"
definition CURSEG_WARM_NODE :: nat where "CURSEG_WARM_NODE = 4"
definition CURSEG_COLD_NODE :: nat where "CURSEG_COLD_NODE = 5"
definition CURSEG_DIRECT_IO :: nat where "CURSEG_DIRECT_IO = 7"
definition DIRTY :: nat where "DIRTY = 6"
definition PRE :: nat where "PRE = 7"
definition NR_DIRTY_TYPE :: nat where "NR_DIRTY_TYPE = 8"

datatype alloc_mode = LFS | SSR

datatype alloc_dir = ALLOC_RIGHT | ALLOC_LEFT

datatype gc_mode = GC_CB | GC_GREEDY

datatype gc_type = BG_GC | FG_GC

subsection \<open>Structures\<close>

record seg_entry =
  valid_blocks :: nat
  cur_valid_map :: bytemap
  ckpt_valid_blocks :: nat
  ckpt_valid_map :: bytemap
  discard_map :: bytemap
  seg_type :: nat
  seg_mtime :: nat

record sit_info =
  sit_base_addr :: nat
  sit_blocks :: nat
  written_valid_blocks :: nat
  sit_bitmap :: bytemap
  dirty_sentries_bitmap :: bitmap
  dirty_sentries :: nat
  sentries :: "seg_entry list"
  sec_entries :: "nat list"
  elapsed_time :: nat
  mounted_time :: nat
  min_mtime :: nat
  max_mtime :: nat

record dirty_seglist_info =
  dirty_segmap :: "bitmap list"
  nr_dirty :: "int list"
  victim_secmap :: bitmap

record f2fs_summary =
  sum_nid :: nat
  sum_version :: nat
  sum_ofs_in_node :: nat

record f2fs_summary_block =
  sum_entries :: "f2fs_summary list"
  sum_type :: nat

record curseg_info =
  sum_blk :: f2fs_summary_block
  alloc_type :: alloc_mode
  segno :: nat
  next_blkoff :: nat
  zone :: nat
  next_segno :: nat

record sbi =
  sit_i :: sit_info
  free_i :: free_segmap_info
  dirty_i :: dirty_seglist_info
  curseg_array :: "curseg_info list"
  seg0_blkaddr :: nat
  main_blkaddr :: nat
  ssa_blkaddr :: nat
  segment_count :: nat
  main_segments :: nat
  reserved_segments :: nat
  ovp_segments :: nat
  rec_prefree_segments :: nat
  total_sections :: nat
  log_blocks_per_seg :: nat
  segs_per_sec :: nat
  secs_per_zone :: nat
  nr_mlog :: nat
  next_mlog :: nat
  nr_dirty_nodes :: nat
  nr_dirty_dents :: nat
  total_valid_block_count :: nat
  user_block_count :: nat
  discard_blks :: nat
  need_fsck :: bool
  por_doing :: bool
  opt_discard :: bool
  opt_noheap :: bool
  cur_victim_sec :: nat
  last_victim :: "gc_mode \<Rightarrow> nat"
  max_victim_search :: nat
  gc_thread :: "nat option"
  ipu_policy :: nat
  min_ipu_util :: nat
  trim_sections :: nat
  ssa_area :: "f2fs_summary_block list"
  nr_discards :: int
  max_discards :: int
  discard_list :: "(nat \<times> nat) list"
  discards_issued :: "(nat \<times> nat) list"

abbreviation blocks_per_seg :: "sbi \<Rightarrow> nat" where
  "blocks_per_seg s \<equiv> 2 ^ log_blocks_per_seg s"

text \<open>\<open>f2fs_bug_on\<close>, in the configuration without \<open>CONFIG_F2FS_CHECK_FS\<close>.\<close>

definition f2fs_bug_on :: "bool \<Rightarrow> sbi \<Rightarrow> sbi" where
  "f2fs_bug_on c s = (if c then s\<lparr>need_fsck := True\<rparr> else s)"

lemma f2fs_bug_on_eq: "f2fs_bug_on c s = s\<lparr>need_fsck := (c \<or> need_fsck s)\<rparr>"
  by (simp add: f2fs_bug_on_def)

subsection \<open>Address arithmetic\<close>

definition START_BLOCK :: "sbi \<Rightarrow> nat \<Rightarrow> nat" where
  "START_BLOCK s sn =
     (seg0_blkaddr s + (sn + start_segno (free_i s)) * 2 ^ log_blocks_per_seg s) mod 2 ^ 32"

definition NEXT_FREE_BLKADDR :: "sbi \<Rightarrow> curseg_info \<Rightarrow> nat" where
  "NEXT_FREE_BLKADDR s c = add32 (START_BLOCK s (segno c)) (next_blkoff c)"

definition GET_SEGOFF_FROM_SEG0 :: "sbi \<Rightarrow> nat \<Rightarrow> nat" where
  "GET_SEGOFF_FROM_SEG0 s blk_addr = sub32 blk_addr (seg0_blkaddr s)"

definition GET_SEGNO_FROM_SEG0 :: "sbi \<Rightarrow> nat \<Rightarrow> nat" where
  "GET_SEGNO_FROM_SEG0 s blk_addr = GET_SEGOFF_FROM_SEG0 s blk_addr div 2 ^ log_blocks_per_seg s"

definition GET_BLKOFF_FROM_SEG0 :: "sbi \<Rightarrow> nat \<Rightarrow> nat" where
  "GET_BLKOFF_FROM_SEG0 s blk_addr = GET_SEGOFF_FROM_SEG0 s blk_addr mod blocks_per_seg s"

definition GET_SEGNO :: "sbi \<Rightarrow> nat \<Rightarrow> nat" where
  "GET_SEGNO s blk_addr =
     (if blk_addr = NULL_ADDR \<or> blk_addr = NEW_ADDR then NULL_SEGNO
      else sub32 (GET_SEGNO_FROM_SEG0 s blk_addr) (start_segno (free_i s)))"

definition GET_SECNO :: "sbi \<Rightarrow> nat \<Rightarrow> nat" where
  "GET_SECNO s sn = sn div segs_per_sec s"

definition GET_ZONENO_FROM_SEGNO :: "sbi \<Rightarrow> nat \<Rightarrow> nat" where
  "GET_ZONENO_FROM_SEGNO s sn = (sn div segs_per_sec s) div secs_per_zone s"

definition SIT_BLOCK_OFFSET :: "nat \<Rightarrow> nat" where
  "SIT_BLOCK_OFFSET sn = sn div SIT_ENTRY_PER_BLOCK"

definition START_SEGNO :: "nat \<Rightarrow> nat" where
  "START_SEGNO sn = SIT_BLOCK_OFFSET sn * SIT_ENTRY_PER_BLOCK"

definition TOTAL_BLKS :: "sbi \<Rightarrow> nat" where
  "TOTAL_BLKS s = segment_count s * 2 ^ log_blocks_per_seg s"

definition MAX_BLKADDR :: "sbi \<Rightarrow> nat" where
  "MAX_BLKADDR s = seg0_blkaddr s + TOTAL_BLKS s"

text \<open>
  A volume the geometry fits: segment 0 does not start at the null address, and the block
  after the main area is addressable below \<open>NEW_ADDR\<close>.
\<close>

definition wf_layout :: "sbi \<Rightarrow> bool" where
  "wf_layout s =
     (0 < seg0_blkaddr s \<and> 0 < segs_per_sec s \<and> 0 < secs_per_zone s \<and>
      main_segments s = total_sections s * segs_per_sec s \<and>
      seg0_blkaddr s + (main_segments s + start_segno (free_i s)) * 2 ^ log_blocks_per_seg s
        < 2 ^ 32 - 1)"

lemma wf_layoutD:
  assumes "wf_layout s" "sn < main_segments s" "off < blocks_per_seg s"
  shows "START_BLOCK s sn = seg0_blkaddr s + (sn + start_segno (free_i s)) * 2 ^ log_blocks_per_seg s"
    and "START_BLOCK s sn + off < 2 ^ 32 - 1" and "0 < START_BLOCK s sn + off"
proof -
  have "Suc sn + start_segno (free_i s) \<le> main_segments s + start_segno (free_i s)"
    using assms(2) by simp
  then have "(Suc sn + start_segno (free_i s)) * 2 ^ log_blocks_per_seg s
      \<le> (main_segments s + start_segno (free_i s)) * 2 ^ log_blocks_per_seg s"
    by (rule mult_le_mono1)
  moreover have "seg0_blkaddr s + (main_segments s + start_segno (free_i s)) * 2 ^ log_blocks_per_seg s
      < 2 ^ 32 - 1"
    using assms(1) unfolding wf_layout_def by blast
  moreover have "(Suc sn + start_segno (free_i s)) * 2 ^ log_blocks_per_seg s =
      (sn + start_segno (free_i s)) * 2 ^ log_blocks_per_seg s + 2 ^ log_blocks_per_seg s"
    by simp
  ultimately have lt: "seg0_blkaddr s + (sn + start_segno (free_i s)) * 2 ^ log_blocks_per_seg s
      + 2 ^ log_blocks_per_seg s < 2 ^ 32 - 1"
    by linarith
  then show eq: "START_BLOCK s sn =
      seg0_blkaddr s + (sn + start_segno (free_i s)) * 2 ^ log_blocks_per_seg s"
    by (simp add: START_BLOCK_def)
  show "START_BLOCK s sn + off < 2 ^ 32 - 1" using eq lt assms(3) by linarith
  show "0 < START_BLOCK s sn + off" using eq assms(1) by (simp add: wf_layout_def)
qed

lemma segno_of_built:
  assumes "wf_layout s" "sn < main_segments s" "off < blocks_per_seg s"
  shows "GET_SEGNO s (START_BLOCK s sn + off) = sn \<and> GET_BLKOFF_FROM_SEG0 s (START_BLOCK s sn + off) = off"
proof -
  note w = wf_layoutD [OF assms]
  let ?n = "(sn + start_segno (free_i s)) * 2 ^ log_blocks_per_seg s + off"
  have off: "GET_SEGOFF_FROM_SEG0 s (START_BLOCK s sn + off) = ?n"
    using w by (simp add: GET_SEGOFF_FROM_SEG0_def)
  have div: "?n div 2 ^ log_blocks_per_seg s = sn + start_segno (free_i s)"
    and md: "?n mod 2 ^ log_blocks_per_seg s = off"
    using assms(3) by simp_all
  have "sn + start_segno (free_i s) \<le> (sn + start_segno (free_i s)) * 2 ^ log_blocks_per_seg s"
    by simp
  with w have small: "sn + start_segno (free_i s) < 2 ^ 32" by linarith
  have ne: "START_BLOCK s sn + off \<noteq> NULL_ADDR" "START_BLOCK s sn + off \<noteq> NEW_ADDR"
    using w(2,3) by (simp_all add: NULL_ADDR_def NEW_ADDR_def)
  have "GET_SEGNO s (START_BLOCK s sn + off) = sn"
    using ne small by (simp add: GET_SEGNO_def GET_SEGNO_FROM_SEG0_def off div)
  moreover have "GET_BLKOFF_FROM_SEG0 s (START_BLOCK s sn + off) = off"
    by (simp only: GET_BLKOFF_FROM_SEG0_def off md)
  ultimately show ?thesis by blast
qed

text \<open>
  The segment number and the block offset read back from a block address are the ones
  the address was built from, for every segment of the main area and every offset in it.
\<close>
theorem segno_blkoff_of_address:
  assumes "wf_layout s" "sn < main_segments s" "off < blocks_per_seg s"
  shows "GET_SEGNO s (START_BLOCK s sn + off) = sn \<and> GET_BLKOFF_FROM_SEG0 s (START_BLOCK s sn + off) = off"
  using assms by (rule segno_of_built)

definition sample_layout :: "nat \<Rightarrow> sbi \<Rightarrow> sbi" where
  "sample_layout start s = s\<lparr>seg0_blkaddr := 512, log_blocks_per_seg := 9, segs_per_sec := 2,
     secs_per_zone := 1, total_sections := 4, main_segments := 8,
     free_i := (free_i s)\<lparr>start_segno := start\<rparr>\<rparr>"

theorem segno_blkoff_of_address_witness:
  "\<forall>s. GET_SEGNO (sample_layout 3 s) (START_BLOCK (sample_layout 3 s) 5 + 100) = 5
    \<and> GET_BLKOFF_FROM_SEG0 (sample_layout 3 s) (START_BLOCK (sample_layout 3 s) 5 + 100) = 100"
proof
  fix s
  have "wf_layout (sample_layout 3 s)" "5 < main_segments (sample_layout 3 s)"
    "100 < blocks_per_seg (sample_layout 3 s)"
    by (simp_all add: wf_layout_def sample_layout_def)
  then show "GET_SEGNO (sample_layout 3 s) (START_BLOCK (sample_layout 3 s) 5 + 100) = 5
    \<and> GET_BLKOFF_FROM_SEG0 (sample_layout 3 s) (START_BLOCK (sample_layout 3 s) 5 + 100) = 100"
    by (rule segno_blkoff_of_address)
qed

text \<open>The other direction: every address of the main area is rebuilt from what is read.\<close>

lemma address_of_segno_blkoff:
  assumes "wf_layout s" "START_BLOCK s 0 \<le> a" "a < START_BLOCK s 0 + main_segments s * blocks_per_seg s"
    "0 < main_segments s"
  shows "GET_SEGNO s a < main_segments s"
    and "GET_BLKOFF_FROM_SEG0 s a < blocks_per_seg s"
    and "START_BLOCK s (GET_SEGNO s a) + GET_BLKOFF_FROM_SEG0 s a = a"
proof -
  let ?b = "blocks_per_seg s"
  let ?sn = "(a - START_BLOCK s 0) div ?b" and ?off = "(a - START_BLOCK s 0) mod ?b"
  have sn: "?sn < main_segments s" using assms(2,3) by (simp add: less_mult_imp_div_less)
  have off: "?off < ?b" by simp
  have "START_BLOCK s ?sn = START_BLOCK s 0 + ?sn * ?b"
    using wf_layoutD(1) [OF assms(1) sn off] wf_layoutD(1) [OF assms(1,4) off]
    by (simp add: algebra_simps)
  then have a: "START_BLOCK s ?sn + ?off = a"
    using assms(2) div_mult_mod_eq [of "a - START_BLOCK s 0" ?b] by linarith
  have "GET_SEGNO s a = ?sn \<and> GET_BLKOFF_FROM_SEG0 s a = ?off"
    using segno_of_built [OF assms(1) sn off] unfolding a .
  with sn off a show "GET_SEGNO s a < main_segments s" "GET_BLKOFF_FROM_SEG0 s a < ?b"
    "START_BLOCK s (GET_SEGNO s a) + GET_BLKOFF_FROM_SEG0 s a = a"
    by simp_all
qed

subsection \<open>A small volume\<close>

text \<open>
  A freshly formatted volume used to exercise the operations on: 8 sections of 2 segments of
  16 blocks, the six logs at the starts of the first six sections.
\<close>

definition small_curseg :: "nat \<Rightarrow> curseg_info" where
  "small_curseg i = \<lparr>sum_blk = \<lparr>sum_entries = replicate 16 \<lparr>sum_nid = 0, sum_version = 0, sum_ofs_in_node = 0\<rparr>,
       sum_type = 0\<rparr>, alloc_type = LFS, segno = 2 * i, next_blkoff = 0, zone = i, next_segno = NULL_SEGNO\<rparr>"

definition small_volume :: sbi where
  "small_volume = \<lparr>
     sit_i = \<lparr>sit_base_addr = 100, sit_blocks = 1, written_valid_blocks = 0, sit_bitmap = [0],
       dirty_sentries_bitmap = replicate 16 False, dirty_sentries = 0,
       sentries = replicate 16 \<lparr>valid_blocks = 0, cur_valid_map = [0, 0], ckpt_valid_blocks = 0,
         ckpt_valid_map = [0, 0], discard_map = [0, 0], seg_type = 0, seg_mtime = 0\<rparr>,
       sec_entries = replicate 8 0, elapsed_time = 0, mounted_time = 0, min_mtime = 0, max_mtime = 0\<rparr>,
     free_i = \<lparr>start_segno = 2, free_segments = 10, free_sections = 2,
       free_segmap = concat (replicate 6 [True, False]) @ replicate 4 False,
       free_secmap = replicate 6 True @ replicate 2 False\<rparr>,
     dirty_i = \<lparr>dirty_segmap = replicate 8 (replicate 16 False), nr_dirty = replicate 8 0,
       victim_secmap = replicate 8 False\<rparr>,
     curseg_array = map small_curseg [0..<6],
     seg0_blkaddr = 512, main_blkaddr = 544, ssa_blkaddr = 200, segment_count = 20, main_segments = 16,
     reserved_segments = 4, ovp_segments = 6, rec_prefree_segments = 1, total_sections = 8,
     log_blocks_per_seg = 4, segs_per_sec = 2, secs_per_zone = 1, nr_mlog = 1, next_mlog = 0,
     nr_dirty_nodes = 0, nr_dirty_dents = 0, total_valid_block_count = 0, user_block_count = 160,
     discard_blks = 256, need_fsck = False, por_doing = False, opt_discard = True, opt_noheap = False,
     cur_victim_sec = NULL_SEGNO, last_victim = (\<lambda>_. 0), max_victim_search = 4096, gc_thread = Some 0,
     ipu_policy = 0, min_ipu_util = 70, trim_sections = 32,
     ssa_area = replicate 16 \<lparr>sum_entries = [], sum_type = 0\<rparr>,
     nr_discards = 0, max_discards = 8, discard_list = [], discards_issued = []\<rparr>"

lemma wf_layout_small_volume: "wf_layout small_volume"
  by (simp add: wf_layout_def small_volume_def)

end
