(* ===== verification/Sit.thy ===== *)
theory Sit
  imports Segstate
begin

section \<open>Segment information table\<close>

text \<open>
  The in-memory SIT: its on-disk encoding (\<open>seg_info_from_raw_sit\<close>,
  \<open>seg_info_to_raw_sit\<close>), the alternating pair of SIT blocks, and \<open>update_sit_entry\<close>,
  through which every allocation and invalidation of a block goes. Counters are reduced to
  the width of their C type where the code assigns them. \<open>now\<close> is
  \<open>CURRENT_TIME_SEC.tv_sec\<close>.
\<close>

subsection \<open>Raw entries\<close>

record f2fs_sit_entry =
  vblocks :: u16
  valid_map :: bytemap
  raw_mtime :: u64

definition SIT_VBLOCKS_MASK :: u16 where
  "SIT_VBLOCKS_MASK = push_bit 10 1 - 1"

definition GET_SIT_VBLOCKS :: "f2fs_sit_entry \<Rightarrow> nat" where
  "GET_SIT_VBLOCKS rs = unat (vblocks rs AND SIT_VBLOCKS_MASK)"

definition GET_SIT_TYPE :: "f2fs_sit_entry \<Rightarrow> nat" where
  "GET_SIT_TYPE rs = unat (drop_bit 10 (vblocks rs AND NOT SIT_VBLOCKS_MASK))"

text \<open>\<open>memcpy\<close> of \<open>SIT_VBLOCK_MAP_SIZE\<close> bytes over the start of a map.\<close>

definition copy_map :: "bytemap \<Rightarrow> bytemap \<Rightarrow> bytemap" where
  "copy_map dst src = take SIT_VBLOCK_MAP_SIZE src @ drop SIT_VBLOCK_MAP_SIZE dst"

definition seg_info_from_raw_sit :: "seg_entry \<Rightarrow> f2fs_sit_entry \<Rightarrow> seg_entry" where
  "seg_info_from_raw_sit se rs =
     se\<lparr>valid_blocks := GET_SIT_VBLOCKS rs,
        ckpt_valid_blocks := GET_SIT_VBLOCKS rs,
        cur_valid_map := copy_map (cur_valid_map se) (valid_map rs),
        ckpt_valid_map := copy_map (ckpt_valid_map se) (valid_map rs),
        seg_type := GET_SIT_TYPE rs,
        seg_mtime := unat (raw_mtime rs)\<rparr>"

definition seg_info_to_raw_sit :: "seg_entry \<Rightarrow> f2fs_sit_entry \<Rightarrow> seg_entry \<times> f2fs_sit_entry" where
  "seg_info_to_raw_sit se rs =
     (let raw_vblocks = push_bit 10 (word_of_nat (seg_type se)) OR word_of_nat (valid_blocks se);
          rs = rs\<lparr>vblocks := raw_vblocks,
                  valid_map := copy_map (valid_map rs) (cur_valid_map se)\<rparr>;
          se = se\<lparr>ckpt_valid_map := copy_map (ckpt_valid_map se) (valid_map rs),
                  ckpt_valid_blocks := valid_blocks se\<rparr>
      in (se, rs\<lparr>raw_mtime := word_of_nat (seg_mtime se)\<rparr>))"

subsection \<open>The two copies of each SIT block\<close>

definition current_sit_addr :: "sbi \<Rightarrow> nat \<Rightarrow> sbi \<times> nat" where
  "current_sit_addr s start =
     (let offset = SIT_BLOCK_OFFSET start;
          blk_addr = sit_base_addr (sit_i s) + offset;
          s = (if start > sub32 (segment_count s) 1 then s\<lparr>need_fsck := True\<rparr> else s)
      in (s, if f2fs_test_bit offset (sit_bitmap (sit_i s))
             then blk_addr + sit_blocks (sit_i s) else blk_addr))"

definition next_sit_addr :: "sbi \<Rightarrow> nat \<Rightarrow> nat" where
  "next_sit_addr s block_addr =
     (let block_addr = block_addr - sit_base_addr (sit_i s);
          block_addr = (if block_addr < sit_blocks (sit_i s)
                        then block_addr + sit_blocks (sit_i s)
                        else block_addr - sit_blocks (sit_i s))
      in block_addr + sit_base_addr (sit_i s))"

definition set_to_next_sit :: "sit_info \<Rightarrow> nat \<Rightarrow> sit_info" where
  "set_to_next_sit si start = si\<lparr>sit_bitmap := f2fs_change_bit (SIT_BLOCK_OFFSET start) (sit_bitmap si)\<rparr>"

subsection \<open>Updating an entry\<close>

definition u16_of :: "int \<Rightarrow> nat" where "u16_of x = nat (x mod 2 ^ 16)"
definition u32_of :: "int \<Rightarrow> nat" where "u32_of x = nat (x mod 2 ^ 32)"

definition get_seg_entry :: "sbi \<Rightarrow> nat \<Rightarrow> seg_entry" where
  "get_seg_entry s sn = sentries (sit_i s) ! sn"

definition put_seg_entry :: "nat \<Rightarrow> seg_entry \<Rightarrow> sbi \<Rightarrow> sbi" where
  "put_seg_entry sn se s = s\<lparr>sit_i := (sit_i s)\<lparr>sentries := (sentries (sit_i s))[sn := se]\<rparr>\<rparr>"

definition get_valid_blocks :: "sbi \<Rightarrow> nat \<Rightarrow> nat \<Rightarrow> nat" where
  "get_valid_blocks s sn section =
     (if section > 1 then sec_entries (sit_i s) ! GET_SECNO s sn
      else valid_blocks (get_seg_entry s sn))"

definition get_mtime :: "nat \<Rightarrow> sit_info \<Rightarrow> nat" where
  "get_mtime now si = nat ((int (elapsed_time si) + int now - int (mounted_time si)) mod 2 ^ 64)"

definition mark_sit_entry_dirty :: "sit_info \<Rightarrow> nat \<Rightarrow> bool \<times> sit_info" where
  "mark_sit_entry_dirty si sn =
     (let old = test_bit sn (dirty_sentries_bitmap si);
          si = si\<lparr>dirty_sentries_bitmap := set_bit sn (dirty_sentries_bitmap si)\<rparr>
      in if \<not> old then (False, si\<lparr>dirty_sentries := add32 (dirty_sentries si) 1\<rparr>) else (True, si))"

definition set_sit_entry_type :: "sbi \<Rightarrow> nat \<Rightarrow> nat \<Rightarrow> bool \<Rightarrow> sbi" where
  "set_sit_entry_type s type sn modified =
     (let se = get_seg_entry s sn;
          s = put_seg_entry sn (se\<lparr>seg_type := type\<rparr>) s
      in if modified then s\<lparr>sit_i := snd (mark_sit_entry_dirty (sit_i s) sn)\<rparr> else s)"

text \<open>
  The bitmap part of \<open>update_sit_entry\<close>: the entry with its maps updated, whether the
  validity bit already had its new value, and the change of \<open>discard_blks\<close>.
\<close>

definition update_maps :: "seg_entry \<Rightarrow> nat \<Rightarrow> int \<Rightarrow> seg_entry \<times> bool \<times> int" where
  "update_maps se offset del =
     (if del > 0
      then let (old, cur) = f2fs_test_and_set_bit offset (cur_valid_map se);
               (oldd, dm) = f2fs_test_and_set_bit offset (discard_map se)
           in (se\<lparr>cur_valid_map := cur, discard_map := dm\<rparr>, old, if \<not> oldd then - 1 else 0)
      else let (old, cur) = f2fs_test_and_clear_bit offset (cur_valid_map se);
               (oldd, dm) = f2fs_test_and_clear_bit offset (discard_map se)
           in (se\<lparr>cur_valid_map := cur, discard_map := dm\<rparr>, \<not> old, if oldd then 1 else 0))"

definition update_sit_entry :: "nat \<Rightarrow> sbi \<Rightarrow> nat \<Rightarrow> int \<Rightarrow> sbi" where
  "update_sit_entry now s blkaddr del =
     (let sn = GET_SEGNO s blkaddr;
          se = get_seg_entry s sn;
          new_vblocks = int (valid_blocks se) + del;
          offset = GET_BLKOFF_FROM_SEG0 s blkaddr;
          s = f2fs_bug_on (drop_bit 16 new_vblocks \<noteq> 0 \<or> new_vblocks > int (blocks_per_seg s)) s;
          se = se\<lparr>valid_blocks := u16_of new_vblocks, seg_mtime := get_mtime now (sit_i s)\<rparr>;
          s = s\<lparr>sit_i := (sit_i s)\<lparr>max_mtime := seg_mtime se\<rparr>\<rparr>;
          (se, bug, dd) = update_maps se offset del;
          s = f2fs_bug_on bug s;
          s = s\<lparr>discard_blks := u32_of (int (discard_blks s) + dd)\<rparr>;
          se = (if \<not> f2fs_test_bit offset (ckpt_valid_map se)
                then se\<lparr>ckpt_valid_blocks := u16_of (int (ckpt_valid_blocks se) + del)\<rparr> else se);
          s = put_seg_entry sn se s;
          si = snd (mark_sit_entry_dirty (sit_i s) sn);
          si = si\<lparr>written_valid_blocks := u32_of (int (written_valid_blocks si) + del)\<rparr>;
          si = (if segs_per_sec s > 1
                then si\<lparr>sec_entries := (sec_entries si)[GET_SECNO s sn :=
                         u32_of (int (sec_entries si ! GET_SECNO s sn) + del)]\<rparr>
                else si)
      in s\<lparr>sit_i := si\<rparr>)"

subsection \<open>Encoding round trip\<close>

lemma SIT_VBLOCKS_MASK_mask: "SIT_VBLOCKS_MASK = mask 10"
  by (simp add: SIT_VBLOCKS_MASK_def mask_eq_exp_minus_1)

lemma pack_vblocks:
  fixes w :: u16
  assumes "v < 1024" "t < 64" "w = push_bit 10 (word_of_nat t) OR word_of_nat v"
  shows "w AND mask 10 = word_of_nat v" "drop_bit 10 (w AND NOT (mask 10)) = word_of_nat t"
proof -
  have v: "bit (word_of_nat v :: u16) n \<Longrightarrow> n < 10" for n using bit_small_nat [of v 10 n] assms(1) by simp
  have t: "bit (word_of_nat t :: u16) n \<Longrightarrow> n < 6" for n using bit_small_nat [of t 6 n] assms(2) by simp
  show "w AND mask 10 = word_of_nat v"
    by (rule bit_word_eqI) (use v in \<open>auto simp: assms(3) bit_and_iff bit_or_iff bit_push_bit_iff bit_mask_iff\<close>)
  show "drop_bit 10 (w AND NOT (mask 10)) = word_of_nat t"
  proof (rule bit_word_eqI)
    fix n
    assume "n < LENGTH(16)"
    show "bit (drop_bit 10 (w AND NOT (mask 10))) n = bit (word_of_nat t :: u16) n"
      using v [of "10 + n"] t [of n]
      by (auto simp: assms(3) bit_drop_bit_eq bit_and_iff bit_or_iff bit_push_bit_iff bit_mask_iff
          bit_not_iff)
  qed
qed

lemma unat_small_u16: "v < 65536 \<Longrightarrow> unat (word_of_nat v :: u16) = v"
  by (simp add: unat_of_nat)

lemma copy_map_full: "length src = SIT_VBLOCK_MAP_SIZE \<Longrightarrow> length dst = SIT_VBLOCK_MAP_SIZE \<Longrightarrow> copy_map dst src = src"
  by (simp add: copy_map_def)


definition sample_entry :: "nat \<Rightarrow> seg_entry" where
  "sample_entry n = \<lparr>valid_blocks = n, cur_valid_map = replicate 64 0, ckpt_valid_blocks = 0,
     ckpt_valid_map = replicate 64 0, discard_map = replicate 64 0, seg_type = 4, seg_mtime = 17\<rparr>"


text \<open>
  The current and the next copy of a SIT block alternate: flipping the bitmap bit moves the
  current address to the next address, and twice is back.
\<close>

lemma next_sit_addr_involutive:
  assumes "sit_base_addr (sit_i s) \<le> a" "a < sit_base_addr (sit_i s) + 2 * sit_blocks (sit_i s)"
  shows "next_sit_addr s (next_sit_addr s a) = a" "next_sit_addr s a \<noteq> a"
  using assms by (auto simp: next_sit_addr_def Let_def)

lemma set_to_next_sit_moves:
  assumes "SIT_BLOCK_OFFSET start < sit_blocks (sit_i s)"
    and "SIT_BLOCK_OFFSET start < 8 * length (sit_bitmap (sit_i s))"
  shows "snd (current_sit_addr (s\<lparr>sit_i := set_to_next_sit (sit_i s) start\<rparr>) start)
    = next_sit_addr s (snd (current_sit_addr s start))"
  using assms by (auto simp: current_sit_addr_def next_sit_addr_def set_to_next_sit_def Let_def bitmap_simps)

subsection \<open>The SIT invariant\<close>

text \<open>
  \<open>seg_inv bps se\<close>: the entry's block count is the number of set bits of its current map,
  and its checkpoint count the number of blocks valid now or at the last checkpoint (a block
  is reusable only when it is in neither).
\<close>

definition seg_inv :: "nat \<Rightarrow> seg_entry \<Rightarrow> bool" where
  "seg_inv bps se \<longleftrightarrow>
     8 * length (cur_valid_map se) = bps \<and> 8 * length (ckpt_valid_map se) = bps \<and>
     8 * length (discard_map se) = bps \<and> bps < 2 ^ 16 \<and>
     valid_blocks se = bit_count (\<lambda>i. f2fs_test_bit i (cur_valid_map se)) bps \<and>
     ckpt_valid_blocks se = bit_count (\<lambda>i. f2fs_test_bit i (cur_valid_map se) \<or> f2fs_test_bit i (ckpt_valid_map se)) bps"

definition section_blocks :: "seg_entry list \<Rightarrow> nat \<Rightarrow> nat \<Rightarrow> nat" where
  "section_blocks ses a n = sum_list (map (\<lambda>i. valid_blocks (ses ! i)) [a..<a + n])"

definition sit_inv :: "sbi \<Rightarrow> bool" where
  "sit_inv s \<longleftrightarrow>
     (let si = sit_i s; n = main_segments s in
      length (sentries si) = n \<and> list_all (seg_inv (blocks_per_seg s)) (sentries si) \<and>
      n * blocks_per_seg s < 2 ^ 32 \<and>
      written_valid_blocks si = section_blocks (sentries si) 0 n \<and>
      length (dirty_sentries_bitmap si) = n \<and>
      dirty_sentries si = bit_count (\<lambda>i. test_bit i (dirty_sentries_bitmap si)) n \<and>
      (segs_per_sec s > 1 \<longrightarrow>
         length (sec_entries si) * segs_per_sec s = n \<and>
         list_all (\<lambda>k. sec_entries si ! k = section_blocks (sentries si) (k * segs_per_sec s) (segs_per_sec s))
           [0..<length (sec_entries si)]))"

lemma section_blocks_update:
  assumes "i < length ses" "a + n \<le> length ses"
  shows "int (section_blocks (ses[i := se]) a n) = int (section_blocks ses a n) +
    (if a \<le> i \<and> i < a + n then int (valid_blocks se) - int (valid_blocks (ses ! i)) else 0)"
  using assms(2)
proof (induction n)
  case (Suc n)
  then show ?case using assms(1) by (auto simp: section_blocks_def nth_list_update)
qed (simp add: section_blocks_def)

lemma section_blocks_le:
  assumes "list_all (seg_inv bps) ses" "a + n \<le> length ses"
  shows "section_blocks ses a n \<le> n * bps"
  using assms(2)
proof (induction n)
  case (Suc n)
  have "valid_blocks (ses ! (a + n)) \<le> bps"
    using assms(1) Suc.prems by (simp add: list_all_length seg_inv_def bit_count_le)
  with Suc show ?case by (simp add: section_blocks_def)
qed (simp add: section_blocks_def)

lemma section_blocks_ge:
  assumes "a \<le> i" "i < a + n"
  shows "valid_blocks (ses ! i) \<le> section_blocks ses a n"
proof -
  have "valid_blocks (ses ! i) \<in> set (map (\<lambda>i. valid_blocks (ses ! i)) [a..<a + n])" using assms by simp
  from member_le_sum_list [OF this] show ?thesis by (simp add: section_blocks_def)
qed

lemma u16_of_small [simp]: "0 \<le> x \<Longrightarrow> x < 2 ^ 16 \<Longrightarrow> u16_of x = nat x"
  by (simp add: u16_of_def)

lemma u32_of_small [simp]: "0 \<le> x \<Longrightarrow> x < 2 ^ 32 \<Longrightarrow> u32_of x = nat x"
  by (simp add: u32_of_def)

text \<open>The entry after a legal update of block \<open>off\<close>: allocation of a free block, release of a valid one.\<close>

definition legal_change :: "seg_entry \<Rightarrow> nat \<Rightarrow> int \<Rightarrow> bool" where
  "legal_change se off del \<longleftrightarrow>
     del = 1 \<and> \<not> f2fs_test_bit off (cur_valid_map se) \<or> del = - 1 \<and> f2fs_test_bit off (cur_valid_map se)"

definition changed_entry :: "nat \<Rightarrow> seg_entry \<Rightarrow> nat \<Rightarrow> int \<Rightarrow> seg_entry" where
  "changed_entry now se off del =
     (let f = (if del > 0 then f2fs_set_bit off else f2fs_clear_bit off) in
      se\<lparr>valid_blocks := nat (int (valid_blocks se) + del), seg_mtime := now,
         cur_valid_map := f (cur_valid_map se), discard_map := f (discard_map se),
         ckpt_valid_blocks := (if f2fs_test_bit off (ckpt_valid_map se) then ckpt_valid_blocks se
                               else nat (int (ckpt_valid_blocks se) + del))\<rparr>)"

lemma changed_entry_seg_inv:
  assumes "seg_inv bps se" "off < bps" "legal_change se off del"
  shows "seg_inv bps (changed_entry t se off del)"
    and "int (valid_blocks (changed_entry t se off del)) = int (valid_blocks se) + del"
    and "int (valid_blocks se) + del \<le> int bps"
    and "0 \<le> int (valid_blocks se) + del"
    and "\<not> f2fs_test_bit off (ckpt_valid_map se) \<Longrightarrow>
      0 \<le> int (ckpt_valid_blocks se) + del \<and> int (ckpt_valid_blocks se) + del \<le> int bps"
proof -
  let ?cur = "cur_valid_map se" and ?ck = "ckpt_valid_map se"
  let ?or = "\<lambda>m i. f2fs_test_bit i m \<or> f2fs_test_bit i ?ck"
  have len: "8 * length ?cur = bps" "8 * length ?ck = bps" "8 * length (discard_map se) = bps" "bps < 2 ^ 16"
    and vb: "valid_blocks se = bit_count (\<lambda>i. f2fs_test_bit i ?cur) bps"
    and cb: "ckpt_valid_blocks se = bit_count (?or ?cur) bps"
    using assms(1) by (auto simp: seg_inv_def)
  have off: "off < 8 * length ?cur" using len assms(2) by simp
  note le = bit_count_le [of _ bps]
  have "seg_inv bps (changed_entry t se off del)
    \<and> int (valid_blocks (changed_entry t se off del)) = int (valid_blocks se) + del
    \<and> int (valid_blocks se) + del \<le> int bps \<and> 0 \<le> int (valid_blocks se) + del
    \<and> (\<not> f2fs_test_bit off ?ck \<longrightarrow>
      0 \<le> int (ckpt_valid_blocks se) + del \<and> int (ckpt_valid_blocks se) + del \<le> int bps)"
  proof (cases "del = 1")
    case True
    then have n: "\<not> f2fs_test_bit off ?cur" using assms(3) by (simp add: legal_change_def)
    have c: "bit_count (\<lambda>i. f2fs_test_bit i (f2fs_set_bit off ?cur)) bps = Suc (valid_blocks se)"
      unfolding vb by (rule fb.count_put [OF assms(2) _ n]) (simp add: len)
    have d: "bit_count (?or (f2fs_set_bit off ?cur)) bps =
      (if f2fs_test_bit off ?ck then ckpt_valid_blocks se else Suc (ckpt_valid_blocks se))"
    proof (cases "f2fs_test_bit off ?ck")
      case t: True
      show ?thesis unfolding cb using t off by (auto intro!: bit_count_cong simp: bitmap_simps)
    next
      case f: False
      have "bit_count (?or (f2fs_set_bit off ?cur)) bps = Suc (bit_count (?or ?cur) bps)"
        by (rule bit_count_insert [OF assms(2)]) (use n f off in \<open>auto simp: bitmap_simps\<close>)
      with f show ?thesis by (simp add: cb)
    qed
    show ?thesis
      using len le [of "\<lambda>i. f2fs_test_bit i (f2fs_set_bit off ?cur)"] le [of "?or (f2fs_set_bit off ?cur)"]
      by (auto simp: True changed_entry_def Let_def seg_inv_def c d)
  next
    case False
    then have del: "del = - 1" and n: "f2fs_test_bit off ?cur" using assms(3) by (auto simp: legal_change_def)
    have c: "Suc (bit_count (\<lambda>i. f2fs_test_bit i (f2fs_clear_bit off ?cur)) bps) = valid_blocks se"
      unfolding vb by (rule fb.count_clr [OF assms(2) _ n]) (simp add: len)
    have d: "(if f2fs_test_bit off ?ck then 0 else 1) + bit_count (?or (f2fs_clear_bit off ?cur)) bps
      = ckpt_valid_blocks se"
    proof (cases "f2fs_test_bit off ?ck")
      case t: True
      show ?thesis unfolding cb using t off by (auto intro!: bit_count_cong simp: bitmap_simps)
    next
      case f: False
      have "Suc (bit_count (?or (f2fs_clear_bit off ?cur)) bps) = bit_count (?or ?cur) bps"
        by (rule bit_count_remove [OF assms(2)]) (use n f off in \<open>auto simp: bitmap_simps\<close>)
      with f show ?thesis by (simp add: cb)
    qed
    show ?thesis
      using c d len le [of "\<lambda>i. f2fs_test_bit i ?cur"] le [of "?or ?cur"] vb cb
      by (auto simp: del changed_entry_def Let_def seg_inv_def split: if_splits)
  qed
  then show "seg_inv bps (changed_entry t se off del)"
    "int (valid_blocks (changed_entry t se off del)) = int (valid_blocks se) + del"
    "int (valid_blocks se) + del \<le> int bps" "0 \<le> int (valid_blocks se) + del"
    "\<not> f2fs_test_bit off ?ck \<Longrightarrow>
      0 \<le> int (ckpt_valid_blocks se) + del \<and> int (ckpt_valid_blocks se) + del \<le> int bps"
    by blast+
qed

lemma mark_sit_entry_dirty_fields [simp]:
  "sentries (snd (mark_sit_entry_dirty si sn)) = sentries si"
  "sec_entries (snd (mark_sit_entry_dirty si sn)) = sec_entries si"
  "written_valid_blocks (snd (mark_sit_entry_dirty si sn)) = written_valid_blocks si"
  "dirty_sentries_bitmap (snd (mark_sit_entry_dirty si sn)) = set_bit sn (dirty_sentries_bitmap si)"
  "dirty_sentries (snd (mark_sit_entry_dirty si sn)) =
     (if test_bit sn (dirty_sentries_bitmap si) then dirty_sentries si else add32 (dirty_sentries si) 1)"
  by (simp_all add: mark_sit_entry_dirty_def Let_def)

text \<open>What \<open>update_sit_entry\<close> may change: the SIT, the count of discardable blocks and the fsck flag.\<close>

lemma update_sit_entry_frame:
  "update_sit_entry now s a del = s\<lparr>sit_i := sit_i (update_sit_entry now s a del),
     discard_blks := discard_blks (update_sit_entry now s a del),
     need_fsck := need_fsck (update_sit_entry now s a del)\<rparr>"
  by (simp add: update_sit_entry_def Let_def f2fs_bug_on_eq put_seg_entry_def del: if_split split: prod.split)

lemma update_sit_entry_keeps [simp]:
  "free_i (update_sit_entry now s a del) = free_i s"
  "dirty_i (update_sit_entry now s a del) = dirty_i s"
  "curseg_array (update_sit_entry now s a del) = curseg_array s"
  "seg0_blkaddr (update_sit_entry now s a del) = seg0_blkaddr s"
  "main_blkaddr (update_sit_entry now s a del) = main_blkaddr s"
  "ssa_blkaddr (update_sit_entry now s a del) = ssa_blkaddr s"
  "segment_count (update_sit_entry now s a del) = segment_count s"
  "main_segments (update_sit_entry now s a del) = main_segments s"
  "reserved_segments (update_sit_entry now s a del) = reserved_segments s"
  "ovp_segments (update_sit_entry now s a del) = ovp_segments s"
  "rec_prefree_segments (update_sit_entry now s a del) = rec_prefree_segments s"
  "total_sections (update_sit_entry now s a del) = total_sections s"
  "log_blocks_per_seg (update_sit_entry now s a del) = log_blocks_per_seg s"
  "segs_per_sec (update_sit_entry now s a del) = segs_per_sec s"
  "secs_per_zone (update_sit_entry now s a del) = secs_per_zone s"
  "nr_mlog (update_sit_entry now s a del) = nr_mlog s"
  "next_mlog (update_sit_entry now s a del) = next_mlog s"
  "total_valid_block_count (update_sit_entry now s a del) = total_valid_block_count s"
  "user_block_count (update_sit_entry now s a del) = user_block_count s"
  "por_doing (update_sit_entry now s a del) = por_doing s"
  "opt_discard (update_sit_entry now s a del) = opt_discard s"
  "opt_noheap (update_sit_entry now s a del) = opt_noheap s"
  "cur_victim_sec (update_sit_entry now s a del) = cur_victim_sec s"
  "ssa_area (update_sit_entry now s a del) = ssa_area s"
  "last_victim (update_sit_entry now s a del) = last_victim s"
  "max_victim_search (update_sit_entry now s a del) = max_victim_search s"
  "nr_discards (update_sit_entry now s a del) = nr_discards s"
  "max_discards (update_sit_entry now s a del) = max_discards s"
  "discard_list (update_sit_entry now s a del) = discard_list s"
  "discards_issued (update_sit_entry now s a del) = discards_issued s"
  by (subst update_sit_entry_frame, simp)+

lemma update_sit_entry_legal:
  assumes inv: "seg_inv (blocks_per_seg s) (get_seg_entry s sn)"
    and sn: "GET_SEGNO s a = sn" "GET_BLKOFF_FROM_SEG0 s a = off" and off: "off < blocks_per_seg s"
    and legal: "legal_change (get_seg_entry s sn) off del"
    and r: "r = update_sit_entry now s a del"
  shows "sentries (sit_i r) = (sentries (sit_i s))[sn :=
      changed_entry (get_mtime now (sit_i s)) (get_seg_entry s sn) off del]"
    and "need_fsck r = need_fsck s"
    and "written_valid_blocks (sit_i r) = u32_of (int (written_valid_blocks (sit_i s)) + del)"
    and "sec_entries (sit_i r) = (if segs_per_sec s > 1 then (sec_entries (sit_i s))[GET_SECNO s sn :=
      u32_of (int (sec_entries (sit_i s) ! GET_SECNO s sn) + del)] else sec_entries (sit_i s))"
    and "dirty_sentries_bitmap (sit_i r) = set_bit sn (dirty_sentries_bitmap (sit_i s))"
    and "dirty_sentries (sit_i r) = (if test_bit sn (dirty_sentries_bitmap (sit_i s))
      then dirty_sentries (sit_i s) else add32 (dirty_sentries (sit_i s)) 1)"
proof -
  let ?se = "get_seg_entry s sn" and ?b = "blocks_per_seg s"
  note c = changed_entry_seg_inv [OF inv off legal]
  have b: "?b < 2 ^ 16" using inv by (simp add: seg_inv_def)
  then have bi: "int ?b < int (2 ^ 16)" by (simp only: of_nat_less_iff)
  have v: "0 \<le> int (valid_blocks ?se) + del" "int (valid_blocks ?se) + del < 65536"
    using c(3,4) bi by simp_all
  then have d: "drop_bit 16 (int (valid_blocks ?se) + del) = 0" by (simp add: drop_bit_eq_div)
  have ck: "\<not> f2fs_test_bit off (ckpt_valid_map ?se) \<Longrightarrow>
      u16_of (int (ckpt_valid_blocks ?se) + del) = nat (int (ckpt_valid_blocks ?se) + del)"
    using c(5) bi by simp
  obtain dd where um: "update_maps (?se\<lparr>valid_blocks := n, seg_mtime := t\<rparr>) off del =
      (let f = (if del > 0 then f2fs_set_bit off else f2fs_clear_bit off)
       in (?se\<lparr>valid_blocks := n, seg_mtime := t, cur_valid_map := f (cur_valid_map ?se),
           discard_map := f (discard_map ?se)\<rparr>, False, dd))" for n t
    using legal by (auto simp: update_maps_def Let_def legal_change_def)
  have nb: "(drop_bit 16 (int (valid_blocks ?se) + del) \<noteq> 0 \<or> int (valid_blocks ?se) + del > int ?b) = False"
    using d c(3) by simp
  note eq = r update_sit_entry_def Let_def sn um f2fs_bug_on_eq nb put_seg_entry_def
    prod.case simp_thms
  show "sentries (sit_i r) = (sentries (sit_i s))[sn := changed_entry (get_mtime now (sit_i s)) ?se off del]"
    using v ck unfolding eq by (simp add: changed_entry_def Let_def)
  show "need_fsck r = need_fsck s" unfolding eq by simp
  show "written_valid_blocks (sit_i r) = u32_of (int (written_valid_blocks (sit_i s)) + del)"
    unfolding eq by simp
  show "sec_entries (sit_i r) = (if segs_per_sec s > 1 then (sec_entries (sit_i s))[GET_SECNO s sn :=
      u32_of (int (sec_entries (sit_i s) ! GET_SECNO s sn) + del)] else sec_entries (sit_i s))"
    unfolding eq GET_SECNO_def by simp
  show "dirty_sentries_bitmap (sit_i r) = set_bit sn (dirty_sentries_bitmap (sit_i s))"
    unfolding eq by simp
  show "dirty_sentries (sit_i r) = (if test_bit sn (dirty_sentries_bitmap (sit_i s))
      then dirty_sentries (sit_i s) else add32 (dirty_sentries (sit_i s)) 1)"
    unfolding eq by simp
qed

lemma sit_invD:
  assumes "sit_inv s"
  shows "length (sentries (sit_i s)) = main_segments s"
    and "list_all (seg_inv (blocks_per_seg s)) (sentries (sit_i s))"
    and "sn < main_segments s \<Longrightarrow> seg_inv (blocks_per_seg s) (get_seg_entry s sn)"
    and "sn < main_segments s \<Longrightarrow> valid_blocks (get_seg_entry s sn) \<le> blocks_per_seg s"
  using assms by (auto simp: sit_inv_def Let_def list_all_length get_seg_entry_def seg_inv_def bit_count_le)

lemma counter_add:
  assumes "int c' = int c + del" "c' < 2 ^ 32"
  shows "u32_of (int c + del) = c'"
  using assms by (simp flip: assms(1))

lemma update_sit_entry_sit_inv:
  assumes inv: "sit_inv s" and sn: "GET_SEGNO s a = sn" "GET_BLKOFF_FROM_SEG0 s a = off"
    and b: "off < blocks_per_seg s" "sn < main_segments s"
    and legal: "legal_change (get_seg_entry s sn) off del"
  shows "sit_inv (update_sit_entry now s a del)"
proof -
  define r where r: "r = update_sit_entry now s a del"
  let ?e = "changed_entry (get_mtime now (sit_i s)) (get_seg_entry s sn) off del"
  let ?ses = "sentries (sit_i s)" and ?q = "segs_per_sec s"
  have fr: "log_blocks_per_seg r = log_blocks_per_seg s" "main_segments r = main_segments s" "segs_per_sec r = ?q"
    unfolding r by simp_all
  note e = sit_invD(3) [OF inv b(2)]
  note c = changed_entry_seg_inv(1,2) [OF e b(1) legal, of "get_mtime now (sit_i s)"]
  note f = update_sit_entry_legal [OF e sn b(1) legal r]
  have n: "length ?ses = main_segments s" and sn': "sn < length ?ses" using sit_invD(1) [OF inv] b(2) by simp_all
  have la: "list_all (seg_inv (blocks_per_seg s)) (?ses[sn := ?e])"
    using sit_invD(2) [OF inv] c(1) sn' by (auto simp: list_all_length nth_list_update)
  have sec: "int (section_blocks (?ses[sn := ?e]) x m) = int (section_blocks ?ses x m) + (if x \<le> sn \<and> sn < x + m then del else 0)"
    "section_blocks (?ses[sn := ?e]) x m \<le> m * blocks_per_seg s"
    if "x + m \<le> main_segments s" for x m
    using section_blocks_update [OF sn', of x m ?e] section_blocks_le [OF la, of x m] that n c(2)
    by (simp_all add: get_seg_entry_def)
  have small: "main_segments s * blocks_per_seg s < 2 ^ 32" using inv by (simp add: sit_inv_def Let_def)
  have w: "written_valid_blocks (sit_i r) = section_blocks (?ses[sn := ?e]) 0 (main_segments s)"
    unfolding f(3) using inv sec [of 0 "main_segments s"] small b(2)
    by (intro counter_add) (simp_all add: sit_inv_def Let_def)
  have d: "dirty_sentries (sit_i r) = bit_count (\<lambda>i. test_bit i (dirty_sentries_bitmap (sit_i r))) (main_segments s)"
  proof -
    let ?m = "dirty_sentries_bitmap (sit_i s)" and ?n = "main_segments s"
    have m: "length ?m = ?n" "dirty_sentries (sit_i s) = bit_count (\<lambda>i. test_bit i ?m) ?n"
      using inv by (simp_all add: sit_inv_def Let_def)
    have "?n * 1 \<le> ?n * blocks_per_seg s" by (rule mult_le_mono2) simp
    with small have lt: "?n < 2 ^ 32" by linarith
    show ?thesis
    proof (cases "test_bit sn ?m")
      case True
      with f(5,6) show ?thesis using kb.count_put_idem [OF b(2) _ True] m by simp
    next
      case False
      with f(5,6) show ?thesis
        using kb.count_put [OF b(2) _ False] bit_count_le [of "\<lambda>i. test_bit i (set_bit sn ?m)" ?n] m lt by simp
    qed
  qed
  have secs: "length (sec_entries (sit_i r)) * ?q = main_segments s \<and>
    list_all (\<lambda>k. sec_entries (sit_i r) ! k = section_blocks (?ses[sn := ?e]) (k * ?q) ?q) [0..<length (sec_entries (sit_i r))]"
    if q: "1 < ?q"
  proof -
    let ?S = "sec_entries (sit_i s)"
    have S: "length ?S * ?q = main_segments s"
      "k < length ?S \<Longrightarrow> ?S ! k = section_blocks ?ses (k * ?q) ?q" for k
      using inv q by (simp_all add: sit_inv_def Let_def list_all_length)
    have "sec_entries (sit_i r) ! k = section_blocks (?ses[sn := ?e]) (k * ?q) ?q" if k: "k < length ?S" for k
    proof -
      have "Suc k * ?q \<le> length ?S * ?q" using k by (intro mult_le_mono1) simp
      with S(1) have le: "k * ?q + ?q \<le> main_segments s" by simp
      have iff: "k * ?q \<le> sn \<and> sn < k * ?q + ?q \<longleftrightarrow> k = sn div ?q"
        using q section_unique [of ?q k sn] section_bounds [of ?q sn] by auto
      have "?q * blocks_per_seg s \<le> main_segments s * blocks_per_seg s" using le by (intro mult_le_mono1) simp
      then have lt: "section_blocks (?ses[sn := ?e]) (k * ?q) ?q < 2 ^ 32"
        using sec(2) [OF le] small by linarith
      show ?thesis
        using sec(1) [OF le, unfolded iff] S(2) [OF k] k q counter_add [OF _ lt, of "?S ! k" del]
        by (cases "k = sn div ?q") (auto simp: f(4) GET_SECNO_def)
    qed
    then show ?thesis using S(1) q by (simp add: list_all_length f(4))
  qed
  show ?thesis
    using w d secs la n small inv unfolding r [symmetric]
    by (simp add: sit_inv_def Let_def f(1,5) fr)
qed

text \<open>
  C5: allocating a free block or releasing a valid one keeps the whole segment information
  table consistent (every counter is the population count it caches, per segment, per section
  and in total, and the dirty-entry counter matches its bitmap), flips exactly the validity
  bit of that block, and never asks for a file system check.
\<close>
theorem update_sit_entry_correct:
  assumes "wf_layout s" "sit_inv s" "sn < main_segments s" "off < blocks_per_seg s"
    and "legal_change (get_seg_entry s sn) off del"
    and "r = update_sit_entry now s (START_BLOCK s sn + off) del"
  shows "sit_inv r \<and> need_fsck r = need_fsck s
    \<and> (\<forall>n j. f2fs_test_bit j (cur_valid_map (get_seg_entry r n)) =
         (if n = sn \<and> j = off then del = 1 else f2fs_test_bit j (cur_valid_map (get_seg_entry s n))))"
proof -
  note a = segno_of_built [OF assms(1,3,4), THEN conjunct1] segno_of_built [OF assms(1,3,4), THEN conjunct2]
  note e = sit_invD(3) [OF assms(2,3)]
  note f = update_sit_entry_legal [OF e a assms(4,5,6)]
  have "off < 8 * length (cur_valid_map (get_seg_entry s sn))" using e assms(4) by (simp add: seg_inv_def)
  then have "f2fs_test_bit j (cur_valid_map (changed_entry t (get_seg_entry s sn) off del)) =
      (if j = off then del = 1 else f2fs_test_bit j (cur_valid_map (get_seg_entry s sn)))" for j t
    using assms(5) by (auto simp: changed_entry_def Let_def legal_change_def bitmap_simps)
  moreover have "sn < length (sentries (sit_i s))" using sit_invD(1) [OF assms(2)] assms(3) by simp
  ultimately show ?thesis
    using update_sit_entry_sit_inv [OF assms(2) a assms(4,3,5), of now] f(2)
    unfolding assms(6) [symmetric] by (simp add: get_seg_entry_def f(1) nth_list_update)
qed

lemma sit_inv_small_volume: "sit_inv small_volume"
  by code_simp

lemma small_volume_sizes [simp]: "main_segments small_volume = 16" "log_blocks_per_seg small_volume = 4"
  by (simp_all add: small_volume_def)

theorem update_sit_entry_correct_witness:
  "sit_inv (update_sit_entry 5 small_volume (START_BLOCK small_volume 3 + 9) 1)
   \<and> f2fs_test_bit 9 (cur_valid_map (get_seg_entry (update_sit_entry 5 small_volume (START_BLOCK small_volume 3 + 9) 1) 3))"
proof -
  have "legal_change (get_seg_entry small_volume 3) 9 1" by code_simp
  from update_sit_entry_correct [OF wf_layout_small_volume sit_inv_small_volume _ _ this refl]
  show ?thesis by simp
qed

text \<open>
  C8: allocating a block that is already valid, or releasing one that is not, marks the file
  system for checking.
\<close>
theorem update_sit_entry_detects_misuse:
  assumes "wf_layout s" "sit_inv s" "sn < main_segments s" "off < blocks_per_seg s"
    and "del = 1 \<and> f2fs_test_bit off (cur_valid_map (get_seg_entry s sn)) \<or>
         del = - 1 \<and> \<not> f2fs_test_bit off (cur_valid_map (get_seg_entry s sn))"
  shows "need_fsck (update_sit_entry now s (START_BLOCK s sn + off) del)"
proof -
  note a = segno_of_built [OF assms(1,3,4), THEN conjunct1] segno_of_built [OF assms(1,3,4), THEN conjunct2]
  have "\<exists>se' dd. update_maps (get_seg_entry s sn\<lparr>valid_blocks := n, seg_mtime := t\<rparr>) off del = (se', True, dd)" for n t
    using assms(5) by (auto simp: update_maps_def Let_def)
  then show ?thesis
    by (simp add: update_sit_entry_def Let_def a f2fs_bug_on_eq put_seg_entry_def split: prod.split)
       (metis fst_conv snd_conv)
qed

theorem update_sit_entry_detects_misuse_witness:
  "\<not> need_fsck small_volume \<and> need_fsck (update_sit_entry 5 small_volume (START_BLOCK small_volume 3 + 9) (- 1))"
proof -
  have "\<not> f2fs_test_bit 9 (cur_valid_map (get_seg_entry small_volume 3))" "\<not> need_fsck small_volume" by code_simp+
  with update_sit_entry_detects_misuse [OF wf_layout_small_volume sit_inv_small_volume, of 3 9 "- 1" 5]
  show ?thesis by simp
qed

end
