(* ===== verification/Dirty.thy ===== *)
theory Dirty
  imports Sit
begin

section \<open>Dirty and prefree segment lists\<close>

text \<open>
  \<open>struct dirty_seglist_info\<close> and the functions of \<open>Max/segment.c\<close> that file a segment
  under its kind: \<open>__locate_dirty_segment\<close>, \<open>__remove_dirty_segment\<close>,
  \<open>locate_dirty_segment\<close>, \<open>refresh_sit_entry\<close>, \<open>invalidate_blocks\<close>, and what a
  checkpoint does with the prefree segments. The block device is the log
  \<open>discards_issued\<close> of the requests sent to it.
\<close>

subsection \<open>Current segments\<close>

definition IS_CURSEG :: "sbi \<Rightarrow> nat \<Rightarrow> bool" where
  "IS_CURSEG s seg =
     (\<exists>i \<in> set [0..<nr_mlog s]. \<exists>j \<in> set [0..<NR_CURSEG_TYPE].
        seg = segno (curseg_array s ! (j + i * NR_CURSEG_TYPE)))"

definition IS_CURSEC :: "sbi \<Rightarrow> nat \<Rightarrow> bool" where
  "IS_CURSEC s secno =
     (\<exists>i \<in> set [0..<nr_mlog s]. \<exists>j \<in> set [0..<NR_CURSEG_TYPE].
        secno = segno (curseg_array s ! (j + i * NR_CURSEG_TYPE)) div segs_per_sec s)"

definition sec_usage_check :: "sbi \<Rightarrow> nat \<Rightarrow> bool" where
  "sec_usage_check s secno = (IS_CURSEC s secno \<or> cur_victim_sec s = secno)"

subsection \<open>Filing a segment\<close>

definition dirty_insert :: "nat \<Rightarrow> nat \<Rightarrow> dirty_seglist_info \<Rightarrow> dirty_seglist_info" where
  "dirty_insert t sn d =
     (let old = test_bit sn (dirty_segmap d ! t);
          d = d\<lparr>dirty_segmap := (dirty_segmap d)[t := set_bit sn (dirty_segmap d ! t)]\<rparr>
      in if \<not> old then d\<lparr>nr_dirty := (nr_dirty d)[t := nr_dirty d ! t + 1]\<rparr> else d)"

definition dirty_delete :: "nat \<Rightarrow> nat \<Rightarrow> dirty_seglist_info \<Rightarrow> dirty_seglist_info" where
  "dirty_delete t sn d =
     (let old = test_bit sn (dirty_segmap d ! t);
          d = d\<lparr>dirty_segmap := (dirty_segmap d)[t := clear_bit sn (dirty_segmap d ! t)]\<rparr>
      in if old then d\<lparr>nr_dirty := (nr_dirty d)[t := nr_dirty d ! t - 1]\<rparr> else d)"

definition locate_dirty :: "sbi \<Rightarrow> nat \<Rightarrow> nat \<Rightarrow> sbi" where
  "locate_dirty s sn dirty_type =
     (if IS_CURSEG s sn then s
      else let s = s\<lparr>dirty_i := dirty_insert dirty_type sn (dirty_i s)\<rparr>
           in if dirty_type = DIRTY
              then let t = seg_type (get_seg_entry s sn)
                   in if t \<ge> DIRTY then f2fs_bug_on True s
                      else s\<lparr>dirty_i := dirty_insert t sn (dirty_i s)\<rparr>
              else s)"

definition remove_dirty :: "sbi \<Rightarrow> nat \<Rightarrow> nat \<Rightarrow> sbi" where
  "remove_dirty s sn dirty_type =
     (let s = s\<lparr>dirty_i := dirty_delete dirty_type sn (dirty_i s)\<rparr>
      in if dirty_type = DIRTY
         then let t = seg_type (get_seg_entry s sn);
                  s = s\<lparr>dirty_i := dirty_delete t sn (dirty_i s)\<rparr>
              in if get_valid_blocks s sn (segs_per_sec s) = 0
                 then s\<lparr>dirty_i := (dirty_i s)\<lparr>victim_secmap :=
                          clear_bit (GET_SECNO s sn) (victim_secmap (dirty_i s))\<rparr>\<rparr>
                 else s
         else s)"

definition locate_dirty_segment :: "sbi \<Rightarrow> nat \<Rightarrow> sbi" where
  "locate_dirty_segment s sn =
     (if sn = NULL_SEGNO \<or> IS_CURSEG s sn then s
      else let valid_blocks = get_valid_blocks s sn 0
           in if valid_blocks = 0 then remove_dirty (locate_dirty s sn PRE) sn DIRTY
              else if valid_blocks < blocks_per_seg s then locate_dirty s sn DIRTY
              else remove_dirty s sn DIRTY)"

definition refresh_sit_entry :: "nat \<Rightarrow> sbi \<Rightarrow> nat \<Rightarrow> nat \<Rightarrow> sbi" where
  "refresh_sit_entry now s old_addr new_addr =
     (let s = update_sit_entry now s new_addr 1;
          s = (if GET_SEGNO s old_addr \<noteq> NULL_SEGNO then update_sit_entry now s old_addr (- 1) else s);
          s = locate_dirty_segment s (GET_SEGNO s old_addr)
      in locate_dirty_segment s (GET_SEGNO s new_addr))"

definition invalidate_blocks :: "nat \<Rightarrow> sbi \<Rightarrow> nat \<Rightarrow> sbi" where
  "invalidate_blocks now s addr =
     (let sn = GET_SEGNO s addr;
          s = f2fs_bug_on (addr = NULL_ADDR) s
      in if addr = NEW_ADDR then s
         else locate_dirty_segment (update_sit_entry now s addr (- 1)) sn)"

subsection \<open>Discards\<close>

record cp_control =
  reason :: cp_reason
  trim_start :: nat
  trim_end :: nat
  trim_minlen :: nat
  trimmed :: nat

definition discard_block :: "nat \<Rightarrow> sbi \<Rightarrow> sbi" where
  "discard_block i s =
     (let sn = GET_SEGNO s i; se = get_seg_entry s sn;
          (old, m) = f2fs_test_and_set_bit (GET_BLKOFF_FROM_SEG0 s i) (discard_map se);
          s = put_seg_entry sn (se\<lparr>discard_map := m\<rparr>) s
      in if \<not> old then s\<lparr>discard_blks := sub32 (discard_blks s) 1\<rparr> else s)"

definition f2fs_issue_discard :: "sbi \<Rightarrow> nat \<Rightarrow> nat \<Rightarrow> sbi" where
  "f2fs_issue_discard s blkstart blklen =
     (let s = fold discard_block [blkstart..<blkstart + blklen] s
      in s\<lparr>discards_issued := discards_issued s @ [(blkstart, blklen)]\<rparr>)"

definition add_discard_entry :: "sbi \<Rightarrow> nat \<Rightarrow> nat \<Rightarrow> nat \<Rightarrow> sbi" where
  "add_discard_entry s tstart st en =
     (let head = discard_list s; addr = START_BLOCK s tstart + st;
          head = (if head \<noteq> [] \<and> addr = fst (last head) + snd (last head)
                  then butlast head @ [(fst (last head), snd (last head) + (en - st))]
                  else head @ [(addr, en - st)])
      in s\<lparr>discard_list := head, nr_discards := nr_discards s + int (en - st)\<rparr>)"

lemma rev_next_bit_lower: "rev_next_bit m sz i < sz \<Longrightarrow> i \<le> rev_next_bit m sz i"
  using first_from_lower [of i sz "\<lambda>j. f2fs_test_bit j m"] first_from_ge [of sz i "\<lambda>j. f2fs_test_bit j m"]
  by (cases "i \<le> sz") (auto simp: rev_next_bit_def find_rev_next_bit_correct split: if_splits)

lemma rev_next_zero_bit_lower: "i < sz \<Longrightarrow> Suc i \<le> rev_next_zero_bit m sz (Suc i)"
  using first_from_lower [of "Suc i" sz "\<lambda>j. \<not> f2fs_test_bit j m"]
  by (auto simp: rev_next_zero_bit_def find_rev_next_zero_bit_eq)

function add_discard_loop :: "bool \<Rightarrow> nat \<Rightarrow> bytemap \<Rightarrow> nat \<Rightarrow> sbi \<Rightarrow> nat \<Rightarrow> sbi" where
  "add_discard_loop force tstart dmap max_blocks s pos =
     (if force \<or> nr_discards s \<le> max_discards s
      then let st = rev_next_bit dmap max_blocks pos
           in if st \<ge> max_blocks then s
              else let en = rev_next_zero_bit dmap max_blocks (Suc st)
                   in add_discard_loop force tstart dmap max_blocks (add_discard_entry s tstart st en) (Suc en)
      else s)"
  by pat_completeness auto
termination
proof (relation "measure (\<lambda>(force, tstart, dmap, mx, s, pos). mx - pos)", goal_cases)
  case (2 force tstart dmap mx s pos st en)
  then have "pos \<le> st" "Suc st \<le> en" "st < mx"
    using rev_next_bit_lower [of dmap mx pos] rev_next_zero_bit_lower [of st mx dmap] by auto
  then show ?case by simp
qed simp

definition add_discard_addrs :: "sbi \<Rightarrow> cp_control \<Rightarrow> sbi" where
  "add_discard_addrs s cpc =
     (let se = get_seg_entry s (trim_start cpc);
          force = (reason cpc = CP_DISCARD)
      in if valid_blocks se = blocks_per_seg s then s
         else if \<not> force \<and> (\<not> opt_discard s \<or> valid_blocks se = 0 \<or> nr_discards s \<ge> max_discards s) then s
         else let dmap = map (\<lambda>i. let cur = cur_valid_map se ! i; ckpt = ckpt_valid_map se ! i;
                                      disc = discard_map se ! i
                                  in if force then NOT ckpt AND NOT disc else (cur XOR ckpt) AND ckpt)
                           [0..<length (cur_valid_map se)]
              in add_discard_loop force (trim_start cpc) dmap (blocks_per_seg s) s 0)"

definition release_discard_addrs :: "sbi \<Rightarrow> sbi" where
  "release_discard_addrs s = s\<lparr>discard_list := []\<rparr>"

subsection \<open>Prefree segments at a checkpoint\<close>

definition set_prefree_as_free_segments :: "sbi \<Rightarrow> sbi" where
  "set_prefree_as_free_segments s =
     fold (\<lambda>sn s. s\<lparr>free_i := set_test_and_free (segs_per_sec s) (free_i s) sn\<rparr>)
       (filter (\<lambda>sn. test_bit sn (dirty_segmap (dirty_i s) ! PRE)) [0..<main_segments s]) s"

definition clear_prefree_run :: "nat \<Rightarrow> nat \<Rightarrow> sbi \<Rightarrow> sbi" where
  "clear_prefree_run st en s =
     (let d = dirty_i s;
          m = fold clear_bit [st..<en] (dirty_segmap d ! PRE);
          s = s\<lparr>dirty_i := d\<lparr>dirty_segmap := (dirty_segmap d)[PRE := m],
                             nr_dirty := (nr_dirty d)[PRE := nr_dirty d ! PRE - int (en - st)]\<rparr>\<rparr>
      in if \<not> opt_discard s then s
         else f2fs_issue_discard s (START_BLOCK s st) ((en - st) * 2 ^ log_blocks_per_seg s))"

function clear_prefree_loop :: "sbi \<Rightarrow> nat \<Rightarrow> sbi" where
  "clear_prefree_loop s pos =
     (let m = dirty_segmap (dirty_i s) ! PRE; st = find_next_bit m (main_segments s) pos
      in if st \<ge> main_segments s then s
         else let en = find_next_zero_bit m (main_segments s) (Suc st)
              in clear_prefree_loop (clear_prefree_run st en s) (Suc en))"
  by pat_completeness auto

fun send_small_discards :: "(nat \<times> nat) list \<Rightarrow> sbi \<Rightarrow> cp_control \<Rightarrow> sbi \<times> cp_control" where
  "send_small_discards [] s cpc = (s, cpc)"
| "send_small_discards ((blkaddr, len) # es) s cpc =
     (let skip = (reason cpc = CP_DISCARD \<and> len < trim_minlen cpc);
          (s, cpc) = (if skip then (s, cpc)
                      else (f2fs_issue_discard s blkaddr len, cpc\<lparr>trimmed := trimmed cpc + len\<rparr>))
      in send_small_discards es (s\<lparr>discard_list := es, nr_discards := nr_discards s - int len\<rparr>) cpc)"

lemma main_segments_put_seg_entry [simp]: "main_segments (put_seg_entry sn se s) = main_segments s"
  by (simp add: put_seg_entry_def)

lemma main_segments_discard_block [simp]: "main_segments (discard_block i s) = main_segments s"
  by (simp add: discard_block_def Let_def)

lemma main_segments_fold_discard [simp]: "main_segments (fold discard_block xs s) = main_segments s"
  by (induction xs arbitrary: s) simp_all

lemma main_segments_clear_prefree_run [simp]: "main_segments (clear_prefree_run st en s) = main_segments s"
  by (simp add: clear_prefree_run_def f2fs_issue_discard_def Let_def)

termination clear_prefree_loop
proof (relation "measure (\<lambda>(s, pos). main_segments s - pos)", goal_cases)
  case (2 s pos m st en)
  have "pos \<le> st" "Suc st \<le> en" "st < main_segments s"
    using 2 first_from_lower [of pos "main_segments s" "\<lambda>j. test_bit j m"]
      first_from_ge [of "main_segments s" pos "\<lambda>j. test_bit j m"]
      first_from_lower [of "Suc st" "main_segments s" "\<lambda>j. \<not> test_bit j m"]
    by (cases "pos \<le> main_segments s"; simp add: find_next_bit_def find_next_zero_bit_def)+
  then show ?case by simp
qed simp

definition clear_prefree_segments :: "sbi \<Rightarrow> cp_control \<Rightarrow> sbi \<times> cp_control" where
  "clear_prefree_segments s cpc =
     (let s = clear_prefree_loop s 0 in send_small_discards (discard_list s) s cpc)"

declare clear_prefree_loop.simps [simp del] add_discard_loop.simps [simp del]

subsection \<open>The invariant of the lists\<close>

text \<open>
  Each counter is the population of its map, and the six typed lists partition the
  \<open>DIRTY\<close> list by the type in the segment's SIT entry.
\<close>

definition filed :: "dirty_seglist_info \<Rightarrow> nat \<Rightarrow> nat \<Rightarrow> bool" where
  "filed d t sn = test_bit sn (dirty_segmap d ! t)"

definition lists_inv :: "nat \<Rightarrow> dirty_seglist_info \<Rightarrow> bool" where
  "lists_inv n d \<longleftrightarrow>
     length (dirty_segmap d) = NR_DIRTY_TYPE \<and> length (nr_dirty d) = NR_DIRTY_TYPE \<and>
     (\<forall>t \<in> set [0..<NR_DIRTY_TYPE]. length (dirty_segmap d ! t) = n \<and>
        nr_dirty d ! t = int (bit_count (filed d t) n))"

definition dirty_inv :: "sbi \<Rightarrow> bool" where
  "dirty_inv s \<longleftrightarrow>
     lists_inv (main_segments s) (dirty_i s) \<and> main_segments s < NULL_SEGNO \<and>
     (\<forall>sn \<in> set [0..<main_segments s]. seg_type (get_seg_entry s sn) < DIRTY \<and>
        (\<forall>t \<in> set [0..<DIRTY]. filed (dirty_i s) t sn =
           (t = seg_type (get_seg_entry s sn) \<and> filed (dirty_i s) DIRTY sn)))"

lemma lists_invD:
  assumes "lists_inv n d" "t < NR_DIRTY_TYPE"
  shows "length (dirty_segmap d ! t) = n" "nr_dirty d ! t = int (bit_count (filed d t) n)"
    "length (dirty_segmap d) = NR_DIRTY_TYPE" "length (nr_dirty d) = NR_DIRTY_TYPE"
  using assms by (auto simp: lists_inv_def)

lemma filed_insert:
  assumes "lists_inv n d" "t < NR_DIRTY_TYPE" "sn < n"
  shows "filed (dirty_insert t sn d) t' sn' = (t' = t \<and> sn' = sn \<or> filed d t' sn')"
  using lists_invD [OF assms(1,2)] assms(2,3)
  by (auto simp: filed_def dirty_insert_def Let_def nth_list_update bitmap_simps)

lemma filed_delete:
  assumes "lists_inv n d" "t < NR_DIRTY_TYPE" "sn < n"
  shows "filed (dirty_delete t sn d) t' sn' = (\<not> (t' = t \<and> sn' = sn) \<and> filed d t' sn')"
  using lists_invD [OF assms(1,2)] assms(2,3)
  by (auto simp: filed_def dirty_delete_def Let_def nth_list_update bitmap_simps)

lemma lists_inv_insert:
  assumes "lists_inv n d" "t < NR_DIRTY_TYPE" "sn < n"
  shows "lists_inv n (dirty_insert t sn d)"
proof -
  note i = lists_invD [OF assms(1,2)]
  have "length (dirty_segmap (dirty_insert t sn d) ! u) = n \<and>
      nr_dirty (dirty_insert t sn d) ! u = int (bit_count (filed (dirty_insert t sn d) u) n)"
    if u: "u < NR_DIRTY_TYPE" for u
  proof (cases "u = t")
    case True
    have "bit_count (filed (dirty_insert t sn d) t) n =
        (if filed d t sn then bit_count (filed d t) n else Suc (bit_count (filed d t) n))"
      using filed_insert [OF assms] assms(3)
      by (auto intro: bit_count_insert [of sn] bit_count_cong)
    then show ?thesis using True i assms(2) by (simp add: dirty_insert_def Let_def filed_def)
  next
    case False
    have "filed (dirty_insert t sn d) u = filed d u" using False filed_insert [OF assms] by auto
    then show ?thesis using False lists_invD [OF assms(1) u] by (simp add: dirty_insert_def Let_def)
  qed
  moreover have "length (dirty_segmap (dirty_insert t sn d)) = NR_DIRTY_TYPE"
    "length (nr_dirty (dirty_insert t sn d)) = NR_DIRTY_TYPE" using i by (simp_all add: dirty_insert_def Let_def)
  ultimately show ?thesis by (simp add: lists_inv_def)
qed

lemma lists_inv_delete:
  assumes "lists_inv n d" "t < NR_DIRTY_TYPE" "sn < n"
  shows "lists_inv n (dirty_delete t sn d)"
proof -
  note i = lists_invD [OF assms(1,2)]
  have "length (dirty_segmap (dirty_delete t sn d) ! u) = n \<and>
      nr_dirty (dirty_delete t sn d) ! u = int (bit_count (filed (dirty_delete t sn d) u) n)"
    if u: "u < NR_DIRTY_TYPE" for u
  proof (cases "u = t")
    case True
    have "(if filed d t sn then 1 else 0) + bit_count (filed (dirty_delete t sn d) t) n = bit_count (filed d t) n"
      using filed_delete [OF assms] assms(3)
      by (auto intro: bit_count_remove [of sn] bit_count_cong)
    then show ?thesis using True i assms(2) by (auto simp: dirty_delete_def Let_def filed_def)
  next
    case False
    have "filed (dirty_delete t sn d) u = filed d u" using False filed_delete [OF assms] by auto
    then show ?thesis using False lists_invD [OF assms(1) u] by (simp add: dirty_delete_def Let_def)
  qed
  moreover have "length (dirty_segmap (dirty_delete t sn d)) = NR_DIRTY_TYPE"
    "length (nr_dirty (dirty_delete t sn d)) = NR_DIRTY_TYPE" using i by (simp_all add: dirty_delete_def Let_def)
  ultimately show ?thesis by (simp add: lists_inv_def)
qed

lemma dirty_i_update_keeps [simp]:
  "get_seg_entry (s\<lparr>dirty_i := d\<rparr>) sn = get_seg_entry s sn"
  "IS_CURSEG (s\<lparr>dirty_i := d\<rparr>) sn = IS_CURSEG s sn"
  "get_valid_blocks (s\<lparr>dirty_i := d\<rparr>) sn k = get_valid_blocks s sn k"
  "GET_SECNO (s\<lparr>dirty_i := d\<rparr>) sn = GET_SECNO s sn"
  "GET_SEGNO (s\<lparr>dirty_i := d\<rparr>) a = GET_SEGNO s a"
  by (simp_all add: get_seg_entry_def IS_CURSEG_def get_valid_blocks_def GET_SECNO_def GET_SEGNO_def
      GET_SEGNO_FROM_SEG0_def GET_SEGOFF_FROM_SEG0_def)

lemma lists_inv_victim [simp]: "lists_inv n (d\<lparr>victim_secmap := m\<rparr>) = lists_inv n d"
  by (simp add: lists_inv_def filed_def [abs_def])

lemma filed_victim [simp]: "filed (d\<lparr>victim_secmap := m\<rparr>) t sn = filed d t sn"
  by (simp add: filed_def)

lemma dirty_invD:
  assumes "dirty_inv s" "sn < main_segments s"
  shows "lists_inv (main_segments s) (dirty_i s)" "seg_type (get_seg_entry s sn) < DIRTY" "sn \<noteq> NULL_SEGNO"
    "t < DIRTY \<Longrightarrow> filed (dirty_i s) t sn = (t = seg_type (get_seg_entry s sn) \<and> filed (dirty_i s) DIRTY sn)"
  using assms by (auto simp: dirty_inv_def)

lemma remove_dirty_spec:
  assumes "dirty_inv s" "sn < main_segments s" "r = remove_dirty s sn DIRTY"
  shows "r = s\<lparr>dirty_i := dirty_i r\<rparr> \<and> lists_inv (main_segments s) (dirty_i r) \<and>
    (\<forall>t sn'. filed (dirty_i r) t sn' =
       (filed (dirty_i s) t sn' \<and> \<not> (sn' = sn \<and> (t = DIRTY \<or> t = seg_type (get_seg_entry s sn)))))"
proof -
  let ?t = "seg_type (get_seg_entry s sn)"
  let ?d = "dirty_delete ?t sn (dirty_delete DIRTY sn (dirty_i s))"
  note d = dirty_invD [OF assms(1,2)]
  have t: "DIRTY < NR_DIRTY_TYPE" "?t < NR_DIRTY_TYPE" using d(2) by (simp_all add: DIRTY_def NR_DIRTY_TYPE_def)
  note l1 = lists_inv_delete [OF d(1) t(1) assms(2)]
  have "lists_inv (main_segments s) ?d" using lists_inv_delete [OF l1 t(2) assms(2)] .
  moreover have "filed ?d u sn' = (filed (dirty_i s) u sn' \<and> \<not> (sn' = sn \<and> (u = DIRTY \<or> u = ?t)))" for u sn'
    using filed_delete [OF l1 t(2) assms(2)] filed_delete [OF d(1) t(1) assms(2)] by auto
  ultimately show ?thesis by (auto simp: assms(3) remove_dirty_def Let_def)
qed

lemma locate_dirty_DIRTY_spec:
  assumes "dirty_inv s" "sn < main_segments s" "\<not> IS_CURSEG s sn" "r = locate_dirty s sn DIRTY"
  shows "r = s\<lparr>dirty_i := dirty_i r\<rparr> \<and> lists_inv (main_segments s) (dirty_i r) \<and>
    (\<forall>t sn'. filed (dirty_i r) t sn' =
       (filed (dirty_i s) t sn' \<or> (sn' = sn \<and> (t = DIRTY \<or> t = seg_type (get_seg_entry s sn)))))"
proof -
  let ?t = "seg_type (get_seg_entry s sn)"
  let ?d = "dirty_insert ?t sn (dirty_insert DIRTY sn (dirty_i s))"
  note d = dirty_invD [OF assms(1,2)]
  have t: "DIRTY < NR_DIRTY_TYPE" "?t < NR_DIRTY_TYPE" using d(2) by (simp_all add: DIRTY_def NR_DIRTY_TYPE_def)
  note l1 = lists_inv_insert [OF d(1) t(1) assms(2)]
  have "lists_inv (main_segments s) ?d" using lists_inv_insert [OF l1 t(2) assms(2)] .
  moreover have "filed ?d u sn' = (filed (dirty_i s) u sn' \<or> (sn' = sn \<and> (u = DIRTY \<or> u = ?t)))" for u sn'
    using filed_insert [OF l1 t(2) assms(2)] filed_insert [OF d(1) t(1) assms(2)] by auto
  ultimately show ?thesis using d(2) assms(3) by (auto simp: assms(4) locate_dirty_def Let_def)
qed

lemma locate_dirty_PRE_spec:
  assumes "dirty_inv s" "sn < main_segments s" "\<not> IS_CURSEG s sn" "r = locate_dirty s sn PRE"
  shows "r = s\<lparr>dirty_i := dirty_i r\<rparr> \<and> dirty_inv r \<and>
    (\<forall>t sn'. filed (dirty_i r) t sn' = (filed (dirty_i s) t sn' \<or> (sn' = sn \<and> t = PRE)))"
proof -
  let ?d = "dirty_insert PRE sn (dirty_i s)"
  note d = dirty_invD [OF assms(1,2)]
  have t: "PRE < NR_DIRTY_TYPE" "PRE \<noteq> DIRTY" "\<not> PRE < DIRTY" by (simp_all add: PRE_def DIRTY_def NR_DIRTY_TYPE_def)
  have r: "r = s\<lparr>dirty_i := ?d\<rparr>" using assms(3) t by (simp add: assms(4) locate_dirty_def)
  have f: "filed ?d u sn' = (filed (dirty_i s) u sn' \<or> (sn' = sn \<and> u = PRE))" for u sn'
    using filed_insert [OF d(1) t(1) assms(2)] by auto
  moreover have "dirty_inv r"
    using assms(1) lists_inv_insert [OF d(1) t(1) assms(2)] t by (auto simp: dirty_inv_def r f)
  ultimately show ?thesis by (simp add: r)
qed

lemma locate_dirty_segment_spec:
  assumes "dirty_inv s" "sn < main_segments s" "\<not> IS_CURSEG s sn" "r = locate_dirty_segment s sn"
    and vb: "vb = get_valid_blocks s sn 0"
  shows "r = s\<lparr>dirty_i := dirty_i r\<rparr> \<and> lists_inv (main_segments s) (dirty_i r) \<and>
    (\<forall>t sn'. filed (dirty_i r) t sn' =
       (if sn' = sn \<and> (t = DIRTY \<or> t = seg_type (get_seg_entry s sn)) then 0 < vb \<and> vb < blocks_per_seg s
        else filed (dirty_i s) t sn' \<or> sn' = sn \<and> t = PRE \<and> vb = 0))"
proof -
  note d = dirty_invD [OF assms(1,2)]
  have ne: "PRE \<noteq> DIRTY" "seg_type (get_seg_entry s sn) \<noteq> PRE" using d(2) by (simp_all add: PRE_def DIRTY_def)
  consider "vb = 0" | "0 < vb" "vb < blocks_per_seg s" | "blocks_per_seg s \<le> vb" "0 < vb" by linarith
  then show ?thesis
  proof cases
    case 1
    define q where "q = locate_dirty s sn PRE"
    note p = locate_dirty_PRE_spec [OF assms(1-3) q_def]
    have q: "main_segments q = main_segments s" "get_seg_entry q sn = get_seg_entry s sn"
      using p by (metis sbi.select_convs(9) sbi.surjective sbi.update_convs(3), metis dirty_i_update_keeps(1))
    have "r = remove_dirty q sn DIRTY"
      using 1 d(3) assms(3) by (simp add: assms(4) locate_dirty_segment_def vb q_def)
    from remove_dirty_spec [OF _ _ this] p q assms(2)
    have "r = q\<lparr>dirty_i := dirty_i r\<rparr>" "lists_inv (main_segments s) (dirty_i r)"
      "\<And>t sn'. filed (dirty_i r) t sn' = (filed (dirty_i q) t sn' \<and>
         \<not> (sn' = sn \<and> (t = DIRTY \<or> t = seg_type (get_seg_entry s sn))))"
      by simp_all
    moreover have "q\<lparr>dirty_i := dirty_i r\<rparr> = s\<lparr>dirty_i := dirty_i r\<rparr>"
      using p by (metis sbi.update_convs(3) sbi.surjective)
    ultimately show ?thesis using 1 p ne by auto
  next
    case 2
    then have "r = locate_dirty s sn DIRTY"
      using d(3) assms(3) by (simp add: assms(4) locate_dirty_segment_def vb)
    from locate_dirty_DIRTY_spec [OF assms(1-3) this] show ?thesis using 2 by auto
  next
    case 3
    then have "r = remove_dirty s sn DIRTY"
      using d(3) assms(3) by (simp add: assms(4) locate_dirty_segment_def vb)
    from remove_dirty_spec [OF assms(1,2) this] show ?thesis using 3 by auto
  qed
qed

lemma dirty_inv_after_filing:
  assumes "dirty_inv s" "sn < main_segments s" "r = s\<lparr>dirty_i := d\<rparr>" "lists_inv (main_segments s) d"
    and "\<And>t sn'. filed d t sn' = (if sn' = sn \<and> (t = DIRTY \<or> t = seg_type (get_seg_entry s sn)) then b
      else filed (dirty_i s) t sn' \<or> sn' = sn \<and> t = PRE \<and> c)"
  shows "dirty_inv r"
  using assms dirty_invD(4) [OF assms(1,2)] by (auto simp: dirty_inv_def PRE_def DIRTY_def)

lemma locate_dirty_segment_inv:
  assumes "dirty_inv s" "sn < main_segments s \<or> sn = NULL_SEGNO" "r = locate_dirty_segment s sn"
  shows "dirty_inv r" "r = s\<lparr>dirty_i := dirty_i r\<rparr>"
proof -
  have "dirty_inv r \<and> r = s\<lparr>dirty_i := dirty_i r\<rparr>"
  proof (cases "sn = NULL_SEGNO \<or> IS_CURSEG s sn")
    case True
    then show ?thesis using assms(1,3) by (simp add: locate_dirty_segment_def)
  next
    case False
    then have "sn < main_segments s" "\<not> IS_CURSEG s sn" using assms(2) by auto
    note sp = locate_dirty_segment_spec [OF assms(1) this assms(3) refl]
    from dirty_inv_after_filing [OF assms(1) \<open>sn < main_segments s\<close>] sp show ?thesis by blast
  qed
  then show "dirty_inv r" "r = s\<lparr>dirty_i := dirty_i r\<rparr>" by blast+
qed

text \<open>
  \<open>locate_dirty_segment\<close> files a segment that is no current log by its number of valid
  blocks: an empty one as prefree and not dirty, a partly valid one as dirty (and in the list
  of its type), a full one as not dirty. No other segment moves, the counters stay the
  populations of their maps, and no fsck flag is raised.
\<close>
theorem locate_dirty_segment_correct:
  assumes "dirty_inv s" "sn < main_segments s" "\<not> IS_CURSEG s sn" "r = locate_dirty_segment s sn"
  shows "dirty_inv r \<and> need_fsck r = need_fsck s
    \<and> filed (dirty_i r) DIRTY sn = (0 < get_valid_blocks s sn 0 \<and> get_valid_blocks s sn 0 < blocks_per_seg s)
    \<and> filed (dirty_i r) PRE sn = (filed (dirty_i s) PRE sn \<or> get_valid_blocks s sn 0 = 0)
    \<and> (\<forall>t sn'. sn' \<noteq> sn \<longrightarrow> filed (dirty_i r) t sn' = filed (dirty_i s) t sn')"
proof -
  note sp = locate_dirty_segment_spec [OF assms refl]
  have ne: "PRE \<noteq> DIRTY" "PRE \<noteq> seg_type (get_seg_entry s sn)"
    using dirty_invD(2) [OF assms(1,2)] by (auto simp: PRE_def DIRTY_def)
  have "need_fsck (s\<lparr>dirty_i := dirty_i r\<rparr>) = need_fsck s" by simp
  then have "need_fsck r = need_fsck s" using sp by (metis)
  then show ?thesis
    using sp ne locate_dirty_segment_inv(1) [OF assms(1) disjI1 [OF assms(2)] assms(4)] by auto
qed

lemma dirty_inv_small_volume: "dirty_inv small_volume"
  by code_simp

theorem locate_dirty_segment_correct_witness:
  "filed (dirty_i (locate_dirty_segment small_volume 1)) PRE 1
   \<and> \<not> filed (dirty_i (locate_dirty_segment small_volume 1)) DIRTY 1"
proof -
  have "\<not> IS_CURSEG small_volume 1" "get_valid_blocks small_volume 1 0 = 0" by code_simp+
  with locate_dirty_segment_correct [OF dirty_inv_small_volume _ _ refl, of 1] show ?thesis by simp
qed

text \<open>A segment is dirty exactly when it is no current log and partly valid.\<close>

definition classified_at :: "sbi \<Rightarrow> nat \<Rightarrow> bool" where
  "classified_at s sn =
     (filed (dirty_i s) DIRTY sn =
        (\<not> IS_CURSEG s sn \<and> 0 < get_valid_blocks s sn 0 \<and> get_valid_blocks s sn 0 < blocks_per_seg s))"

lemma locate_dirty_segment_classifies:
  assumes "dirty_inv s" "sn < main_segments s \<or> sn = NULL_SEGNO" "r = locate_dirty_segment s sn"
    and "sn' < main_segments s" "classified_at s sn' \<or> sn' = sn \<and> \<not> IS_CURSEG s sn"
  shows "classified_at r sn'"
proof (cases "sn = NULL_SEGNO \<or> IS_CURSEG s sn")
  case True
  then have "r = s" using assms(3) by (simp add: locate_dirty_segment_def)
  moreover have "sn' = sn \<longrightarrow> IS_CURSEG s sn" using True assms(4) dirty_invD(3) [OF assms(1,4)] by auto
  ultimately show ?thesis using assms(5) by auto
next
  case False
  then have a: "sn < main_segments s" "\<not> IS_CURSEG s sn" using assms(2) by auto
  note sp = locate_dirty_segment_spec [OF assms(1) a assms(3) refl]
  have "IS_CURSEG (s\<lparr>dirty_i := dirty_i r\<rparr>) = IS_CURSEG s" "blocks_per_seg (s\<lparr>dirty_i := dirty_i r\<rparr>) = blocks_per_seg s"
    "get_valid_blocks (s\<lparr>dirty_i := dirty_i r\<rparr>) = get_valid_blocks s" by (auto intro!: ext)
  then have "IS_CURSEG r = IS_CURSEG s" "blocks_per_seg r = blocks_per_seg s" "get_valid_blocks r = get_valid_blocks s"
    using sp by metis+
  then show ?thesis using sp a assms(5) by (auto simp: classified_at_def PRE_def DIRTY_def)
qed

subsection \<open>Block-level view of the updates\<close>

definition in_main :: "sbi \<Rightarrow> nat \<Rightarrow> bool" where
  "in_main s a = (START_BLOCK s 0 \<le> a \<and> a < START_BLOCK s 0 + main_segments s * blocks_per_seg s)"

definition block_valid :: "sbi \<Rightarrow> nat \<Rightarrow> bool" where
  "block_valid s a = f2fs_test_bit (GET_BLKOFF_FROM_SEG0 s a) (cur_valid_map (get_seg_entry s (GET_SEGNO s a)))"

text \<open>The invariant of the segment manager, and the frame its clients see.\<close>

definition segs_inv :: "sbi \<Rightarrow> bool" where
  "segs_inv s \<longleftrightarrow> wf_layout s \<and> sit_inv s \<and> dirty_inv s \<and> 0 < main_segments s"

definition same_frame :: "sbi \<Rightarrow> sbi \<Rightarrow> bool" where
  "same_frame s r \<longleftrightarrow> free_i r = free_i s \<and> curseg_array r = curseg_array s \<and> nr_mlog r = nr_mlog s \<and>
     seg0_blkaddr r = seg0_blkaddr s \<and> main_segments r = main_segments s \<and> segs_per_sec r = segs_per_sec s \<and>
     secs_per_zone r = secs_per_zone s \<and> total_sections r = total_sections s \<and>
     log_blocks_per_seg r = log_blocks_per_seg s \<and> need_fsck r = need_fsck s"

lemma same_frame_refl [simp]: "same_frame s s" by (simp add: same_frame_def)

lemma same_frame_trans: "same_frame s q \<Longrightarrow> same_frame q r \<Longrightarrow> same_frame s r"
  by (simp add: same_frame_def)

lemma same_frameD:
  assumes "same_frame s r"
  shows "IS_CURSEG r = IS_CURSEG s" "GET_SEGNO r = GET_SEGNO s" "in_main r = in_main s" "wf_layout r = wf_layout s"
    "GET_BLKOFF_FROM_SEG0 r = GET_BLKOFF_FROM_SEG0 s" "START_BLOCK r = START_BLOCK s"
    "main_segments r = main_segments s" "need_fsck r = need_fsck s" "log_blocks_per_seg r = log_blocks_per_seg s"
  using assms
  by (auto intro!: ext simp: same_frame_def IS_CURSEG_def GET_SEGNO_def GET_SEGNO_FROM_SEG0_def in_main_def
      GET_SEGOFF_FROM_SEG0_def GET_BLKOFF_FROM_SEG0_def START_BLOCK_def wf_layout_def)

lemma in_mainD:
  assumes "wf_layout s" "in_main s a"
  shows "GET_SEGNO s a < main_segments s" "GET_BLKOFF_FROM_SEG0 s a < blocks_per_seg s"
    "START_BLOCK s (GET_SEGNO s a) + GET_BLKOFF_FROM_SEG0 s a = a"
proof -
  have "0 < main_segments s" using assms(2) by (cases "main_segments s") (auto simp: in_main_def)
  with address_of_segno_blkoff [OF assms(1)] assms(2)
  show "GET_SEGNO s a < main_segments s" "GET_BLKOFF_FROM_SEG0 s a < blocks_per_seg s"
    "START_BLOCK s (GET_SEGNO s a) + GET_BLKOFF_FROM_SEG0 s a = a" by (auto simp: in_main_def)
qed

lemma update_sit_entry_block:
  assumes "segs_inv s" "in_main s a" "del = 1 \<and> \<not> block_valid s a \<or> del = - 1 \<and> block_valid s a"
    and "r = update_sit_entry now s a del"
  shows "segs_inv r \<and> same_frame s r \<and> dirty_i r = dirty_i s
    \<and> (\<forall>b. in_main s b \<longrightarrow> block_valid r b = (if b = a then del = 1 else block_valid s b))
    \<and> (\<forall>n. n \<noteq> GET_SEGNO s a \<longrightarrow> get_valid_blocks r n 0 = get_valid_blocks s n 0)
    \<and> int (get_valid_blocks r (GET_SEGNO s a) 0) = int (get_valid_blocks s (GET_SEGNO s a) 0) + del"
proof -
  let ?sn = "GET_SEGNO s a" and ?off = "GET_BLKOFF_FROM_SEG0 s a"
  have wf: "wf_layout s" and si: "sit_inv s" and di: "dirty_inv s" using assms(1) by (auto simp: segs_inv_def)
  note a = in_mainD [OF wf assms(2)]
  note e = sit_invD(3) [OF si a(1)]
  have legal: "legal_change (get_seg_entry s ?sn) ?off del"
    using assms(3) by (simp add: legal_change_def block_valid_def)
  note f = update_sit_entry_legal [OF e refl refl a(2) legal assms(4)]
  have ln: "?sn < length (sentries (sit_i s))" using sit_invD(1) [OF si] a(1) by simp
  have fr: "same_frame s r" using f(2) by (simp add: same_frame_def assms(4))
  note fd = same_frameD [OF fr]
  have off: "?off < 8 * length (cur_valid_map (get_seg_entry s ?sn))" using e a(2) by (simp add: seg_inv_def)
  have cm: "f2fs_test_bit j (cur_valid_map (changed_entry t (get_seg_entry s ?sn) ?off del)) =
      (if j = ?off then del = 1 else f2fs_test_bit j (cur_valid_map (get_seg_entry s ?sn)))" for j t
    using legal off by (auto simp: changed_entry_def Let_def legal_change_def bitmap_simps)
  have ty: "seg_type (get_seg_entry r n) = seg_type (get_seg_entry s n)" for n
    using ln by (auto simp: get_seg_entry_def f(1) nth_list_update changed_entry_def Let_def)
  have dd: "dirty_i r = dirty_i s" by (simp add: assms(4))
  then have "dirty_inv r" using di ty fd(7) by (simp add: dirty_inv_def)
  moreover have "sit_inv r" using update_sit_entry_sit_inv [OF si refl refl a(2,1) legal] assms(4) by simp
  ultimately have inv: "segs_inv r" using assms(1) fd(4,7) by (simp add: segs_inv_def)
  have "block_valid r b = (if b = a then del = 1 else block_valid s b)" if "in_main s b" for b
  proof -
    note b = in_mainD [OF wf that]
    have "b = a \<longleftrightarrow> GET_SEGNO s b = ?sn \<and> GET_BLKOFF_FROM_SEG0 s b = ?off" using a(3) b(3) by metis
    then show ?thesis using ln fd(2,5)
      by (cases "GET_SEGNO s b = ?sn")
         (auto simp: block_valid_def get_seg_entry_def f(1) cm [unfolded get_seg_entry_def])
  qed
  then show ?thesis
    using inv fr dd ln changed_entry_seg_inv(2) [OF e a(2) legal]
    by (simp add: get_valid_blocks_def get_seg_entry_def f(1) nth_list_update)
qed

lemma locate_dirty_segment_block:
  assumes "segs_inv s" "sn < main_segments s \<or> sn = NULL_SEGNO" "r = locate_dirty_segment s sn"
  shows "segs_inv r \<and> same_frame s r \<and> block_valid r = block_valid s \<and> get_valid_blocks r = get_valid_blocks s"
proof -
  have di: "dirty_inv s" using assms(1) by (simp add: segs_inv_def)
  note l = locate_dirty_segment_inv [OF di assms(2,3)]
  have "same_frame s (s\<lparr>dirty_i := dirty_i r\<rparr>)" "sit_inv (s\<lparr>dirty_i := dirty_i r\<rparr>) = sit_inv s"
    "block_valid (s\<lparr>dirty_i := dirty_i r\<rparr>) = block_valid s"
    "get_valid_blocks (s\<lparr>dirty_i := dirty_i r\<rparr>) = get_valid_blocks s"
    by (auto intro!: ext simp: same_frame_def sit_inv_def block_valid_def GET_BLKOFF_FROM_SEG0_def GET_SEGOFF_FROM_SEG0_def)
  then have r: "same_frame s r" "sit_inv r = sit_inv s" "block_valid r = block_valid s" "get_valid_blocks r = get_valid_blocks s"
    using l(2) by metis+
  then show ?thesis using l(1) assms(1) same_frameD [OF r(1)] by (simp add: segs_inv_def)
qed

text \<open>Segments outside \<open>X\<close> are classified; those in \<open>X\<close> may not be while they are no current log.\<close>

definition classified_but :: "nat set \<Rightarrow> sbi \<Rightarrow> bool" where
  "classified_but X s \<longleftrightarrow>
     (\<forall>n. n < main_segments s \<longrightarrow> classified_at s n \<or> n \<in> X \<and> \<not> IS_CURSEG s n)"

lemma classified_update:
  assumes "segs_inv s" "in_main s a" "del = 1 \<and> \<not> block_valid s a \<or> del = - 1 \<and> block_valid s a"
    and "r = update_sit_entry now s a del" "classified_but X s"
  shows "classified_but (insert (GET_SEGNO s a) X) r"
proof -
  note u = update_sit_entry_block [OF assms(1-4)]
  then have "same_frame s r" by blast
  note f = same_frameD [OF this]
  show ?thesis
    using u assms(5) by (auto simp: classified_but_def classified_at_def f)
qed

lemma classified_locate:
  assumes "segs_inv s" "sn < main_segments s \<or> sn = NULL_SEGNO" "r = locate_dirty_segment s sn" "classified_but X s"
  shows "classified_but (X - {sn}) r"
proof -
  note u = locate_dirty_segment_block [OF assms(1-3)]
  then have "same_frame s r" by blast
  note f = same_frameD [OF this]
  have di: "dirty_inv s" using assms(1) by (simp add: segs_inv_def)
  have "classified_at r n" if "n < main_segments s" "n = sn \<or> n \<notin> X" for n
    using that assms(4) by (intro locate_dirty_segment_classifies [OF di assms(2,3)]) (auto simp: classified_but_def)
  moreover have "classified_at r n" if "n < main_segments s" "classified_at s n" for n
    using that by (intro locate_dirty_segment_classifies [OF di assms(2,3)]) auto
  ultimately show ?thesis using assms(4) by (auto simp: classified_but_def f)
qed

lemma GET_SEGNO_special: "a = NULL_ADDR \<or> a = NEW_ADDR \<Longrightarrow> GET_SEGNO s a = NULL_SEGNO"
  by (auto simp: GET_SEGNO_def)

lemma segno_ne_null: "segs_inv s \<Longrightarrow> in_main s a \<Longrightarrow> GET_SEGNO s a \<noteq> NULL_SEGNO"
  using in_mainD(1) [of s a] by (auto simp: segs_inv_def dirty_inv_def)

lemma refresh_sit_entry_spec:
  assumes "segs_inv s" "in_main s new" "\<not> block_valid s new"
    and "old = NULL_ADDR \<or> old = NEW_ADDR \<or> in_main s old \<and> block_valid s old"
    and "classified_but {GET_SEGNO s new} s" "r = refresh_sit_entry now s old new"
  shows "segs_inv r" "same_frame s r" "in_main s b \<Longrightarrow> block_valid r b = (b = new \<or> b \<noteq> old \<and> block_valid s b)"
    "classified_but {} r"
proof -
  define s1 where s1: "s1 = update_sit_entry now s new 1"
  note u1 = update_sit_entry_block [OF assms(1,2) _ s1, simplified, OF assms(3)]
  note c1 = classified_update [OF assms(1,2) _ s1 assms(5), simplified, OF assms(3)]
  have f1: "same_frame s s1" using u1 by blast
  define s2 where s2: "s2 = (if GET_SEGNO s1 old \<noteq> NULL_SEGNO then update_sit_entry now s1 old (- 1) else s1)"
  have 2: "segs_inv s2 \<and> same_frame s1 s2 \<and> classified_but {GET_SEGNO s old, GET_SEGNO s new} s2
    \<and> (\<forall>b. in_main s b \<longrightarrow> block_valid s2 b = (b \<noteq> old \<and> block_valid s1 b))"
  proof (cases "old = NULL_ADDR \<or> old = NEW_ADDR")
    case True
    then have "s2 = s1" by (simp add: s2 GET_SEGNO_special)
    moreover have "\<not> in_main s old" using True segno_ne_null [OF assms(1), of old] GET_SEGNO_special [of old s] by auto
    ultimately show ?thesis using u1 c1 by (auto simp: classified_but_def)
  next
    case False
    then have old: "in_main s old" "block_valid s old" using assms(4) by auto
    then have v: "in_main s1 old" "block_valid s1 old" using u1 assms(3) same_frameD(3) [OF f1] by auto
    have e: "s2 = update_sit_entry now s1 old (- 1)"
      using segno_ne_null [of s1 old] u1 v(1) by (simp add: s2)
    have i1: "segs_inv s1" using u1 by blast
    note u2 = update_sit_entry_block [OF i1 v(1) _ e, simplified, OF v(2)]
    note c2 = classified_update [OF i1 v(1) _ e c1, simplified, OF v(2)]
    show ?thesis using u2 c2 same_frameD [OF f1] by simp
  qed
  have f2: "same_frame s1 s2" using 2 by blast
  define s3 where s3: "s3 = locate_dirty_segment s2 (GET_SEGNO s2 old)"
  have seg: "GET_SEGNO s2 = GET_SEGNO s" "main_segments s2 = main_segments s"
    using same_frameD [OF f1] same_frameD [OF f2] by simp_all
  have oldn: "GET_SEGNO s old < main_segments s \<or> GET_SEGNO s old = NULL_SEGNO"
    using assms(4) GET_SEGNO_special [of old s] in_mainD(1) [of s old] assms(1) by (auto simp: segs_inv_def)
  have i2: "segs_inv s2" using 2 by blast
  have a3: "GET_SEGNO s2 old < main_segments s2 \<or> GET_SEGNO s2 old = NULL_SEGNO" using oldn seg by simp
  note u3 = locate_dirty_segment_block [OF i2 a3 s3]
  have c3: "classified_but ({GET_SEGNO s old, GET_SEGNO s new} - {GET_SEGNO s2 old}) s3"
    using 2 by (intro classified_locate [OF i2 a3 s3]) blast
  have f3: "same_frame s2 s3" and i3: "segs_inv s3" using u3 by auto
  have r: "r = locate_dirty_segment s3 (GET_SEGNO s3 new)"
    by (simp add: assms(6) refresh_sit_entry_def Let_def s1 s2 s3)
  have seg3: "GET_SEGNO s3 = GET_SEGNO s" "main_segments s3 = main_segments s" using same_frameD [OF f3] seg by simp_all
  have a4: "GET_SEGNO s3 new < main_segments s3 \<or> GET_SEGNO s3 new = NULL_SEGNO"
    using in_mainD(1) [of s new] assms(1,2) seg3 by (simp add: segs_inv_def)
  note u4 = locate_dirty_segment_block [OF i3 a4 r]
  have c4: "classified_but ({GET_SEGNO s old, GET_SEGNO s new} - {GET_SEGNO s2 old} - {GET_SEGNO s3 new}) r"
    by (rule classified_locate [OF i3 a4 r c3])
  then have "classified_but ({GET_SEGNO s old, GET_SEGNO s new} - {GET_SEGNO s old} - {GET_SEGNO s new}) r"
    unfolding seg seg3 .
  moreover have "{GET_SEGNO s old, GET_SEGNO s new} - {GET_SEGNO s old} - {GET_SEGNO s new} = {}" by blast
  ultimately show "classified_but {} r" by (simp only:)
  show "segs_inv r" using u4 by blast
  show "same_frame s r" using f1 f2 f3 u4 same_frame_trans by blast
  show "block_valid r b = (b = new \<or> b \<noteq> old \<and> block_valid s b)" if "in_main s b"
    using that u1 2 u3 u4 assms(3,4) segno_ne_null [OF assms(1,2)] GET_SEGNO_special [of new s] by auto
qed


lemma segs_inv_small_volume: "segs_inv small_volume"
  using wf_layout_small_volume sit_inv_small_volume dirty_inv_small_volume
  by (simp add: segs_inv_def)

lemma classified_code: "classified_but {} s \<longleftrightarrow> list_all (classified_at s) [0..<main_segments s]"
  by (simp add: classified_but_def list_all_length)

lemma classified_small_volume: "classified_but X small_volume"
proof -
  have "list_all (classified_at small_volume) [0..<16]" by code_simp
  then show ?thesis by (auto simp: classified_but_def list_all_length)
qed




end
