(* ===== verification/Prefree.thy ===== *)
theory Prefree
  imports Dirty
begin

section \<open>What a checkpoint does with prefree segments\<close>

text \<open>
  The operations of \<open>Max/segment.c\<close> that a checkpoint runs over the lists of
  \<open>Dirty\<close>: the prefree segments become free (\<open>set_prefree_as_free_segments\<close>, proved
  through the \<open>segment_pool\<close> interface), are taken off their list and discarded in maximal
  runs (\<open>clear_prefree_segments\<close>, proved through \<open>runs\<close>), and the discardable blocks of a
  segment are collected (\<open>add_discard_addrs\<close>, proved through \<open>bit_search\<close>).
\<close>

subsection \<open>Prefree segments become free\<close>

definition prefree :: "sbi \<Rightarrow> nat set" where
  "prefree s = {sn. sn < main_segments s \<and> filed (dirty_i s) PRE sn}"

lemma fold_free_i:
  "fold (\<lambda>sn s. s\<lparr>free_i := set_test_and_free (segs_per_sec s) (free_i s) sn\<rparr>) xs s =
   s\<lparr>free_i := fold (\<lambda>sn f. set_test_and_free (segs_per_sec s) f sn) xs (free_i s)\<rparr>"
  by (induction xs arbitrary: s) simp_all

text \<open>
  C17: at a checkpoint exactly the prefree segments leave the set of segments in use, the free
  counters stay exact, and nothing else of the state changes.
\<close>
theorem set_prefree_as_free_segments_correct:
  assumes "segmap_inv (total_sections s) (segs_per_sec s) (free_i s)" "wf_layout s"
    and "r = set_prefree_as_free_segments s"
  shows "segmap_inv (total_sections s) (segs_per_sec s) (free_i r)
    \<and> in_use (free_i r) = in_use (free_i s) - prefree s \<and> r = s\<lparr>free_i := free_i r\<rparr>
    \<and> (prefree s \<subseteq> in_use (free_i s) \<longrightarrow> free_segments (free_i r) = free_segments (free_i s) + card (prefree s))"
proof -
  let ?xs = "filter (\<lambda>sn. test_bit sn (dirty_segmap (dirty_i s) ! PRE)) [0..<main_segments s]"
  have xs: "set ?xs = prefree s" by (auto simp: prefree_def filed_def)
  have m: "main_segments s = total_sections s * segs_per_sec s" using assms(2) by (simp add: wf_layout_def)
  have r: "r = s\<lparr>free_i := fold (\<lambda>sn f. set_test_and_free (segs_per_sec s) f sn) ?xs (free_i s)\<rparr>"
    by (simp add: assms(3) set_prefree_as_free_segments_def fold_free_i)
  have "set ?xs \<subseteq> {..<total_sections s * segs_per_sec s}" using m by auto
  from pool.release_all [OF this assms(1)] pool.release_all_nfree [OF _ assms(1), of ?xs] show ?thesis
    unfolding xs by (simp add: r)
qed

definition volume_with_prefree :: sbi where
  "volume_with_prefree = locate_dirty_segment
     (small_volume\<lparr>free_i := set_test_and_inuse 2 (free_i small_volume) 13\<rparr>) 13"

theorem set_prefree_as_free_segments_correct_witness:
  "in_use (free_i (set_prefree_as_free_segments volume_with_prefree))
     = in_use (free_i volume_with_prefree) - prefree volume_with_prefree
   \<and> 13 \<in> in_use (free_i volume_with_prefree) \<and> 13 \<in> prefree volume_with_prefree"
proof -
  have "segmap_inv (total_sections volume_with_prefree) (segs_per_sec volume_with_prefree) (free_i volume_with_prefree)"
    "wf_layout volume_with_prefree" by code_simp+
  note c = set_prefree_as_free_segments_correct [OF this refl]
  have "13 < length (free_segmap (free_i volume_with_prefree))" "test_bit 13 (free_segmap (free_i volume_with_prefree))"
    "13 < main_segments volume_with_prefree" "filed (dirty_i volume_with_prefree) PRE 13"
    by code_simp+
  with c show ?thesis by (simp add: in_use_def prefree_def)
qed

subsection \<open>Clearing the prefree list\<close>

lemma issue_discard_keeps [simp]:
  "dirty_i (f2fs_issue_discard s a n) = dirty_i s" "opt_discard (f2fs_issue_discard s a n) = opt_discard s"
  "discards_issued (f2fs_issue_discard s a n) = discards_issued s @ [(a, n)]"
  "START_BLOCK (f2fs_issue_discard s a n) = START_BLOCK s" "discard_list (f2fs_issue_discard s a n) = discard_list s"
  "log_blocks_per_seg (f2fs_issue_discard s a n) = log_blocks_per_seg s"
  "nr_discards (f2fs_issue_discard s a n) = nr_discards s" "main_segments (f2fs_issue_discard s a n) = main_segments s"
proof -
  have k: "dirty_i (discard_block i s) = dirty_i s" "opt_discard (discard_block i s) = opt_discard s"
    "discards_issued (discard_block i s) = discards_issued s" "START_BLOCK (discard_block i s) = START_BLOCK s"
    "discard_list (discard_block i s) = discard_list s" "log_blocks_per_seg (discard_block i s) = log_blocks_per_seg s"
    "nr_discards (discard_block i s) = nr_discards s" for i s
    by (auto intro!: ext simp: discard_block_def Let_def put_seg_entry_def START_BLOCK_def)
  have f: "dirty_i (fold discard_block xs s) = dirty_i s" "opt_discard (fold discard_block xs s) = opt_discard s"
    "discards_issued (fold discard_block xs s) = discards_issued s" "START_BLOCK (fold discard_block xs s) = START_BLOCK s"
    "discard_list (fold discard_block xs s) = discard_list s" "log_blocks_per_seg (fold discard_block xs s) = log_blocks_per_seg s"
    "nr_discards (fold discard_block xs s) = nr_discards s" for xs
    by (induction xs arbitrary: s) (simp_all add: k)
  have sb: "START_BLOCK (t\<lparr>discards_issued := x\<rparr>) = START_BLOCK t" for t x
    by (auto intro!: ext simp: START_BLOCK_def)
  show "dirty_i (f2fs_issue_discard s a n) = dirty_i s" "opt_discard (f2fs_issue_discard s a n) = opt_discard s"
    "discards_issued (f2fs_issue_discard s a n) = discards_issued s @ [(a, n)]"
    "START_BLOCK (f2fs_issue_discard s a n) = START_BLOCK s" "discard_list (f2fs_issue_discard s a n) = discard_list s"
    "log_blocks_per_seg (f2fs_issue_discard s a n) = log_blocks_per_seg s"
    "nr_discards (f2fs_issue_discard s a n) = nr_discards s" "main_segments (f2fs_issue_discard s a n) = main_segments s"
    by (simp_all add: f2fs_issue_discard_def Let_def f sb)
qed

lemma fold_clear_bit:
  assumes "b \<le> length m"
  shows "test_bit i (fold clear_bit [a..<b] m) = (\<not> (a \<le> i \<and> i < b) \<and> test_bit i m)"
    "length (fold clear_bit [a..<b] m) = length m"
proof -
  have len: "length (fold clear_bit xs m) = length m" for xs m by (induction xs arbitrary: m) simp_all
  show "length (fold clear_bit [a..<b] m) = length m" by (rule len)
  show "test_bit i (fold clear_bit [a..<b] m) = (\<not> (a \<le> i \<and> i < b) \<and> test_bit i m)"
    using assms
  proof (induction b)
    case (Suc b)
    then show ?case by (cases "a \<le> b") (auto simp: len bitmap_simps)
  qed simp
qed

definition run_size :: "(nat \<times> nat) list \<Rightarrow> nat" where
  "run_size rs = sum_list (map (\<lambda>(a, b). b - a) rs)"

definition run_discards :: "sbi \<Rightarrow> (nat \<times> nat) list \<Rightarrow> (nat \<times> nat) list" where
  "run_discards s rs = (if opt_discard s
     then map (\<lambda>(a, b). (START_BLOCK s a, (b - a) * 2 ^ log_blocks_per_seg s)) rs else [])"

text \<open>One run at a time; the invariant needed on the way is only that the map has the right length.\<close>

definition pre_shape :: "sbi \<Rightarrow> bool" where
  "pre_shape s \<longleftrightarrow> length (dirty_segmap (dirty_i s)) = NR_DIRTY_TYPE \<and> length (nr_dirty (dirty_i s)) = NR_DIRTY_TYPE \<and>
     length (dirty_segmap (dirty_i s) ! PRE) = main_segments s"

lemma clear_prefree_run_spec:
  assumes "pre_shape s" "b \<le> main_segments s" "r = clear_prefree_run a b s"
  shows "dirty_segmap (dirty_i r) = (dirty_segmap (dirty_i s))[PRE := fold clear_bit [a..<b] (dirty_segmap (dirty_i s) ! PRE)]"
    "nr_dirty (dirty_i r) = (nr_dirty (dirty_i s))[PRE := nr_dirty (dirty_i s) ! PRE - int (b - a)]"
    "filed (dirty_i r) PRE i = (\<not> (a \<le> i \<and> i < b) \<and> filed (dirty_i s) PRE i)"
    "length (dirty_segmap (dirty_i r) ! PRE) = main_segments s" "main_segments r = main_segments s"
    "discards_issued r = discards_issued s @ run_discards s [(a, b)]" "START_BLOCK r = START_BLOCK s"
    "opt_discard r = opt_discard s" "log_blocks_per_seg r = log_blocks_per_seg s"
    "discard_list r = discard_list s" "nr_discards r = nr_discards s"
proof -
  have t: "PRE < NR_DIRTY_TYPE" by (simp add: PRE_def NR_DIRTY_TYPE_def)
  note l = assms(1) [unfolded pre_shape_def]
  have sb: "START_BLOCK (s\<lparr>dirty_i := x\<rparr>) = START_BLOCK s" for x by (auto intro!: ext simp: START_BLOCK_def)
  show map_r: "dirty_segmap (dirty_i r) = (dirty_segmap (dirty_i s))[PRE := fold clear_bit [a..<b] (dirty_segmap (dirty_i s) ! PRE)]"
    and "nr_dirty (dirty_i r) = (nr_dirty (dirty_i s))[PRE := nr_dirty (dirty_i s) ! PRE - int (b - a)]"
    and "main_segments r = main_segments s" "START_BLOCK r = START_BLOCK s" "opt_discard r = opt_discard s"
    "log_blocks_per_seg r = log_blocks_per_seg s" "discards_issued r = discards_issued s @ run_discards s [(a, b)]"
    "discard_list r = discard_list s" "nr_discards r = nr_discards s"
    by (simp_all add: assms(3) clear_prefree_run_def Let_def run_discards_def sb)
  show "filed (dirty_i r) PRE i = (\<not> (a \<le> i \<and> i < b) \<and> filed (dirty_i s) PRE i)"
    "length (dirty_segmap (dirty_i r) ! PRE) = main_segments s"
    using fold_clear_bit [of b "dirty_segmap (dirty_i s) ! PRE"] l t assms(2) by (simp_all add: filed_def map_r)
qed

lemma pre_shape_run: "pre_shape s \<Longrightarrow> b \<le> main_segments s \<Longrightarrow> pre_shape (clear_prefree_run a b s)"
  using clear_prefree_run_spec(1,2,4,5) [OF _ _ refl, of s b a] by (simp add: pre_shape_def)

lemma clear_prefree_fold:
  assumes "pre_shape s" "\<forall>(a, b) \<in> set rs. b \<le> main_segments s"
    and "r = fold (\<lambda>(a, b). clear_prefree_run a b) rs s"
  shows "(\<forall>i. filed (dirty_i r) PRE i = (filed (dirty_i s) PRE i \<and> (\<forall>(a, b) \<in> set rs. \<not> (a \<le> i \<and> i < b)))) \<and>
    nr_dirty (dirty_i r) ! PRE = nr_dirty (dirty_i s) ! PRE - int (run_size rs) \<and>
    (\<forall>t. t \<noteq> PRE \<longrightarrow> dirty_segmap (dirty_i r) ! t = dirty_segmap (dirty_i s) ! t \<and> nr_dirty (dirty_i r) ! t = nr_dirty (dirty_i s) ! t) \<and>
    discards_issued r = discards_issued s @ run_discards s rs \<and> discard_list r = discard_list s \<and>
    nr_discards r = nr_discards s"
  using assms
proof (induction rs arbitrary: s)
  case Nil
  then show ?case by (simp add: run_size_def run_discards_def)
next
  case (Cons p rs)
  obtain a b where p: "p = (a, b)" by (cases p)
  define q where q: "q = clear_prefree_run a b s"
  have b: "b \<le> main_segments s" using Cons.prems(2) p by simp
  note sp = clear_prefree_run_spec [OF Cons.prems(1) b q]
  have t: "PRE < length (nr_dirty (dirty_i s))" using Cons.prems(1) by (simp add: pre_shape_def PRE_def NR_DIRTY_TYPE_def)
  have rd: "run_discards q rs = run_discards s rs" by (simp add: run_discards_def sp)
  have "pre_shape q" using pre_shape_run [OF Cons.prems(1) b] q by simp
  moreover have "\<forall>(a, b) \<in> set rs. b \<le> main_segments q" using Cons.prems(2) sp(5) by simp
  moreover have "r = fold (\<lambda>(a, b). clear_prefree_run a b) rs q" using Cons.prems(3) p q by simp
  ultimately have ih: "filed (dirty_i r) PRE i = (filed (dirty_i q) PRE i \<and> (\<forall>(a, b) \<in> set rs. \<not> (a \<le> i \<and> i < b)))"
      "nr_dirty (dirty_i r) ! PRE = nr_dirty (dirty_i q) ! PRE - int (run_size rs)"
      "t \<noteq> PRE \<Longrightarrow> dirty_segmap (dirty_i r) ! t = dirty_segmap (dirty_i q) ! t \<and> nr_dirty (dirty_i r) ! t = nr_dirty (dirty_i q) ! t"
      "discards_issued r = discards_issued q @ run_discards q rs" "discard_list r = discard_list q"
      "nr_discards r = nr_discards q" for i t
    using Cons.IH [of q] by blast+
  have "nr_dirty (dirty_i r) ! PRE = nr_dirty (dirty_i s) ! PRE - int (run_size (p # rs))"
    using t by (simp add: ih(2) sp(2) p run_size_def)
  moreover have "discards_issued r = discards_issued s @ run_discards s (p # rs)"
    by (simp add: ih(4) sp(6) rd) (simp add: run_discards_def p)
  moreover have "filed (dirty_i r) PRE i = (filed (dirty_i s) PRE i \<and> (\<forall>(a, b) \<in> set (p # rs). \<not> (a \<le> i \<and> i < b)))" for i
    by (simp add: ih(1) sp(3) p conj_commute conj_left_commute)
  ultimately show ?case
    using ih(3,5,6) sp(1,2,10,11) by simp
qed

lemma clear_prefree_loop_runs:
  assumes "pre_shape s"
  shows "clear_prefree_loop s pos = fold (\<lambda>(a, b). clear_prefree_run a b) (runs (filed (dirty_i s) PRE) (main_segments s) pos) s"
  using assms
proof (induction s pos rule: clear_prefree_loop.induct)
  case (1 s pos)
  let ?m = "dirty_segmap (dirty_i s) ! PRE" and ?n = "main_segments s" and ?P = "filed (dirty_i s) PRE"
  have P: "?P = (\<lambda>j. test_bit j ?m)" by (auto simp: filed_def)
  let ?st = "find_next_bit ?m ?n pos" and ?en = "find_next_zero_bit ?m ?n (Suc (find_next_bit ?m ?n pos))"
  show ?case
  proof (cases "?st < ?n")
    case False
    then have "runs ?P ?n pos = []" by (subst runs.simps) (simp add: P find_next_bit_def)
    with False show ?thesis by (subst clear_prefree_loop.simps) simp
  next
    case True
    define q where q: "q = clear_prefree_run ?st ?en s"
    have en: "?en \<le> ?n" by (simp add: find_next_zero_bit_def first_from_le)
    note sp = clear_prefree_run_spec [OF 1(2) en q]
    have r: "runs ?P ?n pos = (?st, ?en) # runs ?P ?n (Suc ?en)"
      using True by (subst runs.simps) (simp add: P find_next_bit_def find_next_zero_bit_def Let_def)
    have "runs (filed (dirty_i q) PRE) ?n (Suc ?en) = runs ?P ?n (Suc ?en)"
      by (rule runs_cong) (simp add: sp(3))
    moreover have "clear_prefree_loop q (Suc ?en) =
        fold (\<lambda>(a, b). clear_prefree_run a b) (runs (filed (dirty_i q) PRE) (main_segments q) (Suc ?en)) q"
      unfolding q using True pre_shape_run [OF 1(2) en] by (intro 1(1) [OF refl refl _ refl]) simp_all
    ultimately show ?thesis
      using True r sp(5) by (subst clear_prefree_loop.simps) (simp add: Let_def q [symmetric])
  qed
qed

lemma run_size_runs: "run_size (runs P n 0) = bit_count P n"
proof -
  have "length (concat (map (\<lambda>(a, b). [a..<b]) rs)) = run_size rs" for rs
    by (induction rs) (auto simp: run_size_def)
  from this [of "runs P n 0"] show ?thesis by (simp add: runs_concat bit_count_def)
qed

text \<open>Which of the collected small discards a checkpoint sends.\<close>

definition sent :: "cp_control \<Rightarrow> (nat \<times> nat) list \<Rightarrow> (nat \<times> nat) list" where
  "sent cpc es = filter (\<lambda>(a, len). \<not> (reason cpc = CP_DISCARD \<and> len < trim_minlen cpc)) es"

lemma send_small_discards_spec:
  assumes "(r, cpc') = send_small_discards es s cpc"
  shows "dirty_i r = dirty_i s \<and> discards_issued r = discards_issued s @ sent cpc es \<and>
    nr_discards r = nr_discards s - int (sum_list (map snd es)) \<and> (es \<noteq> [] \<longrightarrow> discard_list r = []) \<and>
    (es = [] \<longrightarrow> discard_list r = discard_list s) \<and> trimmed cpc' = trimmed cpc + sum_list (map snd (sent cpc es))"
  using assms
proof (induction es arbitrary: s cpc)
  case (Cons p es)
  obtain blkaddr len where p: "p = (blkaddr, len)" by (cases p)
  let ?del = "\<lambda>s. s\<lparr>discard_list := es, nr_discards := nr_discards s - int len\<rparr>"
  show ?case
  proof (cases "reason cpc = CP_DISCARD \<and> len < trim_minlen cpc")
    case True
    then have "(r, cpc') = send_small_discards es (?del s) cpc" using Cons.prems by (simp add: p Let_def)
    from Cons.IH [OF this] True show ?thesis by (cases es) (auto simp: p sent_def)
  next
    case False
    then have "(r, cpc') = send_small_discards es (?del (f2fs_issue_discard s blkaddr len)) (cpc\<lparr>trimmed := trimmed cpc + len\<rparr>)"
      using Cons.prems by (auto simp: p Let_def)
    from Cons.IH [OF this] False show ?thesis by (cases es) (auto simp: p sent_def)
  qed
qed (simp add: sent_def)

text \<open>
  C18: after a checkpoint the prefree list is empty and its counter zero, no other list has
  changed, and the device was asked to discard exactly the maximal runs of segments that were
  prefree (when the discard option is set), followed by the collected small discards that are
  not below the requested minimum; those are forgotten and counted as trimmed.
\<close>
theorem clear_prefree_segments_correct:
  assumes "lists_inv (main_segments s) (dirty_i s)" "(r, cpc') = clear_prefree_segments s cpc"
  shows "(\<forall>sn \<in> {..<main_segments s}. \<not> filed (dirty_i r) PRE sn) \<and> nr_dirty (dirty_i r) ! PRE = 0
    \<and> (\<forall>t. t \<noteq> PRE \<longrightarrow> dirty_segmap (dirty_i r) ! t = dirty_segmap (dirty_i s) ! t)
    \<and> discards_issued r = discards_issued s @
        run_discards s (runs (filed (dirty_i s) PRE) (main_segments s) 0) @ sent cpc (discard_list s)
    \<and> discard_list r = [] \<and> nr_discards r = nr_discards s - int (sum_list (map snd (discard_list s)))
    \<and> trimmed cpc' = trimmed cpc + sum_list (map snd (sent cpc (discard_list s)))"
proof -
  let ?rs = "runs (filed (dirty_i s) PRE) (main_segments s) 0"
  define q where q: "q = clear_prefree_loop s 0"
  have t: "PRE < NR_DIRTY_TYPE" by (simp add: PRE_def NR_DIRTY_TYPE_def)
  note l = lists_invD [OF assms(1) t]
  have ps: "pre_shape s" using l by (simp add: pre_shape_def)
  have b: "\<forall>(a, b) \<in> set ?rs. b \<le> main_segments s" using runs_bounds(3) by auto
  note f = clear_prefree_fold [OF ps b q [unfolded clear_prefree_loop_runs [OF ps]]]
  have "(r, cpc') = send_small_discards (discard_list s) q cpc"
    using assms(2) f by (simp add: clear_prefree_segments_def q [symmetric])
  note sd = send_small_discards_spec [OF this]
  have clear: "\<not> filed (dirty_i q) PRE i" if i: "i < main_segments s" for i
  proof
    assume "filed (dirty_i q) PRE i"
    with f have P: "filed (dirty_i s) PRE i" and out: "\<forall>(a, b) \<in> set ?rs. \<not> (a \<le> i \<and> i < b)" by auto
    have "i \<in> set (concat (map (\<lambda>(a, b). [a..<b]) ?rs))" unfolding runs_concat using i P by simp
    with out show False by auto
  qed
  have "nr_dirty (dirty_i q) ! PRE = 0" using f l(2) by (simp add: run_size_runs)
  moreover have "discard_list r = []" using sd f by (cases "discard_list s") simp_all
  ultimately show ?thesis using sd f clear by auto
qed

theorem clear_prefree_segments_correct_witness:
  "\<exists>r cpc'. (r, cpc') = clear_prefree_segments volume_with_prefree
       \<lparr>reason = CP_SYNC, trim_start = 0, trim_end = 0, trim_minlen = 0, trimmed = 0\<rparr>
     \<and> nr_dirty (dirty_i r) ! PRE = 0 \<and> discards_issued r = [(START_BLOCK volume_with_prefree 13, 16)]"
proof -
  obtain r cpc' where e: "(r, cpc') = clear_prefree_segments volume_with_prefree
      \<lparr>reason = CP_SYNC, trim_start = 0, trim_end = 0, trim_minlen = 0, trimmed = 0\<rparr>"
    by (metis surj_pair)
  have "lists_inv (main_segments volume_with_prefree) (dirty_i volume_with_prefree)" by code_simp
  note c = clear_prefree_segments_correct [OF this e]
  have "run_discards volume_with_prefree (runs (filed (dirty_i volume_with_prefree) PRE) (main_segments volume_with_prefree) 0)
      = [(START_BLOCK volume_with_prefree 13, 16)]" "discard_list volume_with_prefree = []"
    "discards_issued volume_with_prefree = []" by code_simp+
  with c have "nr_dirty (dirty_i r) ! PRE = 0 \<and> discards_issued r = [(START_BLOCK volume_with_prefree 13, 16)]"
    by (simp add: sent_def)
  with e show ?thesis by blast
qed

subsection \<open>Collecting the discardable blocks of a segment\<close>

definition covered :: "(nat \<times> nat) list \<Rightarrow> nat list" where
  "covered es = concat (map (\<lambda>(a, len). [a..<a + len]) es)"

lemma covered_append [simp]: "covered (xs @ ys) = covered xs @ covered ys"
  by (simp add: covered_def)

lemma covered_single [simp]: "covered [(a, len)] = [a..<a + len]"
  by (simp add: covered_def)

lemma add_discard_entry_covered:
  assumes "st \<le> en"
  shows "covered (discard_list (add_discard_entry s t st en)) =
      covered (discard_list s) @ map ((+) (START_BLOCK s t)) [st..<en]"
    "nr_discards (add_discard_entry s t st en) = nr_discards s + int (en - st)"
    "START_BLOCK (add_discard_entry s t st en) = START_BLOCK s"
proof -
  let ?b = "START_BLOCK s t" and ?h = "discard_list s"
  have sh: "map ((+) ?b) [st..<en] = [?b + st..<?b + en]" by (rule nth_equalityI) auto
  show "covered (discard_list (add_discard_entry s t st en)) = covered ?h @ map ((+) ?b) [st..<en]"
  proof (cases "?h \<noteq> [] \<and> ?b + st = fst (last ?h) + snd (last ?h)")
    case True
    obtain a l where al: "last ?h = (a, l)" by (cases "last ?h")
    have h: "covered ?h = covered (butlast ?h) @ [a..<a + l]"
      using True al covered_append [of "butlast ?h" "[last ?h]"] append_butlast_last_id [of ?h]
      by (simp del: append_butlast_last_id covered_append)
    have "[a..<a + (l + (en - st))] = [a..<a + l] @ [a + l..<a + l + (en - st)]"
      using upt_add_eq_append [of a "a + l" "en - st"] by (simp add: add.assoc)
    moreover have e: "?b + st = a + l" using True al by simp
    moreover have "?b + en = a + l + (en - st)" using e assms by linarith
    ultimately show ?thesis using True al h by (simp add: add_discard_entry_def Let_def sh)
  next
    case False
    have "?b + st + (en - st) = ?b + en" using assms by simp
    then show ?thesis by (simp add: add_discard_entry_def Let_def sh if_not_P [OF False])
  qed
  show "nr_discards (add_discard_entry s t st en) = nr_discards s + int (en - st)"
    "START_BLOCK (add_discard_entry s t st en) = START_BLOCK s"
    by (auto intro!: ext simp: add_discard_entry_def Let_def START_BLOCK_def)
qed

lemma fold_add_discard_entry:
  assumes "\<forall>(a, b) \<in> set rs. a \<le> b" "r = fold (\<lambda>(a, b) s. add_discard_entry s t a b) rs s"
  shows "covered (discard_list r) = covered (discard_list s) @ map ((+) (START_BLOCK s t)) (concat (map (\<lambda>(a, b). [a..<b]) rs))
    \<and> nr_discards r = nr_discards s + int (run_size rs)"
  using assms
proof (induction rs arbitrary: s)
  case (Cons p rs)
  obtain a b where p: "p = (a, b)" by (cases p)
  then have "a \<le> b" "r = fold (\<lambda>(a, b) s. add_discard_entry s t a b) rs (add_discard_entry s t a b)"
    using Cons.prems by simp_all
  with Cons.IH [of "add_discard_entry s t a b"] Cons.prems(1) add_discard_entry_covered [of a b s t]
  show ?case by (simp add: p run_size_def)
qed (simp add: run_size_def)

lemma add_discard_loop_force:
  assumes "mx \<le> 8 * length dmap"
  shows "add_discard_loop True t dmap mx s pos =
    fold (\<lambda>(a, b) s. add_discard_entry s t a b) (runs (\<lambda>i. f2fs_test_bit i dmap) mx pos) s"
  by (rule rs.loop_is_fold [OF assms]) (subst add_discard_loop.simps, simp add: Let_def)

lemma dmap_bit:
  assumes "i < 8 * n" "length ck = n" "length dm = n" "length cm = n"
  shows "f2fs_test_bit i (map (\<lambda>k. NOT (ck ! k) AND NOT (dm ! k)) [0..<n])
    = (\<not> f2fs_test_bit i ck \<and> \<not> f2fs_test_bit i dm)"
  using assms div8_lt [OF assms(1)] bit_pos_lt [of i]
  by (simp add: f2fs_test_bit_bit bit_and_iff bit_not_iff)



end
