(* ===== verification/Policy.thy ===== *)
theory Policy
  imports Dirty
begin

section \<open>Space policies and the cleaner's pace\<close>

text \<open>
  The inline functions of \<open>Max/segment.h\<close> and \<open>Max/gc.h\<close> that decide when to reuse dirty
  segments (SSR), when to write in place, when to clean, and how long the cleaner thread of
  \<open>Max/gc.c\<close> sleeps. Arithmetic on \<open>block_t\<close> is reduced to 32 bits where the code
  computes it, before any conversion to \<open>long\<close>.
\<close>

subsection \<open>\<open>segment.h\<close>\<close>

definition written_block_count :: "sbi \<Rightarrow> nat" where
  "written_block_count s = written_valid_blocks (sit_i s)"

definition prefree_segments :: "sbi \<Rightarrow> nat" where
  "prefree_segments s = u32_of (nr_dirty (dirty_i s) ! PRE)"

definition dirty_segments :: "sbi \<Rightarrow> nat" where
  "dirty_segments s =
     u32_of (nr_dirty (dirty_i s) ! CURSEG_HOT_DATA + nr_dirty (dirty_i s) ! CURSEG_WARM_DATA +
       nr_dirty (dirty_i s) ! CURSEG_COLD_DATA + nr_dirty (dirty_i s) ! CURSEG_HOT_NODE +
       nr_dirty (dirty_i s) ! CURSEG_WARM_NODE + nr_dirty (dirty_i s) ! CURSEG_COLD_NODE)"

definition overprovision_sections :: "sbi \<Rightarrow> nat" where
  "overprovision_sections s = ovp_segments s div segs_per_sec s"

definition reserved_sections :: "sbi \<Rightarrow> nat" where
  "reserved_sections s = reserved_segments s div segs_per_sec s"

definition get_blocktype_secs :: "sbi \<Rightarrow> nat \<Rightarrow> nat" where
  "get_blocktype_secs s pages =
     (let pages_per_sec = segs_per_sec s * 2 ^ log_blocks_per_seg s
      in (sub32 (add32 pages pages_per_sec) 1 div 2 ^ log_blocks_per_seg s) div segs_per_sec s)"

definition need_SSR :: "sbi \<Rightarrow> bool" where
  "need_SSR s =
     (let node_secs = get_blocktype_secs s (nr_dirty_nodes s);
          dent_secs = get_blocktype_secs s (nr_dirty_dents s)
      in free_sections (free_i s) \<le> node_secs + 2 * dent_secs + reserved_sections s + 1)"

definition has_not_enough_free_secs :: "sbi \<Rightarrow> nat \<Rightarrow> bool" where
  "has_not_enough_free_secs s freed =
     (if por_doing s then False
      else let node_secs = get_blocktype_secs s (nr_dirty_nodes s);
               dent_secs = get_blocktype_secs s (nr_dirty_dents s)
           in free_sections (free_i s) + freed \<le> node_secs + 2 * dent_secs + reserved_sections s)"

definition excess_prefree_segs :: "sbi \<Rightarrow> bool" where
  "excess_prefree_segs s = (prefree_segments s > rec_prefree_segments s)"

definition utilization :: "sbi \<Rightarrow> nat" where
  "utilization s = total_valid_block_count s * 100 div user_block_count s"

text \<open>Bits of \<open>ipu_policy\<close>, and what \<open>need_inplace_update\<close> reads of the inode.\<close>

definition F2FS_IPU_FORCE :: nat where "F2FS_IPU_FORCE = 0"
definition F2FS_IPU_SSR :: nat where "F2FS_IPU_SSR = 1"
definition F2FS_IPU_UTIL :: nat where "F2FS_IPU_UTIL = 2"
definition F2FS_IPU_SSR_UTIL :: nat where "F2FS_IPU_SSR_UTIL = 3"
definition F2FS_IPU_FSYNC :: nat where "F2FS_IPU_FSYNC = 4"

record ipu_inode =
  ipu_is_dir :: bool
  ipu_is_atomic :: bool
  ipu_need_flag :: bool

definition need_inplace_update :: "sbi \<Rightarrow> ipu_inode \<Rightarrow> bool" where
  "need_inplace_update s inode =
     (let policy = ipu_policy s
      in if ipu_is_dir inode \<or> ipu_is_atomic inode then False
         else if bit policy F2FS_IPU_FORCE then True
         else if bit policy F2FS_IPU_SSR \<and> need_SSR s then True
         else if bit policy F2FS_IPU_UTIL \<and> utilization s > min_ipu_util s then True
         else if bit policy F2FS_IPU_SSR_UTIL \<and> need_SSR s \<and> utilization s > min_ipu_util s then True
         else if bit policy F2FS_IPU_FSYNC \<and> ipu_need_flag inode then True
         else False)"

subsection \<open>\<open>gc.h\<close>\<close>

definition LIMIT_INVALID_BLOCK :: nat where "LIMIT_INVALID_BLOCK = 40"
definition LIMIT_FREE_BLOCK :: nat where "LIMIT_FREE_BLOCK = 40"

definition free_user_blocks :: "sbi \<Rightarrow> nat" where
  "free_user_blocks s =
     (if free_segments (free_i s) < ovp_segments s then 0
      else (free_segments (free_i s) - ovp_segments s) * 2 ^ log_blocks_per_seg s mod 2 ^ 32)"

definition limit_invalid_user_blocks :: "sbi \<Rightarrow> nat" where
  "limit_invalid_user_blocks s = (user_block_count s * LIMIT_INVALID_BLOCK mod 2 ^ 32) div 100"

definition limit_free_user_blocks :: "sbi \<Rightarrow> nat" where
  "limit_free_user_blocks s =
     (let reclaimable_user_blocks = sub32 (user_block_count s) (written_block_count s)
      in (reclaimable_user_blocks * LIMIT_FREE_BLOCK mod 2 ^ 32) div 100)"

definition has_enough_invalid_blocks :: "sbi \<Rightarrow> bool" where
  "has_enough_invalid_blocks s =
     (let invalid_user_blocks = sub32 (user_block_count s) (written_block_count s)
      in invalid_user_blocks > limit_invalid_user_blocks s \<and> free_user_blocks s < limit_free_user_blocks s)"

record f2fs_gc_kthread =
  min_sleep_time :: nat
  max_sleep_time :: nat
  no_gc_sleep_time :: nat

definition start_gc_thread :: f2fs_gc_kthread where
  "start_gc_thread = \<lparr>min_sleep_time = 30000, max_sleep_time = 60000, no_gc_sleep_time = 300000\<rparr>"

definition increase_sleep_time :: "f2fs_gc_kthread \<Rightarrow> int \<Rightarrow> int" where
  "increase_sleep_time th wait =
     (if wait = int (no_gc_sleep_time th) then wait
      else let wait = wait + int (min_sleep_time th)
           in if wait > int (max_sleep_time th) then int (max_sleep_time th) else wait)"

definition decrease_sleep_time :: "f2fs_gc_kthread \<Rightarrow> int \<Rightarrow> int" where
  "decrease_sleep_time th wait =
     (let wait = (if wait = int (no_gc_sleep_time th) then int (max_sleep_time th) else wait);
          wait = wait - int (min_sleep_time th)
      in if wait \<le> int (min_sleep_time th) then int (min_sleep_time th) else wait)"

text \<open>
  One turn of the loop of \<open>gc_thread_func\<close>, by what it observes: the file system frozen for
  writing, \<open>gc_mutex\<close> taken, the device busy, or a cleaning whose result may be that no
  victim was found.
\<close>

inductive gc_turn :: "f2fs_gc_kthread \<Rightarrow> int \<Rightarrow> int \<Rightarrow> bool" for th where
  frozen: "gc_turn th w (increase_sleep_time th w)"
| mutex_busy: "gc_turn th w w"
| not_idle: "gc_turn th w (increase_sleep_time th w)"
| cleaned_enough: "gc_turn th w (decrease_sleep_time th w)"
| cleaned_few: "gc_turn th w (increase_sleep_time th w)"
| no_victim: "gc_turn th w (int (no_gc_sleep_time th))"

definition gc_wait_start :: "f2fs_gc_kthread \<Rightarrow> int \<Rightarrow> bool" where
  "gc_wait_start th w = (w = int (min_sleep_time th) \<and> min_sleep_time th \<le> max_sleep_time th)"

definition gc_wait_inv :: "f2fs_gc_kthread \<Rightarrow> int \<Rightarrow> bool" where
  "gc_wait_inv th w =
     (min_sleep_time th \<le> max_sleep_time th \<and>
      (w = int (no_gc_sleep_time th) \<or> int (min_sleep_time th) \<le> w \<and> w \<le> int (max_sleep_time th)))"

interpretation gc_pace: state_machine "gc_wait_start th" "gc_turn th" "gc_wait_inv th" for th
proof unfold_locales
  show "gc_wait_inv th w" if "gc_wait_start th w" for w
    using that by (auto simp: gc_wait_start_def gc_wait_inv_def)
  show "gc_wait_inv th w'" if "gc_turn th w w'" "gc_wait_inv th w" for w w'
    using that
    by (cases rule: gc_turn.cases)
      (auto simp: gc_wait_inv_def increase_sleep_time_def decrease_sleep_time_def Let_def)
qed

text \<open>
  C21: whatever the cleaner thread observes, the time it sleeps stays between the minimum and
  the maximum it was configured with, or is the pause after a turn without a victim.
\<close>
theorem gc_sleep_bounds:
  assumes "min_sleep_time th \<le> max_sleep_time th" "(gc_turn th)\<^sup>*\<^sup>* (int (min_sleep_time th)) w"
  shows "w = int (no_gc_sleep_time th) \<or> int (min_sleep_time th) \<le> w \<and> w \<le> int (max_sleep_time th)"
  using gc_pace.invar_reachable [of th "int (min_sleep_time th)" w] assms
  by (simp add: gc_wait_start_def gc_wait_inv_def)

theorem gc_sleep_bounds_witness:
  "(gc_turn start_gc_thread)\<^sup>*\<^sup>* 30000 60000 \<and> (60000 = int (no_gc_sleep_time start_gc_thread) \<or>
     int (min_sleep_time start_gc_thread) \<le> 60000 \<and> 60000 \<le> int (max_sleep_time start_gc_thread))"
proof -
  have "gc_turn start_gc_thread 30000 (increase_sleep_time start_gc_thread 30000)" by (rule frozen)
  then have "(gc_turn start_gc_thread)\<^sup>*\<^sup>* 30000 60000"
    by (simp add: increase_sleep_time_def start_gc_thread_def r_into_rtranclp)
  with gc_sleep_bounds [of start_gc_thread 60000] show ?thesis by (simp add: start_gc_thread_def)
qed



text \<open>
  the threshold of invalid blocks above which the cleaner speeds up is 40 per cent of the
  user blocks exactly when the product fits 32 bits: beyond 107374182 blocks the multiplication
  wraps before it is widened, and the threshold is too low.
\<close>
theorem limit_invalid_user_blocks_wraps:
  "(limit_invalid_user_blocks s = user_block_count s * 40 div 100 \<longleftrightarrow> user_block_count s \<le> 107374182)
    \<and> limit_invalid_user_blocks s \<le> user_block_count s * 40 div 100"
proof (cases "user_block_count s \<le> 107374182")
  case True
  then show ?thesis by (simp add: limit_invalid_user_blocks_def LIMIT_INVALID_BLOCK_def)
next
  case False
  let ?x = "user_block_count s * 40"
  have "?x mod 4294967296 + 4294967296 * (?x div 4294967296) = ?x" by (rule mod_mult_div_eq)
  moreover have "1 \<le> ?x div 4294967296" using False by simp
  ultimately have "?x mod 4294967296 + 4294967296 \<le> ?x" by linarith
  then have "?x mod 4294967296 + 100 \<le> ?x" by linarith
  then have "(?x mod 4294967296 + 100) div 100 \<le> ?x div 100" by (rule div_le_mono)
  then have "?x mod 4294967296 div 100 < ?x div 100" by simp
  with False show ?thesis by (simp add: limit_invalid_user_blocks_def LIMIT_INVALID_BLOCK_def)
qed

end
