(* ===== verification/Victim.thy ===== *)
theory Victim
  imports Policy
begin

section \<open>Victim selection\<close>

text \<open>
  \<open>get_victim_by_default\<close> of \<open>Max/gc.c\<close> and its helpers: the choice of a section to clean
  and of a segment to reuse. The search loop may in principle not end (it steps by
  \<open>ofs_unit\<close>), so it is a \<open>partial_function\<close> whose value \<open>None\<close> is divergence; that
  it returns is proved.
\<close>

record victim_sel_policy =
  p_alloc_mode :: alloc_mode
  p_gc_mode :: gc_mode
  p_dirty_segmap :: bitmap
  max_search :: nat
  offset :: nat
  ofs_unit :: nat
  min_cost :: nat
  min_segno :: nat

definition UINT_MAX :: nat where "UINT_MAX = 2 ^ 32 - 1"

definition select_gc_type :: "nat option \<Rightarrow> gc_type \<Rightarrow> gc_mode" where
  "select_gc_type gc_th gc_type =
     (let gc_mode = (if gc_type = BG_GC then GC_CB else GC_GREEDY)
      in case gc_th of
           None \<Rightarrow> gc_mode
         | Some gc_idle \<Rightarrow> if gc_idle = 1 then GC_CB else if gc_idle = 2 then GC_GREEDY else gc_mode)"

definition select_policy :: "sbi \<Rightarrow> gc_type \<Rightarrow> nat \<Rightarrow> alloc_mode \<Rightarrow> victim_sel_policy" where
  "select_policy s gc_type type mode =
     (let d = dirty_i s;
          (gc_mode, map, mx, unit) =
            (if mode = SSR
             then (GC_GREEDY, dirty_segmap d ! type, u32_of (nr_dirty d ! type), 1)
             else (select_gc_type (gc_thread s) gc_type, dirty_segmap d ! DIRTY, u32_of (nr_dirty d ! DIRTY), segs_per_sec s));
          mx = (if mx > max_victim_search s then max_victim_search s else mx)
      in \<lparr>p_alloc_mode = mode, p_gc_mode = gc_mode, p_dirty_segmap = map, max_search = mx,
          offset = last_victim s gc_mode, ofs_unit = unit, min_cost = 0, min_segno = NULL_SEGNO\<rparr>)"

definition get_max_cost :: "sbi \<Rightarrow> victim_sel_policy \<Rightarrow> nat" where
  "get_max_cost s p =
     (if p_alloc_mode p = SSR then 2 ^ log_blocks_per_seg s
      else if p_gc_mode p = GC_GREEDY then 2 ^ log_blocks_per_seg s * ofs_unit p
      else UINT_MAX)"

definition check_bg_victims :: "sbi \<Rightarrow> sbi \<times> nat" where
  "check_bg_victims s =
     (case find (\<lambda>secno. test_bit secno (victim_secmap (dirty_i s)) \<and> \<not> sec_usage_check s secno)
            [0..<total_sections s] of
        None \<Rightarrow> (s, NULL_SEGNO)
      | Some secno \<Rightarrow>
          (s\<lparr>dirty_i := (dirty_i s)\<lparr>victim_secmap := clear_bit secno (victim_secmap (dirty_i s))\<rparr>\<rparr>,
           secno * segs_per_sec s))"

text \<open>
  \<open>get_cb_cost\<close> in its parts: the mean modification time of the section, the adjustment of the
  known range of times (the system time may have been changed by the user), and the cost.
\<close>

definition section_mtime :: "sbi \<Rightarrow> nat \<Rightarrow> nat" where
  "section_mtime s sn =
     (let start = GET_SECNO s sn * segs_per_sec s
      in sum_list (map (\<lambda>i. seg_mtime (get_seg_entry s (start + i))) [0..<segs_per_sec s]) mod 2 ^ 64
           div segs_per_sec s)"

definition adjust_mtimes :: "nat \<Rightarrow> sit_info \<Rightarrow> sit_info" where
  "adjust_mtimes mtime si =
     (let si = (if mtime < min_mtime si then si\<lparr>min_mtime := mtime\<rparr> else si)
      in if mtime > max_mtime si then si\<lparr>max_mtime := mtime\<rparr> else si)"

definition cb_cost :: "nat \<Rightarrow> nat \<Rightarrow> sit_info \<Rightarrow> nat" where
  "cb_cost u mtime si =
     (let age = (if max_mtime si \<noteq> min_mtime si
                 then nat ((100 - int (100 * (mtime - min_mtime si) mod 2 ^ 64 div (max_mtime si - min_mtime si))) mod 2 ^ 8)
                 else 0);
          n = 100 * (100 - int u) * int age;
          gain = (if n \<ge> 0 then n div (100 + int u) else - ((- n) div (100 + int u)))
      in nat ((int UINT_MAX - gain) mod 2 ^ 32))"

definition get_cb_cost :: "sbi \<Rightarrow> nat \<Rightarrow> sbi \<times> nat" where
  "get_cb_cost s sn =
     (let mtime = section_mtime s sn;
          vblocks = get_valid_blocks s sn (segs_per_sec s) div segs_per_sec s;
          u = (vblocks * 100 mod 2 ^ 32 div 2 ^ log_blocks_per_seg s) mod 2 ^ 8;
          s = s\<lparr>sit_i := adjust_mtimes mtime (sit_i s)\<rparr>
      in (s, cb_cost u mtime (sit_i s)))"

definition get_gc_cost :: "sbi \<Rightarrow> nat \<Rightarrow> victim_sel_policy \<Rightarrow> sbi \<times> nat" where
  "get_gc_cost s sn p =
     (if p_alloc_mode p = SSR then (s, ckpt_valid_blocks (get_seg_entry s sn))
      else if p_gc_mode p = GC_GREEDY then (s, get_valid_blocks s sn (segs_per_sec s))
      else get_cb_cost s sn)"

partial_function (option) victim_loop ::
  "gc_type \<Rightarrow> nat \<Rightarrow> victim_sel_policy \<Rightarrow> nat \<Rightarrow> sbi \<Rightarrow> (victim_sel_policy \<times> sbi) option" where
  "victim_loop gc_type max_cost p nsearched s =
     (let sn = find_next_bit (p_dirty_segmap p) (main_segments s) (offset p)
      in if sn \<ge> main_segments s
         then (if last_victim s (p_gc_mode p) \<noteq> 0
               then victim_loop gc_type max_cost (p\<lparr>offset := 0\<rparr>) nsearched
                      (s\<lparr>last_victim := (last_victim s)(p_gc_mode p := 0)\<rparr>)
               else Some (p, s))
         else let p = p\<lparr>offset := sn + ofs_unit p - (if ofs_unit p > 1 then sn mod ofs_unit p else 0)\<rparr>;
                  secno = GET_SECNO s sn
              in if sec_usage_check s secno then victim_loop gc_type max_cost p nsearched s
                 else if gc_type = BG_GC \<and> test_bit secno (victim_secmap (dirty_i s))
                 then victim_loop gc_type max_cost p nsearched s
                 else let (s, cost) = get_gc_cost s sn p;
                          better = (min_cost p > cost);
                          p = (if better then p\<lparr>min_segno := sn, min_cost := cost\<rparr> else p)
                      in if \<not> better \<and> cost = max_cost then victim_loop gc_type max_cost p nsearched s
                         else if nsearched \<ge> max_search p
                         then Some (p, s\<lparr>last_victim := (last_victim s)(p_gc_mode p := sn)\<rparr>)
                         else victim_loop gc_type max_cost p (nsearched + 1) s)"

definition take_victim :: "gc_type \<Rightarrow> victim_sel_policy \<Rightarrow> sbi \<Rightarrow> sbi \<times> nat option" where
  "take_victim gc_type p s =
     (if min_segno p = NULL_SEGNO then (s, None)
      else let secno = GET_SECNO s (min_segno p);
               s = (if p_alloc_mode p = LFS
                    then (if gc_type = FG_GC then s\<lparr>cur_victim_sec := secno\<rparr>
                          else s\<lparr>dirty_i := (dirty_i s)\<lparr>victim_secmap := set_bit secno (victim_secmap (dirty_i s))\<rparr>\<rparr>)
                    else s)
           in (s, Some (min_segno p div ofs_unit p * ofs_unit p)))"

definition get_victim_by_default :: "sbi \<Rightarrow> gc_type \<Rightarrow> nat \<Rightarrow> alloc_mode \<Rightarrow> (sbi \<times> nat option) option" where
  "get_victim_by_default s gc_type type mode =
     (let p = select_policy s gc_type type mode;
          max_cost = get_max_cost s p;
          p = p\<lparr>min_segno := NULL_SEGNO, min_cost := max_cost\<rparr>;
          (s, seg) = (if mode = LFS \<and> gc_type = FG_GC then check_bg_victims s else (s, NULL_SEGNO));
          p = p\<lparr>min_segno := seg\<rparr>
      in if seg \<noteq> NULL_SEGNO then Some (take_victim gc_type p s)
         else case victim_loop gc_type max_cost p 0 s of
                None \<Rightarrow> None
              | Some (p, s) \<Rightarrow> Some (take_victim gc_type p s))"

subsection \<open>The search returns, and returns an eligible victim\<close>

text \<open>What the search leaves alone: everything but the times of the cost-benefit policy and the resume points.\<close>

definition search_frame :: "sbi \<Rightarrow> sbi \<Rightarrow> bool" where
  "search_frame s s' \<longleftrightarrow>
     (\<exists>mn mx lv. s' = s\<lparr>sit_i := (sit_i s)\<lparr>min_mtime := mn, max_mtime := mx\<rparr>, last_victim := lv\<rparr>)"

lemma search_frame_refl [simp]: "search_frame s s"
  unfolding search_frame_def
  by (rule exI [of _ "min_mtime (sit_i s)"], rule exI [of _ "max_mtime (sit_i s)"], rule exI [of _ "last_victim s"]) simp

lemma search_frame_trans [trans]: "search_frame s q \<Longrightarrow> search_frame q r \<Longrightarrow> search_frame s r"
  by (fastforce simp: search_frame_def)

lemma search_frame_last_victim [simp]: "search_frame s (s\<lparr>last_victim := f\<rparr>)"
  unfolding search_frame_def
  by (rule exI [of _ "min_mtime (sit_i s)"], rule exI [of _ "max_mtime (sit_i s)"], rule exI [of _ f]) simp

lemma search_frameD:
  assumes "search_frame s s'"
  shows "main_segments s' = main_segments s" "dirty_i s' = dirty_i s" "sec_usage_check s' = sec_usage_check s"
    "GET_SECNO s' = GET_SECNO s" "get_seg_entry s' = get_seg_entry s" "get_valid_blocks s' = get_valid_blocks s"
    "segs_per_sec s' = segs_per_sec s" "curseg_array s' = curseg_array s" "free_i s' = free_i s"
    "cur_victim_sec s' = cur_victim_sec s"
  using assms
  by (auto intro!: ext simp: search_frame_def sec_usage_check_def IS_CURSEC_def GET_SECNO_def get_seg_entry_def
      get_valid_blocks_def)

lemma search_frameI:
  "search_frame s (s\<lparr>sit_i := (sit_i s)\<lparr>min_mtime := mn, max_mtime := mx\<rparr>\<rparr>)"
  unfolding search_frame_def by (intro exI [of _ mn] exI [of _ mx] exI [of _ "last_victim s"]) simp

lemma adjust_mtimes_eq:
  "adjust_mtimes m si = si\<lparr>min_mtime := min m (min_mtime si), max_mtime := max m (max_mtime si)\<rparr>"
  by (cases si) (simp add: adjust_mtimes_def Let_def min_def max_def)

lemma fst_get_cb_cost:
  "fst (get_cb_cost s sn) = s\<lparr>sit_i := (sit_i s)\<lparr>min_mtime := min (section_mtime s sn) (min_mtime (sit_i s)),
     max_mtime := max (section_mtime s sn) (max_mtime (sit_i s))\<rparr>\<rparr>"
  by (simp add: get_cb_cost_def Let_def adjust_mtimes_eq)

lemma get_gc_cost_frame: "search_frame s (fst (get_gc_cost s sn p))"
  by (simp add: get_gc_cost_def fst_get_cb_cost search_frameI)

definition eligible :: "gc_type \<Rightarrow> sbi \<Rightarrow> bitmap \<Rightarrow> nat \<Rightarrow> bool" where
  "eligible gc_type s m sn \<longleftrightarrow>
     sn < main_segments s \<and> test_bit sn m \<and> \<not> sec_usage_check s (GET_SECNO s sn) \<and>
     \<not> (gc_type = BG_GC \<and> test_bit (GET_SECNO s sn) (victim_secmap (dirty_i s)))"

text \<open>How a later state of the search relates to an earlier one.\<close>

definition search_ok :: "gc_type \<Rightarrow> victim_sel_policy \<Rightarrow> sbi \<Rightarrow> victim_sel_policy \<Rightarrow> sbi \<Rightarrow> bool" where
  "search_ok gc_type p s p' s' \<longleftrightarrow>
     search_frame s s' \<and> p_alloc_mode p' = p_alloc_mode p \<and> ofs_unit p' = ofs_unit p \<and>
     (min_segno p' = min_segno p \<and> min_cost p' = min_cost p \<or>
      eligible gc_type s (p_dirty_segmap p) (min_segno p') \<and> min_cost p' < min_cost p \<and>
      (p_alloc_mode p = SSR \<longrightarrow> min_cost p' = ckpt_valid_blocks (get_seg_entry s (min_segno p'))))"

lemma eligible_frame: "search_frame s s' \<Longrightarrow> eligible gc_type s' m sn = eligible gc_type s m sn"
  by (simp add: eligible_def search_frameD)

lemma search_ok_trans:
  assumes "search_ok gc_type p s q t" "search_ok gc_type q t r u" "p_dirty_segmap q = p_dirty_segmap p"
  shows "search_ok gc_type p s r u"
proof -
  have f: "search_frame s t" "search_frame t u" using assms(1,2) by (simp_all add: search_ok_def)
  then have su: "search_frame s u" by (rule search_frame_trans)
  have "eligible gc_type t (p_dirty_segmap q) n = eligible gc_type s (p_dirty_segmap p) n" for n
    using eligible_frame [OF f(1)] assms(3) by simp
  with su show ?thesis using assms(1,2) search_frameD(5) [OF f(1)]
    unfolding search_ok_def by (elim conjE disjE; simp)
qed

text \<open>The three kinds of turn of the loop.\<close>

definition victim_offset :: "victim_sel_policy \<Rightarrow> nat \<Rightarrow> nat" where
  "victim_offset p sn = sn + ofs_unit p - (if ofs_unit p > 1 then sn mod ofs_unit p else 0)"

lemma victim_offset_gt:
  assumes "0 < ofs_unit p"
  shows "sn < victim_offset p sn"
proof -
  have "sn mod ofs_unit p < ofs_unit p" using assms by simp
  then have "sn < sn + ofs_unit p - sn mod ofs_unit p" by linarith
  then show ?thesis using assms by (simp add: victim_offset_def)
qed

lemma victim_loop_wrap:
  assumes "\<not> find_next_bit (p_dirty_segmap p) (main_segments s) (offset p) < main_segments s"
  shows "victim_loop gc_type max_cost p nsearched s =
    (if last_victim s (p_gc_mode p) \<noteq> 0
     then victim_loop gc_type max_cost (p\<lparr>offset := 0\<rparr>) nsearched (s\<lparr>last_victim := (last_victim s)(p_gc_mode p := 0)\<rparr>)
     else Some (p, s))"
  using assms by (subst victim_loop.simps) (simp only: Let_def not_less if_True)

lemma victim_loop_skip:
  assumes "sn = find_next_bit (p_dirty_segmap p) (main_segments s) (offset p)" "sn < main_segments s"
    and "sec_usage_check s (GET_SECNO s sn) \<or> gc_type = BG_GC \<and> test_bit (GET_SECNO s sn) (victim_secmap (dirty_i s))"
  shows "victim_loop gc_type max_cost p nsearched s =
    victim_loop gc_type max_cost (p\<lparr>offset := victim_offset p sn\<rparr>) nsearched s"
proof -
  have n: "(main_segments s \<le> sn) = False" using assms(2) by simp
  show ?thesis
    using assms(3)
    by (subst victim_loop.simps)
       (simp only: Let_def assms(1) [symmetric] n if_False victim_offset_def [symmetric], auto)
qed

lemma victim_loop_visit:
  assumes "sn = find_next_bit (p_dirty_segmap p) (main_segments s) (offset p)" "sn < main_segments s"
    and "\<not> sec_usage_check s (GET_SECNO s sn)" "\<not> (gc_type = BG_GC \<and> test_bit (GET_SECNO s sn) (victim_secmap (dirty_i s)))"
    and "get_gc_cost s sn (p\<lparr>offset := victim_offset p sn\<rparr>) = (t, cost)"
    and "q = (if min_cost p > cost then p\<lparr>offset := victim_offset p sn, min_segno := sn, min_cost := cost\<rparr>
      else p\<lparr>offset := victim_offset p sn\<rparr>)"
  shows "victim_loop gc_type max_cost p nsearched s =
    (if \<not> min_cost p > cost \<and> cost = max_cost then victim_loop gc_type max_cost q nsearched t
     else if nsearched \<ge> max_search q then Some (q, t\<lparr>last_victim := (last_victim t)(p_gc_mode q := sn)\<rparr>)
     else victim_loop gc_type max_cost q (nsearched + 1) t)"
proof -
  have n: "(main_segments s \<le> sn) = False" using assms(2) by simp
  have mc: "min_cost (p\<lparr>offset := x\<rparr>) = min_cost p" for x by simp
  show ?thesis
    using assms(3,4)
    by (subst victim_loop.simps)
       (simp only: Let_def assms(1) [symmetric] n if_False victim_offset_def [symmetric] assms(5,6) prod.case
          mc)
qed

lemma get_gc_cost_last_victim: "get_gc_cost s sn p = (t, cost) \<Longrightarrow> last_victim t = last_victim s"
proof -
  have "last_victim (fst (get_cb_cost s sn)) = last_victim s" by (simp add: fst_get_cb_cost)
  then have "last_victim (fst (get_gc_cost s sn p)) = last_victim s" by (simp add: get_gc_cost_def)
  then show "get_gc_cost s sn p = (t, cost) \<Longrightarrow> last_victim t = last_victim s" by simp
qed

definition search_measure :: "victim_sel_policy \<Rightarrow> sbi \<Rightarrow> nat" where
  "search_measure p s =
     (if last_victim s (p_gc_mode p) \<noteq> 0 then Suc (main_segments s) else 0) + (main_segments s - offset p)"

lemma victim_loop_returns:
  assumes "0 < ofs_unit p"
  shows "\<exists>p' s'. victim_loop gc_type max_cost p nsearched s = Some (p', s') \<and> search_ok gc_type p s p' s'"
  using assms
proof (induction "search_measure p s" arbitrary: p nsearched s rule: less_induct)
  case less
  let ?n = "main_segments s"
  define sn where sn: "sn = find_next_bit (p_dirty_segmap p) ?n (offset p)"
  show ?case
  proof (cases "sn < ?n")
    case False
    note step = victim_loop_wrap [of p s gc_type max_cost nsearched, folded sn, OF False]
    show ?thesis
    proof (cases "last_victim s (p_gc_mode p) = 0")
      case True
      then show ?thesis by (simp add: step search_ok_def)
    next
      case lv: False
      let ?p = "p\<lparr>offset := 0\<rparr>" and ?s = "s\<lparr>last_victim := (last_victim s)(p_gc_mode p := 0)\<rparr>"
      have "search_measure ?p ?s < search_measure p s" using lv by (simp add: search_measure_def)
      from less(1) [OF this, of nsearched] less(2)
      obtain p' s' where r: "victim_loop gc_type max_cost ?p nsearched ?s = Some (p', s')" "search_ok gc_type ?p ?s p' s'"
        by auto
      have "search_ok gc_type p s ?p ?s" by (simp add: search_ok_def)
      from search_ok_trans [OF this r(2)] r(1) lv show ?thesis by (simp add: step)
    qed
  next
    case True
    have lo: "offset p \<le> sn" using True ks.nxt_lower [of ?n "replicate ?n False"] first_from_lower [of "offset p" ?n]
        first_from_ge [of ?n "offset p"]
      by (cases "offset p \<le> ?n") (auto simp: sn find_next_bit_def)
    have set: "test_bit sn (p_dirty_segmap p)" using True first_from_sat by (auto simp: sn find_next_bit_def)
    have rec: "\<exists>p' s'. victim_loop gc_type max_cost q k t = Some (p', s') \<and> search_ok gc_type p s p' s'"
      if q: "search_ok gc_type p s q t" "offset q = victim_offset p sn" "p_gc_mode q = p_gc_mode p"
        "last_victim t = last_victim s" "p_dirty_segmap q = p_dirty_segmap p" for q k t
    proof -
      have t: "main_segments t = ?n" "ofs_unit q = ofs_unit p" using q(1) search_frameD(1) by (auto simp: search_ok_def)
      have "?n - victim_offset p sn < ?n - offset p" using lo victim_offset_gt [OF less(2), of sn] True by linarith
      then have "search_measure q t < search_measure p s"
        unfolding search_measure_def q(2-4) t(1) by (rule add_strict_left_mono)
      from less(1) [OF this, of k] t(2) less(2)
      show ?thesis using search_ok_trans [OF q(1) _ q(5)] by auto
    qed
    let ?p = "p\<lparr>offset := victim_offset p sn\<rparr>" and ?sec = "GET_SECNO s sn"
    show ?thesis
    proof (cases "sec_usage_check s ?sec \<or> gc_type = BG_GC \<and> test_bit ?sec (victim_secmap (dirty_i s))")
      case skip: True
      have "search_ok gc_type p s ?p s" by (simp add: search_ok_def)
      from rec [OF this] show ?thesis by (simp add: victim_loop_skip [OF sn True skip])
    next
      case ok: False
      then have el: "eligible gc_type s (p_dirty_segmap p) sn" using True set by (simp add: eligible_def)
      obtain t cost where c: "get_gc_cost s sn ?p = (t, cost)" by (cases "get_gc_cost s sn ?p")
      have t: "search_frame s t" "last_victim t = last_victim s"
        using get_gc_cost_frame [of s sn ?p] get_gc_cost_last_victim [OF c] c by simp_all
      define q where q: "q = (if min_cost p > cost then p\<lparr>offset := victim_offset p sn, min_segno := sn, min_cost := cost\<rparr> else ?p)"
      have qo: "search_ok gc_type p s q t" "offset q = victim_offset p sn" "p_gc_mode q = p_gc_mode p"
        "p_dirty_segmap q = p_dirty_segmap p" using t el c by (auto simp: q search_ok_def get_gc_cost_def)
      have stop: "search_ok gc_type p s q (t\<lparr>last_victim := f\<rparr>)" for f
        using qo(1) search_frame_trans [OF t(1) search_frame_last_victim] by (simp add: search_ok_def)
      have step: "victim_loop gc_type max_cost p nsearched s =
          (if \<not> min_cost p > cost \<and> cost = max_cost then victim_loop gc_type max_cost q nsearched t
           else if nsearched \<ge> max_search q then Some (q, t\<lparr>last_victim := (last_victim t)(p_gc_mode q := sn)\<rparr>)
           else victim_loop gc_type max_cost q (nsearched + 1) t)"
        using ok by (intro victim_loop_visit [OF sn True _ _ c q]) auto
      show ?thesis unfolding step using rec [OF qo(1,2,3) t(2) qo(4)] stop by auto
    qed
  qed
qed

lemma select_policy_fields:
  "p_alloc_mode (select_policy s gc_type type mode) = mode"
  "ofs_unit (select_policy s gc_type type mode) = (if mode = SSR then 1 else segs_per_sec s)"
  "p_dirty_segmap (select_policy s gc_type type mode) = dirty_segmap (dirty_i s) ! (if mode = SSR then type else DIRTY)"
  by (simp_all add: select_policy_def Let_def)

lemma check_bg_victims_spec:
  assumes "check_bg_victims s = (s', seg)" "seg \<noteq> NULL_SEGNO"
  shows "\<exists>secno. secno < total_sections s \<and> test_bit secno (victim_secmap (dirty_i s)) \<and>
    \<not> sec_usage_check s secno \<and> seg = secno * segs_per_sec s \<and>
    s' = s\<lparr>dirty_i := (dirty_i s)\<lparr>victim_secmap := clear_bit secno (victim_secmap (dirty_i s))\<rparr>\<rparr>"
proof -
  let ?P = "\<lambda>secno. test_bit secno (victim_secmap (dirty_i s)) \<and> \<not> sec_usage_check s secno"
  obtain secno where f: "find ?P [0..<total_sections s] = Some secno"
    using assms by (cases "find ?P [0..<total_sections s]") (auto simp: check_bg_victims_def)
  then have "?P secno" "secno < total_sections s" by (auto simp: find_Some_iff)
  with f assms(1) show ?thesis by (auto simp: check_bg_victims_def)
qed

lemma get_victim_by_default_spec:
  assumes "wf_layout s" "main_segments s < NULL_SEGNO"
  shows "\<exists>s' res. get_victim_by_default s gc_type type mode = Some (s', res) \<and> (mode = SSR \<longrightarrow> search_frame s s') \<and>
    (\<forall>v. res = Some v \<longrightarrow>
      \<not> sec_usage_check s (GET_SECNO s v) \<and>
      (mode = SSR \<longrightarrow> v < main_segments s \<and> filed (dirty_i s) type v \<and>
         ckpt_valid_blocks (get_seg_entry s v) < blocks_per_seg s) \<and>
      (mode = LFS \<longrightarrow> segs_per_sec s dvd v \<and>
         ((\<exists>sn. sn < main_segments s \<and> filed (dirty_i s) DIRTY sn \<and> GET_SECNO s sn = GET_SECNO s v) \<or>
          gc_type = FG_GC \<and> test_bit (GET_SECNO s v) (victim_secmap (dirty_i s))) \<and>
         (gc_type = BG_GC \<longrightarrow> \<not> test_bit (GET_SECNO s v) (victim_secmap (dirty_i s)))))"
proof -
  have spc: "0 < segs_per_sec s" and main: "main_segments s = total_sections s * segs_per_sec s"
    using assms(1) by (simp_all add: wf_layout_def)
  define p where p: "p = (select_policy s gc_type type mode)\<lparr>min_cost := get_max_cost s (select_policy s gc_type type mode), min_segno := NULL_SEGNO\<rparr>"
  note sp = select_policy_fields [of s gc_type type mode]
  have pf: "p_alloc_mode p = mode" "ofs_unit p = (if mode = SSR then 1 else segs_per_sec s)"
    "p_dirty_segmap p = dirty_segmap (dirty_i s) ! (if mode = SSR then type else DIRTY)" "min_segno p = NULL_SEGNO"
    "mode = SSR \<Longrightarrow> min_cost p = blocks_per_seg s"
    using sp by (simp_all add: p get_max_cost_def)
  have u: "0 < ofs_unit p" using spc pf(2) by simp
  show ?thesis
  proof (cases "mode = LFS \<and> gc_type = FG_GC \<and> snd (check_bg_victims s) \<noteq> NULL_SEGNO")
    case True
    then obtain s1 seg where c: "check_bg_victims s = (s1, seg)" "seg \<noteq> NULL_SEGNO" by (cases "check_bg_victims s") auto
    then obtain secno where b: "test_bit secno (victim_secmap (dirty_i s))" "\<not> sec_usage_check s secno" "seg = secno * segs_per_sec s"
      using check_bg_victims_spec [OF c] by blast
    have e: "get_victim_by_default s gc_type type mode = Some (take_victim gc_type (p\<lparr>min_segno := seg\<rparr>) s1)"
      using True c by (simp add: get_victim_by_default_def Let_def p)
    have "GET_SECNO s seg = secno" using spc b(3) by (simp add: GET_SECNO_def)
    moreover have "snd (take_victim gc_type (p\<lparr>min_segno := seg\<rparr>) s1) = Some seg"
      using c(2) True b(3) pf(2) spc by (simp add: take_victim_def Let_def)
    then obtain s2 where t: "take_victim gc_type (p\<lparr>min_segno := seg\<rparr>) s1 = (s2, Some seg)"
      by (cases "take_victim gc_type (p\<lparr>min_segno := seg\<rparr>) s1") auto
    ultimately show ?thesis unfolding e t using True b by auto
  next
    case False
    obtain p' s' where r: "victim_loop gc_type (min_cost p) p 0 s = Some (p', s')" "search_ok gc_type p s p' s'"
      using victim_loop_returns [OF u] by blast
    have e: "get_victim_by_default s gc_type type mode = Some (take_victim gc_type p' s')"
    proof -
      have "(if mode = LFS \<and> gc_type = FG_GC then check_bg_victims s else (s, NULL_SEGNO)) = (s, NULL_SEGNO)"
      proof (cases "find (\<lambda>secno. test_bit secno (victim_secmap (dirty_i s)) \<and> \<not> sec_usage_check s secno) [0..<total_sections s]")
        case (Some secno)
        then have "secno < total_sections s" by (auto simp: find_Some_iff)
        then have "secno * segs_per_sec s < NULL_SEGNO"
          using section_end_le [of secno "total_sections s" "segs_per_sec s"] main assms(2) by simp
        with Some False show ?thesis by (auto simp: check_bg_victims_def)
      qed (simp add: check_bg_victims_def)
      then show ?thesis
        using r(1) by (simp add: get_victim_by_default_def Let_def p)
    qed
    show ?thesis
    proof (cases "min_segno p' = NULL_SEGNO")
      case True
      then show ?thesis using r(2) by (simp add: e take_victim_def search_ok_def)
    next
      case got: False
      then have el: "eligible gc_type s (p_dirty_segmap p) (min_segno p')" "min_cost p' < min_cost p"
        "mode = SSR \<Longrightarrow> min_cost p' = ckpt_valid_blocks (get_seg_entry s (min_segno p'))"
        and f: "ofs_unit p' = ofs_unit p" "p_alloc_mode p' = mode"
        using r(2) pf(1,4) by (auto simp: search_ok_def)
      let ?v = "min_segno p' div ofs_unit p' * ofs_unit p'"
      have v: "snd (take_victim gc_type p' s') = Some ?v" using got by (simp add: take_victim_def Let_def)
      have sec: "GET_SECNO s ?v = GET_SECNO s (min_segno p')" using spc f(1) pf(2) by (simp add: GET_SECNO_def)
      obtain s2 where t: "take_victim gc_type p' s' = (s2, Some ?v)" using v by (cases "take_victim gc_type p' s'") auto
      have "mode = SSR \<Longrightarrow> s2 = s'" using t got f(2) by (simp add: take_victim_def Let_def)
      then have fr: "mode = SSR \<Longrightarrow> search_frame s s2" using r(2) by (simp add: search_ok_def)
      show ?thesis
        unfolding e t using el sec f pf fr by (cases mode) (auto simp: eligible_def filed_def)
    qed
  qed
qed



end
