(* ===== verification/Alloc.thy ===== *)
theory Alloc
  imports Victim
begin

section \<open>Block allocation\<close>

text \<open>
  The logs of \<open>Max/segment.c\<close>: choosing a free segment (\<open>get_new_segment\<close>), moving a log to
  a free segment (\<open>new_curseg\<close>) or into the holes of a used one (\<open>change_curseg\<close>), and
  \<open>allocate_data_block\<close>, through which every write of the file system gets its address.
  Max keeps \<open>nr_mlog\<close> logs of each of the six types; log \<open>mlog\<close> of type \<open>type\<close> is entry
  \<open>type + mlog * 6\<close> of \<open>curseg_array\<close>, and allocations rotate over them. The summary area
  on the device is the list \<open>ssa_area\<close>. The victim selection used for reuse is an argument,
  as it is a function pointer (\<open>v_ops\<close>) in the code; the code's own one is
  \<open>get_victim_by_default\<close>.
\<close>

subsection \<open>Choosing a free segment\<close>

definition curseg_idx :: "nat \<Rightarrow> nat \<Rightarrow> nat" where
  "curseg_idx type mlog = type + mlog * NR_CURSEG_TYPE"

definition is_next_segment_free :: "sbi \<Rightarrow> nat \<Rightarrow> nat \<Rightarrow> bool" where
  "is_next_segment_free s type mlog =
     (let sn = add32 (segno (curseg_array s ! curseg_idx type mlog)) 1
      in if sn < main_segments s \<and> sn mod segs_per_sec s \<noteq> 0
         then \<not> test_bit sn (free_segmap (free_i s)) else False)"

text \<open>
  The loop that walks left from a section in use. It gives up at section 0, where the search
  restarts from the left end.
\<close>

primrec left_search :: "bitmap \<Rightarrow> nat \<Rightarrow> nat \<Rightarrow> nat" where
  "left_search secmap nsecs 0 = (if test_bit 0 secmap then find_next_zero_bit secmap nsecs 0 else 0)"
| "left_search secmap nsecs (Suc n) = (if test_bit (Suc n) secmap then left_search secmap nsecs n else Suc n)"

text \<open>From \<open>find_other_zone\<close> to \<open>skip_left\<close>: the section, and the two loop variables.\<close>

definition pick_section :: "sbi \<Rightarrow> alloc_dir \<Rightarrow> nat \<Rightarrow> nat \<Rightarrow> bool \<Rightarrow> sbi \<times> nat \<times> nat \<times> bool" where
  "pick_section s dir hint left_start go_left =
     (let m = free_secmap (free_i s); n = total_sections s;
          secno = find_next_zero_bit m n hint;
          (s, secno, left_start, go_left) =
            (if secno \<ge> n
             then (if dir = ALLOC_RIGHT
                   then let secno = find_next_zero_bit m n 0 in (f2fs_bug_on (secno \<ge> n) s, secno, left_start, go_left)
                   else (s, secno, sub32 hint 1, True))
             else (s, secno, left_start, go_left))
      in if \<not> go_left then (s, secno, left_start, go_left)
         else let left_start = left_search m n left_start
              in (f2fs_bug_on (left_start \<ge> n) s, left_start, left_start, go_left))"

text \<open>
  The two nested loops over the logs: the \<open>break\<close> leaves the inner one only, so what is left
  in \<open>i\<close> comes from the last value of \<open>j\<close>.
\<close>

definition zone_scan :: "sbi \<Rightarrow> nat \<Rightarrow> nat" where
  "zone_scan s zoneno =
     fold (\<lambda>j i. first_from (\<lambda>i. zone (curseg_array s ! (i + j * NR_CURSEG_TYPE)) = zoneno) NR_CURSEG_TYPE 0)
       [0..<nr_mlog s] NR_CURSEG_TYPE"

definition got_it :: "sbi \<Rightarrow> nat \<Rightarrow> sbi \<times> nat" where
  "got_it s sn =
     (let s = f2fs_bug_on (test_bit sn (free_segmap (free_i s))) s
      in (s\<lparr>free_i := set_inuse (segs_per_sec s) (free_i s) sn\<rparr>, sn))"

definition next_in_section :: "sbi \<Rightarrow> nat \<Rightarrow> bool \<Rightarrow> nat option" where
  "next_in_section s newseg new_sec =
     (if \<not> new_sec \<and> add32 newseg 1 mod segs_per_sec s \<noteq> 0
      then let sn = find_next_zero_bit (free_segmap (free_i s)) (main_segments s) (newseg + 1)
           in if sub32 sn newseg < segs_per_sec s - newseg mod segs_per_sec s then Some sn else None
      else None)"

definition get_new_segment :: "sbi \<Rightarrow> nat \<Rightarrow> bool \<Rightarrow> alloc_dir \<Rightarrow> sbi \<times> nat" where
  "get_new_segment s newseg new_sec dir =
     (let total_zones = total_sections s div secs_per_zone s;
          hint = newseg div segs_per_sec s;
          old_zoneno = GET_ZONENO_FROM_SEGNO s newseg
      in case next_in_section s newseg new_sec of
           Some sn \<Rightarrow> got_it s sn
         | None \<Rightarrow>
             let (s, secno, left_start, go_left) = pick_section s dir hint hint False;
                 zoneno = secno div secs_per_zone s
             in if secs_per_zone s = 1 \<or> zoneno = old_zoneno \<or>
                   dir = ALLOC_LEFT \<and> (\<not> go_left \<and> zoneno + 1 \<ge> total_zones \<or> go_left \<and> zoneno = 0) \<or>
                   \<not> zone_scan s zoneno < NR_CURSEG_TYPE
                then got_it s (secno * segs_per_sec s)
                else let hint = (if go_left then zoneno * secs_per_zone s - 1
                                 else if zoneno + 1 \<ge> total_zones then 0
                                 else (zoneno + 1) * secs_per_zone s);
                         (s, secno, left_start, go_left) = pick_section s dir hint left_start go_left
                     in got_it s (secno * segs_per_sec s))"

subsection \<open>Moving a log\<close>

definition IS_NODESEG :: "nat \<Rightarrow> bool" where "IS_NODESEG t = (t \<ge> CURSEG_HOT_NODE)"
definition SUM_TYPE_NODE :: nat where "SUM_TYPE_NODE = 1"
definition SUM_TYPE_DATA :: nat where "SUM_TYPE_DATA = 0"

definition put_curseg :: "nat \<Rightarrow> curseg_info \<Rightarrow> sbi \<Rightarrow> sbi" where
  "put_curseg i c s = s\<lparr>curseg_array := (curseg_array s)[i := c]\<rparr>"

definition write_sum_page :: "sbi \<Rightarrow> f2fs_summary_block \<Rightarrow> nat \<Rightarrow> sbi" where
  "write_sum_page s blk sn = s\<lparr>ssa_area := (ssa_area s)[sn := blk]\<rparr>"

definition reset_curseg_mlog :: "sbi \<Rightarrow> nat \<Rightarrow> nat \<Rightarrow> bool \<Rightarrow> sbi" where
  "reset_curseg_mlog s type mlog modified =
     (let i = curseg_idx type mlog; c = curseg_array s ! i;
          c = c\<lparr>segno := next_segno c\<rparr>;
          c = c\<lparr>zone := GET_ZONENO_FROM_SEGNO s (segno c), next_blkoff := 0, next_segno := NULL_SEGNO,
                sum_blk := (sum_blk c)\<lparr>sum_type := (if IS_NODESEG type then SUM_TYPE_NODE else SUM_TYPE_DATA)\<rparr>\<rparr>
      in set_sit_entry_type (put_curseg i c s) type (segno c) modified)"

definition new_curseg :: "sbi \<Rightarrow> nat \<Rightarrow> nat \<Rightarrow> bool \<Rightarrow> sbi" where
  "new_curseg s type mlog new_sec =
     (let i = curseg_idx type mlog; c = curseg_array s ! i;
          s = write_sum_page s (sum_blk c) (segno c);
          dir = (if type = CURSEG_WARM_DATA \<or> type = CURSEG_COLD_DATA then ALLOC_RIGHT else ALLOC_LEFT);
          dir = (if opt_noheap s then ALLOC_RIGHT else dir);
          (s, sn) = get_new_segment s (segno c) new_sec dir;
          s = put_curseg i ((curseg_array s ! i)\<lparr>next_segno := sn\<rparr>) s;
          s = reset_curseg_mlog s type mlog True
      in put_curseg i ((curseg_array s ! i)\<lparr>alloc_type := LFS\<rparr>) s)"

definition next_free_blkoff :: "sbi \<Rightarrow> curseg_info \<Rightarrow> nat \<Rightarrow> curseg_info" where
  "next_free_blkoff s seg start =
     (let se = get_seg_entry s (segno seg);
          target_map = map (\<lambda>i. ckpt_valid_map se ! i OR cur_valid_map se ! i) [0..<length (cur_valid_map se)]
      in seg\<lparr>next_blkoff := rev_next_zero_bit target_map (blocks_per_seg s) start\<rparr>)"

definition refresh_next_blkoff :: "sbi \<Rightarrow> curseg_info \<Rightarrow> curseg_info" where
  "refresh_next_blkoff s seg =
     (if alloc_type seg = SSR then next_free_blkoff s seg (next_blkoff seg + 1)
      else seg\<lparr>next_blkoff := next_blkoff seg + 1\<rparr>)"

definition change_curseg :: "sbi \<Rightarrow> nat \<Rightarrow> nat \<Rightarrow> bool \<Rightarrow> sbi" where
  "change_curseg s type mlog reuse =
     (let i = curseg_idx type mlog; c = curseg_array s ! i; new_segno = next_segno c;
          s = write_sum_page s (sum_blk c) (segno c);
          s = s\<lparr>free_i := set_test_and_inuse (segs_per_sec s) (free_i s) new_segno\<rparr>;
          s = remove_dirty s new_segno PRE;
          s = remove_dirty s new_segno DIRTY;
          s = reset_curseg_mlog s type mlog True;
          c = (curseg_array s ! i)\<lparr>alloc_type := SSR\<rparr>;
          c = next_free_blkoff s c 0;
          c = (if reuse then c\<lparr>sum_blk := (sum_blk c)\<lparr>sum_entries := sum_entries (ssa_area s ! new_segno)\<rparr>\<rparr> else c)
      in put_curseg i c s)"

subsection \<open>Replacing the segment of a log\<close>

type_synonym victim_fn = "sbi \<Rightarrow> nat \<Rightarrow> sbi \<times> nat option"

definition ssr_try :: "victim_fn \<Rightarrow> nat \<Rightarrow> nat \<Rightarrow> sbi \<Rightarrow> sbi \<times> bool" where
  "ssr_try get_victim i type s =
     (case get_victim s type of
        (s, None) \<Rightarrow> (s, False)
      | (s, Some v) \<Rightarrow> (put_curseg i ((curseg_array s ! i)\<lparr>next_segno := v\<rparr>) s, True))"

primrec ssr_down :: "victim_fn \<Rightarrow> nat \<Rightarrow> nat \<Rightarrow> sbi \<Rightarrow> sbi \<times> bool" where
  "ssr_down get_victim i 0 s = ssr_try get_victim i 0 s"
| "ssr_down get_victim i (Suc type) s =
     (let (s, found) = ssr_try get_victim i (Suc type) s
      in if found then (s, True) else ssr_down get_victim i type s)"

definition get_ssr_segment :: "victim_fn \<Rightarrow> sbi \<Rightarrow> nat \<Rightarrow> nat \<Rightarrow> sbi \<times> bool" where
  "get_ssr_segment get_victim s type mlog =
     (let i = curseg_idx type mlog
      in if IS_NODESEG type \<or> \<not> has_not_enough_free_secs s 0
         then ssr_try get_victim i type s
         else ssr_down get_victim i type s)"

definition allocate_segment_by_default :: "victim_fn \<Rightarrow> sbi \<Rightarrow> nat \<Rightarrow> nat \<Rightarrow> bool \<Rightarrow> sbi" where
  "allocate_segment_by_default get_victim s type mlog force =
     (let c = curseg_array s ! curseg_idx type mlog
      in if force then new_curseg s type mlog True
         else if type = CURSEG_WARM_NODE then new_curseg s type mlog False
         else if alloc_type c = LFS \<and> is_next_segment_free s type mlog then new_curseg s type mlog False
         else if need_SSR s
         then (case get_ssr_segment get_victim s type mlog of
                 (s, found) \<Rightarrow> if found then change_curseg s type mlog True else new_curseg s type mlog False)
         else new_curseg s type mlog False)"

definition allocate_new_segments_log :: "victim_fn \<Rightarrow> sbi \<Rightarrow> nat \<Rightarrow> nat \<Rightarrow> sbi" where
  "allocate_new_segments_log get_victim s type mlog =
     (let old_segno = segno (curseg_array s ! curseg_idx type mlog);
          s = allocate_segment_by_default get_victim s type mlog True
      in locate_dirty_segment s old_segno)"

definition allocate_new_segments :: "victim_fn \<Rightarrow> sbi \<Rightarrow> sbi" where
  "allocate_new_segments get_victim s =
     fold (\<lambda>i s. allocate_new_segments_log get_victim s i 0) [CURSEG_HOT_DATA..<Suc CURSEG_COLD_DATA] s"

definition has_curseg_space :: "sbi \<Rightarrow> nat \<Rightarrow> nat \<Rightarrow> bool" where
  "has_curseg_space s type mlog = (next_blkoff (curseg_array s ! curseg_idx type mlog) < blocks_per_seg s)"

definition add_sum_entry :: "sbi \<Rightarrow> nat \<Rightarrow> nat \<Rightarrow> f2fs_summary \<Rightarrow> sbi" where
  "add_sum_entry s type mlog sm =
     (let i = curseg_idx type mlog; c = curseg_array s ! i; b = sum_blk c
      in put_curseg i (c\<lparr>sum_blk := b\<lparr>sum_entries := (sum_entries b)[next_blkoff c := sm]\<rparr>\<rparr>) s)"

definition allocate_data_block :: "victim_fn \<Rightarrow> nat \<Rightarrow> sbi \<Rightarrow> nat \<Rightarrow> f2fs_summary \<Rightarrow> nat \<Rightarrow> sbi \<times> nat" where
  "allocate_data_block get_victim now s old_blkaddr sm type =
     (let direct_io = (type = CURSEG_DIRECT_IO);
          type = (if direct_io then CURSEG_WARM_DATA else type);
          s = s\<lparr>next_mlog := add32 (next_mlog s) 1\<rparr>;
          mlog = next_mlog s mod nr_mlog s;
          i = curseg_idx type mlog;
          s = (if direct_io \<and> next_blkoff (curseg_array s ! i) \<noteq> 0
               then allocate_new_segments_log get_victim s type mlog else s);
          new_blkaddr = NEXT_FREE_BLKADDR s (curseg_array s ! i);
          s = add_sum_entry s type mlog sm;
          s = put_curseg i (refresh_next_blkoff s (curseg_array s ! i)) s;
          s = (if \<not> has_curseg_space s type mlog
               then allocate_segment_by_default get_victim s type mlog False else s)
      in (refresh_sit_entry now s old_blkaddr new_blkaddr, new_blkaddr))"

definition f2fs_replace_block :: "nat \<Rightarrow> sbi \<Rightarrow> f2fs_summary \<Rightarrow> nat \<Rightarrow> nat \<Rightarrow> bool \<Rightarrow> sbi" where
  "f2fs_replace_block now s sm old_blkaddr new_blkaddr recover_curseg =
     (let sn = GET_SEGNO s new_blkaddr; se = get_seg_entry s sn;
          type = (if \<not> recover_curseg
                  then (if valid_blocks se = 0 \<and> \<not> IS_CURSEG s sn
                        then (if old_blkaddr = NULL_ADDR then CURSEG_COLD_DATA else CURSEG_WARM_DATA)
                        else seg_type se)
                  else (if \<not> IS_CURSEG s sn then CURSEG_WARM_DATA else seg_type se));
          c = curseg_array s ! type;
          old_cursegno = segno c; old_blkoff = next_blkoff c;
          s = (if sn \<noteq> segno c
               then change_curseg (put_curseg type (c\<lparr>next_segno := sn\<rparr>) s) type 0 True else s);
          s = put_curseg type ((curseg_array s ! type)\<lparr>next_blkoff := GET_BLKOFF_FROM_SEG0 s new_blkaddr\<rparr>) s;
          s = add_sum_entry s type 0 sm;
          s = refresh_sit_entry now s old_blkaddr new_blkaddr;
          s = locate_dirty_segment s old_cursegno
      in if recover_curseg
         then let c = curseg_array s ! type;
                  s = (if old_cursegno \<noteq> segno c
                       then change_curseg (put_curseg type (c\<lparr>next_segno := old_cursegno\<rparr>) s) type 0 True else s)
              in put_curseg type ((curseg_array s ! type)\<lparr>next_blkoff := old_blkoff\<rparr>) s
         else s)"

subsection \<open>The log a page goes to\<close>

text \<open>What the type functions read of a page: its kind, its inode and its cold marks.\<close>

datatype page_type = DATA | NODE | META

record page_info =
  host_is_dir :: bool
  page_cold_data :: bool
  host_file_cold :: bool
  page_is_dnode :: bool
  page_cold_node :: bool

definition get_segment_type_2 :: "page_info \<Rightarrow> page_type \<Rightarrow> nat" where
  "get_segment_type_2 page p_type = (if p_type = DATA then CURSEG_HOT_DATA else CURSEG_HOT_NODE)"

definition get_segment_type_4 :: "page_info \<Rightarrow> page_type \<Rightarrow> nat" where
  "get_segment_type_4 page p_type =
     (if p_type = DATA then (if host_is_dir page then CURSEG_HOT_DATA else CURSEG_COLD_DATA)
      else (if page_is_dnode page \<and> page_cold_node page then CURSEG_WARM_NODE else CURSEG_COLD_NODE))"

definition get_segment_type_6 :: "page_info \<Rightarrow> page_type \<Rightarrow> nat" where
  "get_segment_type_6 page p_type =
     (if p_type = DATA
      then (if host_is_dir page then CURSEG_HOT_DATA
            else if page_cold_data page \<or> host_file_cold page then CURSEG_COLD_DATA
            else CURSEG_WARM_DATA)
      else (if page_is_dnode page
            then (if page_cold_node page then CURSEG_WARM_NODE else CURSEG_HOT_NODE)
            else CURSEG_COLD_NODE))"

definition get_segment_type :: "nat \<Rightarrow> sbi \<Rightarrow> page_info \<Rightarrow> page_type \<Rightarrow> sbi \<times> nat" where
  "get_segment_type active_logs s page p_type =
     (if active_logs = 2 then (s, get_segment_type_2 page p_type)
      else if active_logs = 4 then (s, get_segment_type_4 page p_type)
      else (f2fs_bug_on (active_logs \<noteq> NR_CURSEG_TYPE) s, get_segment_type_6 page p_type))"

end
