(* ===== verification/Alloc_Correct.thy ===== *)
theory Alloc_Correct
  imports Alloc
begin

section \<open>Correctness of block allocation\<close>

text \<open>
  \<open>get_new_segment\<close> returns a free segment: the next free one of the current section, or the
  first of a section that is entirely free, whichever way the zones are searched.
\<close>

subsection \<open>Choosing a free segment\<close>

definition free_map_ok :: "sbi \<Rightarrow> bool" where
  "free_map_ok s \<longleftrightarrow> wf_layout s \<and> segmap_inv (total_sections s) (segs_per_sec s) (free_i s)"

definition has_free_section :: "sbi \<Rightarrow> bool" where
  "has_free_section s \<longleftrightarrow> 0 < free_sections (free_i s)"

lemma free_map_okD:
  assumes "free_map_ok s"
  shows "wf_layout s" "segmap_inv (total_sections s) (segs_per_sec s) (free_i s)" "0 < segs_per_sec s" "0 < secs_per_zone s"
    "main_segments s = total_sections s * segs_per_sec s" "main_segments s < 2 ^ 32"
    "length (free_secmap (free_i s)) = total_sections s" "length (free_segmap (free_i s)) = main_segments s"
    "total_sections s < 2 ^ 32"
proof -
  show a: "wf_layout s" "segmap_inv (total_sections s) (segs_per_sec s) (free_i s)" "0 < segs_per_sec s" "0 < secs_per_zone s"
    "main_segments s = total_sections s * segs_per_sec s" "main_segments s < 2 ^ 32"
    "length (free_secmap (free_i s)) = total_sections s" "length (free_segmap (free_i s)) = main_segments s"
    using assms by (auto simp: free_map_ok_def wf_layout_def segmap_inv_def)
  have "total_sections s * 1 \<le> total_sections s * segs_per_sec s" using a(3) by (intro mult_le_mono2) simp
  then show "total_sections s < 2 ^ 32" using a(5,6) by linarith
qed

definition free_section :: "sbi \<Rightarrow> nat \<Rightarrow> bool" where
  "free_section s secno \<longleftrightarrow> secno < total_sections s \<and> \<not> test_bit secno (free_secmap (free_i s))"

lemma has_free_sectionD:
  assumes "free_map_ok s" "has_free_section s"
  shows "\<exists>secno. free_section s secno"
proof -
  have "0 < bit_count (\<lambda>i. \<not> test_bit i (free_secmap (free_i s))) (total_sections s)"
    using assms by (simp add: free_map_ok_def segmap_inv_def has_free_section_def)
  then show ?thesis using bit_count_zero_iff [of "\<lambda>i. \<not> test_bit i (free_secmap (free_i s))" "total_sections s"]
    by (auto simp: free_section_def)
qed

lemma find_free_section:
  assumes "find_next_zero_bit (free_secmap (free_i s)) (total_sections s) i < total_sections s"
  shows "free_section s (find_next_zero_bit (free_secmap (free_i s)) (total_sections s) i)"
  using assms first_from_sat by (auto simp: free_section_def find_next_zero_bit_def)

lemma find_free_section_0:
  assumes "free_section s secno"
  shows "free_section s (find_next_zero_bit (free_secmap (free_i s)) (total_sections s) 0)"
  using assms first_from_lt_iff [of "\<lambda>j. \<not> test_bit j (free_secmap (free_i s))" "total_sections s" 0]
  by (intro find_free_section) (auto simp: free_section_def find_next_zero_bit_def)

lemma left_search_free:
  assumes "free_section s secno" "k < total_sections s"
  shows "free_section s (left_search (free_secmap (free_i s)) (total_sections s) k)"
  using assms(2)
proof (induction k)
  case 0
  then show ?case using find_free_section_0 [OF assms(1)] by (simp add: free_section_def)
next
  case (Suc k)
  then show ?case by (simp add: free_section_def)
qed

lemma pick_section_free:
  assumes "free_map_ok s" "has_free_section s" "hint \<le> total_sections s"
    and "go_left \<longrightarrow> left_start < total_sections s" "pick_section s dir hint left_start go_left = (s', secno, ls, gl)"
  shows "s' = s \<and> free_section s secno \<and> (gl \<longrightarrow> ls < total_sections s)"
proof -
  let ?m = "free_secmap (free_i s)" and ?n = "total_sections s"
  obtain sec0 where sec0: "free_section s sec0" using has_free_sectionD [OF assms(1,2)] by blast
  note z = find_free_section_0 [OF sec0]
  have z': "find_next_zero_bit ?m ?n 0 < ?n" using z by (simp add: free_section_def)
  let ?sec = "find_next_zero_bit ?m ?n hint"
  show ?thesis
  proof (cases "?sec < ?n")
    case True
    note f = find_free_section [OF True]
    show ?thesis
    proof (cases go_left)
      case gl: True
      then have "free_section s (left_search ?m ?n left_start)" using left_search_free [OF sec0] assms(4) by blast
      with True gl assms(5) show ?thesis
        by (auto simp: pick_section_def Let_def f2fs_bug_on_def free_section_def)
    next
      case False
      with True f assms(5) show ?thesis by (auto simp: pick_section_def Let_def)
    qed
  next
    case False
    have h0: "0 < hint" using False z' by (cases hint) auto
    have left: "left_start < ?n \<Longrightarrow> free_section s (left_search ?m ?n left_start)" for left_start
      by (rule left_search_free [OF sec0])
    have sub: "sub32 hint 1 < ?n" using h0 assms(3) free_map_okD(9) [OF assms(1)] by simp
    show ?thesis
    proof (cases "dir = ALLOC_RIGHT")
      case True
      have "go_left \<longrightarrow> free_section s (left_search ?m ?n left_start)" using left assms(4) by blast
      with True False z z' assms(5) show ?thesis
        by (auto simp: pick_section_def Let_def f2fs_bug_on_def free_section_def split: if_splits)
    next
      case ne: False
      with False left [OF sub] assms(5) show ?thesis
        by (auto simp: pick_section_def Let_def f2fs_bug_on_def free_section_def)
    qed
  qed
qed

lemma free_section_segment:
  assumes "free_map_ok s" "free_section s secno"
  shows "secno * segs_per_sec s < main_segments s" "\<not> test_bit (secno * segs_per_sec s) (free_segmap (free_i s))"
    "sn div segs_per_sec s = secno \<Longrightarrow> sn < main_segments s \<Longrightarrow> \<not> test_bit sn (free_segmap (free_i s))"
proof -
  note d = free_map_okD [OF assms(1)]
  have sec: "secno < total_sections s" "\<not> sec_in_use (segs_per_sec s) (free_i s) secno"
    using assms d(2) by (auto simp: free_section_def segmap_inv_def)
  show lt: "secno * segs_per_sec s < main_segments s"
    using section_end_le [OF sec(1), of "segs_per_sec s"] d(3,5) by linarith
  show "\<not> test_bit sn (free_segmap (free_i s))" if "sn div segs_per_sec s = secno" "sn < main_segments s" for sn
    using sec(2) that section_bounds [OF d(3), of sn] by (auto simp: sec_in_use_def)
  from this [of "secno * segs_per_sec s"] lt d(3) show "\<not> test_bit (secno * segs_per_sec s) (free_segmap (free_i s))"
    by simp
qed

lemma next_in_section_free:
  assumes "free_map_ok s" "newseg < main_segments s" "next_in_section s newseg new_sec = Some sn"
  shows "sn < main_segments s" "\<not> test_bit sn (free_segmap (free_i s))" "sn div segs_per_sec s = newseg div segs_per_sec s"
    "\<not> new_sec"
proof -
  note d = free_map_okD [OF assms(1)]
  let ?q = "segs_per_sec s" and ?m = "free_segmap (free_i s)" and ?n = "main_segments s"
  have sn: "sn = find_next_zero_bit ?m ?n (newseg + 1)" "sub32 sn newseg < ?q - newseg mod ?q" and ns: "\<not> new_sec"
    using assms(3) by (auto simp: next_in_section_def Let_def split: if_splits)
  have le: "sn \<le> ?n" "newseg + 1 \<le> sn"
    using first_from_le first_from_lower [of "newseg + 1" ?n] assms(2) by (auto simp: sn(1) find_next_zero_bit_def)
  then have "sub32 sn newseg = sn - newseg" using d(6) by simp
  with sn(2) le have lt: "sn < newseg - newseg mod ?q + ?q" using mod_less_eq_dividend [of newseg ?q] by linarith
  have b: "newseg - newseg mod ?q = newseg div ?q * ?q" by (simp add: minus_mod_eq_div_mult)
  have "newseg div ?q < total_sections s" using assms(2) d(5) by (simp add: less_mult_imp_div_less)
  then have "newseg div ?q * ?q + ?q \<le> ?n" using section_end_le [of "newseg div ?q" "total_sections s" ?q] d(5) by simp
  with lt b show n: "sn < ?n" by linarith
  show "\<not> test_bit sn ?m" using first_from_sat [of _ ?n] n by (auto simp: sn(1) find_next_zero_bit_def)
  show "sn div ?q = newseg div ?q"
    using lt b le section_bounds [OF d(3), of newseg] by (intro section_unique [OF d(3)]) linarith+
  show "\<not> new_sec" by (rule ns)
qed

lemma got_it_free:
  assumes "free_map_ok s" "sn < main_segments s" "\<not> test_bit sn (free_segmap (free_i s))"
  shows "got_it s sn = (s\<lparr>free_i := set_test_and_inuse (segs_per_sec s) (free_i s) sn\<rparr>, sn)"
  using assms(3) free_map_okD(8) [OF assms(1)] assms(2)
  by (simp add: got_it_def f2fs_bug_on_def set_test_and_inuse_eq Let_def)

lemma get_new_segment_picks:
  assumes "free_map_ok s" "has_free_section s" "newseg < main_segments s" "get_new_segment s newseg new_sec dir = (r, sn)"
  shows "r = s\<lparr>free_i := set_test_and_inuse (segs_per_sec s) (free_i s) sn\<rparr>" "sn < main_segments s"
    "\<not> test_bit sn (free_segmap (free_i s))"
    "\<not> new_sec \<and> sn div segs_per_sec s = newseg div segs_per_sec s \<or> free_section s (sn div segs_per_sec s) \<and> segs_per_sec s dvd sn"
proof -
  note d = free_map_okD [OF assms(1)]
  let ?goal = "r = s\<lparr>free_i := set_test_and_inuse (segs_per_sec s) (free_i s) sn\<rparr> \<and> sn < main_segments s \<and>
    \<not> test_bit sn (free_segmap (free_i s)) \<and>
    (\<not> new_sec \<and> sn div segs_per_sec s = newseg div segs_per_sec s \<or> free_section s (sn div segs_per_sec s) \<and> segs_per_sec s dvd sn)"
  have fin: ?goal if "free_section s secno" "(r, sn) = got_it s (secno * segs_per_sec s)" for secno
    using that got_it_free [OF assms(1)] free_section_segment [OF assms(1) that(1)] d(3) by simp
  have ?goal
  proof (cases "next_in_section s newseg new_sec")
    case (Some n)
    note f = next_in_section_free [OF assms(1,3) Some]
    have "(r, sn) = got_it s n" using assms(4) Some by (simp add: get_new_segment_def Let_def)
    then show ?thesis using f got_it_free [OF assms(1) f(1,2)] by simp
  next
    case None
    let ?hint = "newseg div segs_per_sec s"
    obtain s1 sec1 ls1 gl1 where p1: "pick_section s dir ?hint ?hint False = (s1, sec1, ls1, gl1)"
      by (cases "pick_section s dir ?hint ?hint False")
    have "?hint < total_sections s" using assms(3) d(5) by (simp add: less_mult_imp_div_less)
    then have f1: "s1 = s" "free_section s sec1" "gl1 \<longrightarrow> ls1 < total_sections s"
      using pick_section_free [OF assms(1,2) _ _ p1] by auto
    define zn where zn: "zn = sec1 div secs_per_zone s"
    define hint2 where hint2: "hint2 = (if gl1 then zn * secs_per_zone s - 1
      else if zn + 1 \<ge> total_sections s div secs_per_zone s then 0 else (zn + 1) * secs_per_zone s)"
    obtain s2 sec2 ls2 gl2 where p2: "pick_section s dir hint2 ls1 gl1 = (s2, sec2, ls2, gl2)"
      by (cases "pick_section s dir hint2 ls1 gl1")
    have "zn * secs_per_zone s \<le> sec1" unfolding zn by (rule div_times_less_eq_dividend)
    moreover have "(zn + 1) * secs_per_zone s \<le> total_sections s" if "zn + 1 < total_sections s div secs_per_zone s"
    proof -
      have "(zn + 1) * secs_per_zone s \<le> total_sections s div secs_per_zone s * secs_per_zone s"
        using that by (intro mult_le_mono1) simp
      then show ?thesis using div_times_less_eq_dividend [of "total_sections s" "secs_per_zone s"] by linarith
    qed
    ultimately have "hint2 \<le> total_sections s" using f1(2) by (auto simp: hint2 free_section_def)
    then have f2: "s2 = s" "free_section s sec2" using pick_section_free [OF assms(1,2) _ f1(3) p2] by auto
    have "(r, sn) = got_it s (sec1 * segs_per_sec s) \<or> (r, sn) = got_it s (sec2 * segs_per_sec s)"
      using assms(4)
      unfolding get_new_segment_def Let_def None option.case p1 [unfolded f1(1)] prod.case zn [symmetric]
        hint2 [symmetric] p2 [unfolded f2(1)]
      by (auto split: if_splits)
    then show ?thesis using fin f1(2) f2(2) by blast
  qed
  then show "r = s\<lparr>free_i := set_test_and_inuse (segs_per_sec s) (free_i s) sn\<rparr>" "sn < main_segments s"
    "\<not> test_bit sn (free_segmap (free_i s))"
    "\<not> new_sec \<and> sn div segs_per_sec s = newseg div segs_per_sec s \<or> free_section s (sn div segs_per_sec s) \<and> segs_per_sec s dvd sn"
    by blast+
qed

text \<open>
  C16: with a free section left, \<open>get_new_segment\<close> returns a segment of the main area that was
  free, marks exactly it as used and raises no fsck flag; the segment continues the current
  section, or opens a section that was entirely free.
\<close>
theorem get_new_segment_correct:
  assumes "free_map_ok s" "has_free_section s" "newseg < main_segments s" "get_new_segment s newseg new_sec dir = (r, sn)"
  shows "sn < main_segments s \<and> sn \<notin> in_use (free_i s) \<and> in_use (free_i r) = insert sn (in_use (free_i s))
    \<and> free_map_ok r \<and> need_fsck r = need_fsck s
    \<and> (\<not> new_sec \<and> sn div segs_per_sec s = newseg div segs_per_sec s \<or>
       segs_per_sec s dvd sn \<and> (\<forall>k \<in> in_use (free_i s). k div segs_per_sec s \<noteq> sn div segs_per_sec s))"
proof -
  note d = free_map_okD [OF assms(1)]
  note p = get_new_segment_picks [OF assms]
  have sn: "sn < total_sections s * segs_per_sec s" using p(2) d(5) by simp
  have "in_use (free_i r) = insert sn (in_use (free_i s))" using pool.occupy_used [OF d(2) sn] by (simp add: p(1))
  moreover have "start_segno (set_test_and_inuse q f k) = start_segno f" for q f k
    by (simp add: set_test_and_inuse_def Let_def)
  then have "wf_layout r = wf_layout s" by (simp add: p(1) wf_layout_def)
  then have "free_map_ok r"
    using assms(1) pool.occupy_invar [OF d(2) sn] by (simp add: p(1) free_map_ok_def)
  moreover have "\<not> free_section s (k div segs_per_sec s)" if "k \<in> in_use (free_i s)" for k
    using that free_section_segment(3) [OF assms(1), of _ k] d(8) by (auto simp: in_use_def)
  then have "(\<forall>k \<in> in_use (free_i s). k div segs_per_sec s \<noteq> sn div segs_per_sec s)"
    if "free_section s (sn div segs_per_sec s)" using that by metis
  moreover have "sn \<notin> in_use (free_i s)" using p(3) by (simp add: in_use_def)
  moreover have "need_fsck r = need_fsck s" by (simp add: p(1))
  ultimately show ?thesis using p(2,4) by blast
qed

theorem get_new_segment_correct_witness:
  "\<exists>r sn. get_new_segment small_volume 2 True ALLOC_LEFT = (r, sn) \<and> sn \<notin> in_use (free_i small_volume)
     \<and> in_use (free_i r) = insert sn (in_use (free_i small_volume))"
proof -
  have "segmap_inv (total_sections small_volume) (segs_per_sec small_volume) (free_i small_volume)" by code_simp
  then have "free_map_ok small_volume" using wf_layout_small_volume by (simp add: free_map_ok_def)
  moreover have "has_free_section small_volume" by code_simp
  ultimately show ?thesis
    using get_new_segment_correct [of small_volume 2 True ALLOC_LEFT]
    by (cases "get_new_segment small_volume 2 True ALLOC_LEFT") auto
qed

text \<open>
  the search for a zone that no log writes to only looks at the logs of the last multi-log
  group: the zones of the logs of every other group count as unused.
\<close>
theorem zone_scan_last_group_only:
  assumes "nr_mlog s = Suc k"
  shows "zone_scan s z < NR_CURSEG_TYPE \<longleftrightarrow>
    (\<exists>i \<in> {..<NR_CURSEG_TYPE}. zone (curseg_array s ! (i + k * NR_CURSEG_TYPE)) = z)"
  using assms first_from_lt_iff [of "\<lambda>i. zone (curseg_array s ! (i + k * NR_CURSEG_TYPE)) = z" NR_CURSEG_TYPE 0]
  by (auto simp: zone_scan_def)

text \<open>A fresh volume with two multi-log groups, log \<open>i\<close> in segment \<open>i\<close>.\<close>

definition two_group_volume :: sbi where
  "two_group_volume = small_volume\<lparr>nr_mlog := 2,
     curseg_array := map (\<lambda>i. (small_curseg i)\<lparr>segno := i, zone := i div 2\<rparr>) [0..<12],
     free_i := \<lparr>start_segno = 2, free_segments = 4, free_sections = 2,
       free_segmap = replicate 12 True @ replicate 4 False, free_secmap = replicate 6 True @ replicate 2 False\<rparr>\<rparr>"

theorem zone_scan_last_group_only_witness:
  "zone (curseg_array two_group_volume ! 0) = 0 \<and> \<not> zone_scan two_group_volume 0 < NR_CURSEG_TYPE"
proof -
  have "nr_mlog two_group_volume = Suc 1" "zone (curseg_array two_group_volume ! 0) = 0" by code_simp+
  moreover have "\<not> (\<exists>i \<in> {..<NR_CURSEG_TYPE}. zone (curseg_array two_group_volume ! (i + 1 * NR_CURSEG_TYPE)) = 0)"
    by (auto simp: two_group_volume_def small_curseg_def NR_CURSEG_TYPE_def)
  ultimately show ?thesis using zone_scan_last_group_only [of two_group_volume 1 0] by simp
qed

end
