(* ===== verification/Logs.thy ===== *)
theory Logs
  imports Alloc_Correct
begin

text \<open>
  The invariant of the current segments (logs) of every multi-log group: each log writes to a
  segment of its own, at an offset that is free now and was free in the last checkpoint. Moving
  a log to a fresh segment or to a dirty one (SSR) keeps it, and so does the allocation of a
  block, which therefore never hands out a block that holds data the last checkpoint needs.
\<close>

subsection \<open>Effects of moving a log\<close>

definition same_geom :: "sbi \<Rightarrow> sbi \<Rightarrow> bool" where
  "same_geom s r \<longleftrightarrow> start_segno (free_i r) = start_segno (free_i s) \<and> nr_mlog r = nr_mlog s \<and>
     seg0_blkaddr r = seg0_blkaddr s \<and> main_segments r = main_segments s \<and> segs_per_sec r = segs_per_sec s \<and>
     secs_per_zone r = secs_per_zone s \<and> total_sections r = total_sections s \<and>
     log_blocks_per_seg r = log_blocks_per_seg s \<and> need_fsck r = need_fsck s"

lemma same_geomD:
  assumes "same_geom s r"
  shows "GET_SEGNO r = GET_SEGNO s" "in_main r = in_main s" "wf_layout r = wf_layout s"
    "GET_BLKOFF_FROM_SEG0 r = GET_BLKOFF_FROM_SEG0 s" "START_BLOCK r = START_BLOCK s"
  using assms
  by (auto intro!: ext simp: same_geom_def GET_SEGNO_def GET_SEGNO_FROM_SEG0_def in_main_def
      GET_SEGOFF_FROM_SEG0_def GET_BLKOFF_FROM_SEG0_def START_BLOCK_def wf_layout_def)

text \<open>Two SITs with the same validity information (types and modification times may differ).\<close>

definition same_blocks :: "sbi \<Rightarrow> sbi \<Rightarrow> bool" where
  "same_blocks s r \<longleftrightarrow> length (sentries (sit_i r)) = length (sentries (sit_i s)) \<and>
     (\<forall>sn. valid_blocks (get_seg_entry r sn) = valid_blocks (get_seg_entry s sn) \<and>
        ckpt_valid_blocks (get_seg_entry r sn) = ckpt_valid_blocks (get_seg_entry s sn) \<and>
        cur_valid_map (get_seg_entry r sn) = cur_valid_map (get_seg_entry s sn) \<and>
        ckpt_valid_map (get_seg_entry r sn) = ckpt_valid_map (get_seg_entry s sn))"

definition free_at :: "sbi \<Rightarrow> nat \<Rightarrow> nat \<Rightarrow> bool" where
  "free_at s sn j \<longleftrightarrow> \<not> f2fs_test_bit j (cur_valid_map (get_seg_entry s sn)) \<and>
     \<not> f2fs_test_bit j (ckpt_valid_map (get_seg_entry s sn))"

lemma same_blocksD:
  assumes "same_blocks s r"
  shows "free_at r = free_at s" "get_valid_blocks r sn 0 = get_valid_blocks s sn 0"
  using assms by (auto intro!: ext simp: same_blocks_def free_at_def get_valid_blocks_def)

lemma set_sit_entry_type_spec:
  assumes "sit_inv s" "v < main_segments s" "r = set_sit_entry_type s type v True"
  shows "r = s\<lparr>sit_i := sit_i r\<rparr>" "sit_inv r" "same_blocks s r"
    "seg_type (get_seg_entry r n) = (if n = v then type else seg_type (get_seg_entry s n))"
proof -
  let ?se = "(get_seg_entry s v)\<lparr>seg_type := type\<rparr>" and ?si = "sit_i s"
  have len: "v < length (sentries ?si)" using sit_invD(1) [OF assms(1)] assms(2) by simp
  have se: "sentries (sit_i r) = (sentries ?si)[v := ?se]"
    and f: "dirty_sentries_bitmap (sit_i r) = set_bit v (dirty_sentries_bitmap ?si)"
      "dirty_sentries (sit_i r) = (if test_bit v (dirty_sentries_bitmap ?si) then dirty_sentries ?si else add32 (dirty_sentries ?si) 1)"
      "written_valid_blocks (sit_i r) = written_valid_blocks ?si" "sec_entries (sit_i r) = sec_entries ?si"
    by (simp_all add: assms(3) set_sit_entry_type_def put_seg_entry_def Let_def)
  show fr: "r = s\<lparr>sit_i := sit_i r\<rparr>" by (simp add: assms(3) set_sit_entry_type_def put_seg_entry_def Let_def)
  show "same_blocks s r" using len by (auto simp: same_blocks_def get_seg_entry_def se nth_list_update)
  show "seg_type (get_seg_entry r n) = (if n = v then type else seg_type (get_seg_entry s n))"
    using len by (simp add: get_seg_entry_def se nth_list_update)
  have vb: "section_blocks ((sentries ?si)[v := ?se]) a n = section_blocks (sentries ?si) a n" for a n
  proof -
    have "map (\<lambda>i. valid_blocks ((sentries ?si)[v := ?se] ! i)) [a..<a + n] = map (\<lambda>i. valid_blocks (sentries ?si ! i)) [a..<a + n]"
      using len by (auto simp: nth_list_update get_seg_entry_def)
    then show ?thesis unfolding section_blocks_def by (rule arg_cong)
  qed
  have fr': "main_segments r = main_segments s" "log_blocks_per_seg r = log_blocks_per_seg s" "segs_per_sec r = segs_per_sec s"
    by (simp_all add: assms(3) set_sit_entry_type_def put_seg_entry_def Let_def)
  have la: "list_all (seg_inv (blocks_per_seg s)) ((sentries ?si)[v := ?se])"
    using sit_invD(2,3) [OF assms(1)] assms(2) len
    by (auto simp: list_all_length nth_list_update seg_inv_def)
  have sm: "main_segments s < 2 ^ 32"
  proof -
    have "main_segments s * 1 \<le> main_segments s * blocks_per_seg s" by (rule mult_le_mono2) simp
    then show ?thesis using assms(1) unfolding sit_inv_def Let_def by linarith
  qed
  have dc: "dirty_sentries (sit_i r) = bit_count (\<lambda>i. test_bit i (set_bit v (dirty_sentries_bitmap ?si))) (main_segments s)"
  proof (cases "test_bit v (dirty_sentries_bitmap ?si)")
    case True
    then show ?thesis using kb.count_put_idem [OF assms(2) _ True] assms(1) by (simp add: f sit_inv_def Let_def)
  next
    case False
    then show ?thesis
      using kb.count_put [OF assms(2) _ False] assms(1) sm
        bit_count_le [of "\<lambda>i. test_bit i (set_bit v (dirty_sentries_bitmap ?si))" "main_segments s"]
      by (simp add: f sit_inv_def Let_def)
  qed
  show "sit_inv r"
    using assms(1) la vb dc by (simp add: sit_inv_def Let_def se f fr')
qed


subsection \<open>The invariant of the logs\<close>

definition log_ok :: "sbi \<Rightarrow> curseg_info \<Rightarrow> bool" where
  "log_ok s c \<longleftrightarrow> next_blkoff c < blocks_per_seg s \<and> free_at s (segno c) (next_blkoff c) \<and>
     (alloc_type c = LFS \<longrightarrow> list_all (free_at s (segno c)) [next_blkoff c..<blocks_per_seg s])"

definition logs_inv :: "nat set \<Rightarrow> sbi \<Rightarrow> bool" where
  "logs_inv X s \<longleftrightarrow> length (curseg_array s) = nr_mlog s * NR_CURSEG_TYPE \<and>
     distinct (map segno (curseg_array s)) \<and>
     (\<forall>i \<in> set [0..<length (curseg_array s)].
        segno (curseg_array s ! i) < main_segments s \<and>
        test_bit (segno (curseg_array s ! i)) (free_segmap (free_i s)) \<and>
        (i \<in> X \<or> log_ok s (curseg_array s ! i)))"

definition free_empty :: "sbi \<Rightarrow> bool" where
  "free_empty s \<longleftrightarrow> (\<forall>n \<in> set [0..<main_segments s]. \<not> test_bit n (free_segmap (free_i s)) \<longrightarrow>
     list_all (free_at s n) [0..<blocks_per_seg s])"

text \<open>
  The invariant of the allocator, except for the logs in \<open>X\<close> and the filing of the segments
  in \<open>Y\<close>, which an operation may be working on.
\<close>

definition alloc_inv_but :: "nat set \<Rightarrow> nat set \<Rightarrow> sbi \<Rightarrow> bool" where
  "alloc_inv_but X Y s \<longleftrightarrow> segs_inv s \<and> free_map_ok s \<and> logs_inv X s \<and> free_empty s \<and> classified_but Y s"

abbreviation alloc_inv :: "sbi \<Rightarrow> bool" where
  "alloc_inv \<equiv> alloc_inv_but {} {}"

lemma alloc_inv_mono: "alloc_inv_but X Y s \<Longrightarrow> X \<subseteq> X' \<Longrightarrow> Y \<subseteq> Y' \<Longrightarrow> alloc_inv_but X' Y' s"
  unfolding alloc_inv_but_def logs_inv_def classified_but_def by blast

lemma logs_invD:
  assumes "logs_inv X s" "i < length (curseg_array s)"
  shows "segno (curseg_array s ! i) < main_segments s" "test_bit (segno (curseg_array s ! i)) (free_segmap (free_i s))"
    "i \<notin> X \<Longrightarrow> log_ok s (curseg_array s ! i)"
  using assms by (auto simp: logs_inv_def)

lemma IS_CURSEG_iff:
  assumes "length (curseg_array s) = nr_mlog s * NR_CURSEG_TYPE"
  shows "IS_CURSEG s n \<longleftrightarrow> n \<in> set (map segno (curseg_array s))"
proof
  assume "IS_CURSEG s n"
  then obtain i j where ij: "i < nr_mlog s" "j < NR_CURSEG_TYPE" "n = segno (curseg_array s ! (j + i * NR_CURSEG_TYPE))"
    by (auto simp: IS_CURSEG_def)
  have "Suc i * NR_CURSEG_TYPE \<le> nr_mlog s * NR_CURSEG_TYPE" using ij(1) by (intro mult_le_mono1) simp
  then have "j + i * NR_CURSEG_TYPE < length (curseg_array s)" using ij(2) assms by simp
  then show "n \<in> set (map segno (curseg_array s))" using ij(3) by simp
next
  assume "n \<in> set (map segno (curseg_array s))"
  then obtain k where k: "k < length (curseg_array s)" "n = segno (curseg_array s ! k)" by (auto simp: in_set_conv_nth)
  have "k div NR_CURSEG_TYPE < nr_mlog s" using k(1) assms by (simp add: less_mult_imp_div_less)
  moreover have "k mod NR_CURSEG_TYPE < NR_CURSEG_TYPE" by (simp add: NR_CURSEG_TYPE_def)
  moreover have "n = segno (curseg_array s ! (k mod NR_CURSEG_TYPE + k div NR_CURSEG_TYPE * NR_CURSEG_TYPE))"
    using k(2) by simp
  ultimately show "IS_CURSEG s n" unfolding IS_CURSEG_def by (metis atLeastLessThan_iff le0 set_upt)
qed

text \<open>What moving log \<open>i\<close> to the segment of \<open>c\<close> does.\<close>

definition moved_to :: "nat \<Rightarrow> curseg_info \<Rightarrow> sbi \<Rightarrow> sbi \<Rightarrow> bool" where
  "moved_to i c s r \<longleftrightarrow> curseg_array r = (curseg_array s)[i := c] \<and> segno c < main_segments s \<and>
     segno c \<notin> set (map segno (curseg_array s)) \<and> log_ok r c \<and> same_geom s r \<and> same_blocks s r \<and>
     segmap_inv (total_sections s) (segs_per_sec s) (free_i r) \<and>
     in_use (free_i r) = insert (segno c) (in_use (free_i s)) \<and> sit_inv r \<and> dirty_inv r \<and>
     (\<forall>n. filed (dirty_i r) DIRTY n = (filed (dirty_i s) DIRTY n \<and> n \<noteq> segno c))"

lemma log_ok_cong: "free_at r = free_at s \<Longrightarrow> log_blocks_per_seg r = log_blocks_per_seg s \<Longrightarrow> log_ok r = log_ok s"
  by (intro ext) (simp add: log_ok_def)

lemma in_use_test:
  assumes "free_map_ok s" "n < main_segments s"
  shows "n \<in> in_use (free_i s) \<longleftrightarrow> test_bit n (free_segmap (free_i s))"
  using assms free_map_okD(8) by (simp add: in_use_def)

lemma moved_keeps:
  assumes "moved_to i c s r" "alloc_inv_but X Y s" "i < length (curseg_array s)"
  shows "alloc_inv_but (X - {i}) (insert (segno (curseg_array s ! i)) Y) r"
proof -
  let ?old = "segno (curseg_array s ! i)"
  have inv: "segs_inv s" "free_map_ok s" "logs_inv X s" "free_empty s" "classified_but Y s"
    using assms(2) by (simp_all add: alloc_inv_but_def)
  have m: "curseg_array r = (curseg_array s)[i := c]" "segno c < main_segments s" "segno c \<notin> set (map segno (curseg_array s))"
    "log_ok r c" "same_geom s r" "same_blocks s r" "segmap_inv (total_sections s) (segs_per_sec s) (free_i r)"
    "in_use (free_i r) = insert (segno c) (in_use (free_i s))" "sit_inv r" "dirty_inv r"
    "\<And>n. filed (dirty_i r) DIRTY n = (filed (dirty_i s) DIRTY n \<and> n \<noteq> segno c)"
    using assms(1) unfolding moved_to_def by blast+
  have g: "main_segments r = main_segments s" "total_sections r = total_sections s" "segs_per_sec r = segs_per_sec s"
    "log_blocks_per_seg r = log_blocks_per_seg s" "nr_mlog r = nr_mlog s" using m(5) by (simp_all add: same_geom_def)
  have fm: "free_map_ok r" using inv(2) m(7) same_geomD(3) [OF m(5)] by (simp add: free_map_ok_def g)
  have bit: "test_bit n (free_segmap (free_i r)) = (n = segno c \<or> test_bit n (free_segmap (free_i s)))"
    if "n < main_segments s" for n
    using in_use_test [OF fm, of n] in_use_test [OF inv(2) that] that m(8) by (simp add: g)
  have lk: "log_ok r = log_ok s" using log_ok_cong [OF same_blocksD(1) [OF m(6)] g(4)] .
  have len: "length (curseg_array s) = nr_mlog s * NR_CURSEG_TYPE" "distinct (map segno (curseg_array s))"
    using inv(3) by (simp_all add: logs_inv_def)
  have ms: "map segno (curseg_array r) = (map segno (curseg_array s))[i := segno c]" by (simp add: m(1) map_update)
  have d: "distinct (map segno (curseg_array r))"
    unfolding ms using len(2) m(3) by (intro distinct_list_update) auto
  have "segno (curseg_array r ! j) < main_segments r \<and> test_bit (segno (curseg_array r ! j)) (free_segmap (free_i r)) \<and>
      (j \<in> X - {i} \<or> log_ok r (curseg_array r ! j))" if j: "j < length (curseg_array s)" for j
    using logs_invD [OF inv(3) j] m(1,2,4) bit j by (cases "j = i") (auto simp: g lk)
  then have lr: "logs_inv (X - {i}) r" using d len(1) by (simp add: logs_inv_def m(1) g)
  have fe: "free_empty r" using inv(4) bit same_blocksD(1) [OF m(6)] by (auto simp: free_empty_def g)
  have lenr: "length (curseg_array r) = nr_mlog r * NR_CURSEG_TYPE" using len(1) by (simp add: m(1) g)
  have cur: "IS_CURSEG r n = (n = segno c \<or> n \<noteq> ?old \<and> IS_CURSEG s n)" for n
  proof -
    have "set (map segno (curseg_array r)) = insert (segno c) (set (map segno (curseg_array s)) - {?old})"
      unfolding ms using set_update_distinct [OF len(2), of i "segno c"] assms(3) by simp
    then show ?thesis unfolding IS_CURSEG_iff [OF lenr] IS_CURSEG_iff [OF len(1)] by auto
  qed
  have "classified_at r n \<or> n \<in> insert ?old Y \<and> \<not> IS_CURSEG r n" if n: "n < main_segments s" for n
  proof (cases "n = segno c")
    case True
    then show ?thesis using m(11) cur by (simp add: classified_at_def)
  next
    case False
    have "classified_at s n \<or> n \<in> Y \<and> \<not> IS_CURSEG s n" using inv(5) n by (simp add: classified_but_def)
    then show ?thesis
      using False m(11) cur same_blocksD(2) [OF m(6)] by (cases "n = ?old") (auto simp: classified_at_def g)
  qed
  then have "classified_but (insert ?old Y) r" by (simp add: classified_but_def g)
  moreover have "segs_inv r" using inv(1) m(9,10) same_geomD(3) [OF m(5)] by (simp add: segs_inv_def g)
  ultimately show ?thesis using fm lr fe by (simp add: alloc_inv_but_def)
qed


subsection \<open>Moving a log to a fresh segment and to a dirty one\<close>

lemma sit_inv_cong:
  assumes "sit_i r = sit_i s" "main_segments r = main_segments s" "log_blocks_per_seg r = log_blocks_per_seg s"
    "segs_per_sec r = segs_per_sec s"
  shows "sit_inv r = sit_inv s"
  using assms by (simp add: sit_inv_def)

lemma dirty_inv_retype:
  assumes "dirty_inv s" "main_segments r = main_segments s" "dirty_i r = dirty_i s" "t < DIRTY"
    and "\<And>n. seg_type (get_seg_entry r n) = (if n = v then t else seg_type (get_seg_entry s n))"
    and "v < main_segments s" "\<not> filed (dirty_i s) DIRTY v"
  shows "dirty_inv r"
  using assms by (auto simp: dirty_inv_def)

text \<open>The common end of both moves: the entry of the new segment takes the type of the log.\<close>

lemma install_log:
  assumes "sit_inv s" "dirty_inv s" "v < main_segments s" "\<not> filed (dirty_i s) DIRTY v" "t < DIRTY"
    and "u = set_sit_entry_type (put_curseg i c0 s) t v True" "r = put_curseg i c u"
  shows "curseg_array r = (curseg_array s)[i := c]" "sit_inv r" "dirty_inv r" "same_blocks s r" "same_geom s r"
    "free_i r = free_i s" "dirty_i r = dirty_i s" "r = s\<lparr>sit_i := sit_i r, curseg_array := curseg_array r\<rparr>"
proof -
  let ?p = "put_curseg i c0 s"
  have p: "sit_i ?p = sit_i s" "main_segments ?p = main_segments s" "log_blocks_per_seg ?p = log_blocks_per_seg s"
    "segs_per_sec ?p = segs_per_sec s" "get_seg_entry ?p = get_seg_entry s" "dirty_i ?p = dirty_i s" "free_i ?p = free_i s"
    by (auto simp: put_curseg_def get_seg_entry_def)
  have ip: "sit_inv ?p" using sit_inv_cong [OF p(1-4)] assms(1) by simp
  have v: "v < main_segments ?p" using assms(3) p(2) by simp
  note sp = set_sit_entry_type_spec [OF ip v assms(6)]
  have u: "u = s\<lparr>curseg_array := (curseg_array s)[i := c0], sit_i := sit_i u\<rparr>"
    using sp(1) by (simp add: put_curseg_def)
  have r: "r = s\<lparr>sit_i := sit_i u, curseg_array := (curseg_array s)[i := c]\<rparr>"
    unfolding assms(7) by (subst u) (simp add: put_curseg_def)
  have si: "sit_i r = sit_i u" by (simp add: r)
  then have ge: "get_seg_entry r = get_seg_entry u" by (intro ext) (simp add: get_seg_entry_def)
  have uf: "main_segments u = main_segments s" "log_blocks_per_seg u = log_blocks_per_seg s" "segs_per_sec u = segs_per_sec s"
    using arg_cong [OF u, of main_segments] arg_cong [OF u, of log_blocks_per_seg] arg_cong [OF u, of segs_per_sec] by simp_all
  have rf: "main_segments r = main_segments s" "log_blocks_per_seg r = log_blocks_per_seg s" "segs_per_sec r = segs_per_sec s"
    "dirty_i r = dirty_i s" "free_i r = free_i s" by (simp_all add: r)
  show "curseg_array r = (curseg_array s)[i := c]" "free_i r = free_i s" "dirty_i r = dirty_i s" "same_geom s r"
    by (simp_all add: r same_geom_def)
  show "r = s\<lparr>sit_i := sit_i r, curseg_array := curseg_array r\<rparr>" by (simp add: r)
  show "sit_inv r" using sit_inv_cong [of r u] sp(2) si by (simp add: rf uf)
  show "same_blocks s r" using sp(3) by (simp add: same_blocks_def ge si p)
  show "dirty_inv r"
    using sp(4) by (intro dirty_inv_retype [OF assms(2) rf(1,4) assms(5) _ assms(3,4)]) (simp add: ge p)
qed

definition fresh_log :: "sbi \<Rightarrow> nat \<Rightarrow> curseg_info \<Rightarrow> curseg_info" where
  "fresh_log s type c = c\<lparr>segno := next_segno c, zone := GET_ZONENO_FROM_SEGNO s (next_segno c), next_blkoff := 0,
     next_segno := NULL_SEGNO,
     sum_blk := (sum_blk c)\<lparr>sum_type := (if IS_NODESEG type then SUM_TYPE_NODE else SUM_TYPE_DATA)\<rparr>\<rparr>"

lemma reset_curseg_mlog_eq:
  assumes "i = curseg_idx type mlog" "i < length (curseg_array s)" "c = curseg_array s ! i"
  shows "reset_curseg_mlog s type mlog m = set_sit_entry_type (put_curseg i (fresh_log s type c) s) type (next_segno c) m"
    "curseg_array (reset_curseg_mlog s type mlog m) ! i = fresh_log s type c"
proof -
  show e: "reset_curseg_mlog s type mlog m = set_sit_entry_type (put_curseg i (fresh_log s type c) s) type (next_segno c) m"
    unfolding reset_curseg_mlog_def fresh_log_def Let_def assms(3) assms(1) by simp
  have "curseg_array (set_sit_entry_type q t n m) = curseg_array q" for q t n
    by (simp add: set_sit_entry_type_def put_seg_entry_def Let_def)
  then show "curseg_array (reset_curseg_mlog s type mlog m) ! i = fresh_log s type c"
    unfolding e using assms(2) by (simp add: put_curseg_def)
qed

lemma moved_by_reset:
  assumes "sit_inv s" "dirty_inv w" "same_geom s w" "sit_i w = sit_i s"
    and "curseg_array w = (curseg_array s)[i := c1]" "i < length (curseg_array s)" "i = curseg_idx type mlog"
    and "next_segno c1 = v" "v < main_segments s" "v \<notin> set (map segno (curseg_array s))" "type < NR_CURSEG_TYPE"
    and "segmap_inv (total_sections s) (segs_per_sec s) (free_i w)" "in_use (free_i w) = insert v (in_use (free_i s))"
    and "\<And>n. filed (dirty_i w) DIRTY n = (filed (dirty_i s) DIRTY n \<and> n \<noteq> v)"
    and "r = put_curseg i c (reset_curseg_mlog w type mlog True)" "segno c = v" "log_ok s c"
  shows "moved_to i c s r"
proof -
  have g: "main_segments w = main_segments s" "log_blocks_per_seg w = log_blocks_per_seg s" "segs_per_sec w = segs_per_sec s"
    using assms(3) by (simp_all add: same_geom_def)
  have gw: "get_seg_entry w = get_seg_entry s" by (intro ext) (simp add: get_seg_entry_def assms(4))
  have td: "type < DIRTY" using assms(11) by (simp add: DIRTY_def NR_CURSEG_TYPE_def)
  have sw: "sit_inv w" using sit_inv_cong [OF assms(4) g] assms(1) by simp
  have vw: "v < main_segments w" "\<not> filed (dirty_i w) DIRTY v" using assms(9,14) by (simp_all add: g)
  have "reset_curseg_mlog w type mlog True = set_sit_entry_type (put_curseg i (fresh_log w type c1) w) type v True"
  proof -
    have c: "i < length (curseg_array w)" "c1 = curseg_array w ! i" using assms(5,6) by simp_all
    show ?thesis unfolding reset_curseg_mlog_eq(1) [OF assms(7) c] assms(8) ..
  qed
  note il = install_log [OF sw assms(2) vw td this assms(15)]
  have sb: "same_blocks s r" using il(4) by (simp add: same_blocks_def gw assms(4))
  have sg: "same_geom s r" using il(5) assms(3) by (simp add: same_geom_def)
  moreover have "log_ok r c"
    using log_ok_cong [OF same_blocksD(1) [OF sb]] sg assms(17) by (simp add: same_geom_def)
  ultimately show ?thesis
    using assms(5,9,10,12,13,14,16) il sb by (simp add: moved_to_def)
qed

lemma segmap_occupy:
  assumes "free_map_ok s" "v < main_segments s" "f = set_test_and_inuse (segs_per_sec s) (free_i s) v"
  shows "segmap_inv (total_sections s) (segs_per_sec s) f" "in_use f = insert v (in_use (free_i s))"
    "start_segno f = start_segno (free_i s)"
proof -
  note d = free_map_okD [OF assms(1)]
  have v: "v < total_sections s * segs_per_sec s" using assms(2) d(5) by simp
  show "segmap_inv (total_sections s) (segs_per_sec s) f" "in_use f = insert v (in_use (free_i s))"
    using pool.occupy_invar [OF d(2) v] pool.occupy_used [OF d(2) v] assms(3) by simp_all
  show "start_segno f = start_segno (free_i s)" by (simp add: assms(3) set_test_and_inuse_def Let_def)
qed

lemma free_segment_unfiled:
  assumes "alloc_inv_but X Y s" "v < main_segments s" "\<not> test_bit v (free_segmap (free_i s))" "v \<notin> Y"
  shows "\<not> filed (dirty_i s) DIRTY v" "list_all (free_at s v) [0..<blocks_per_seg s]" "v \<notin> set (map segno (curseg_array s))"
proof -
  have inv: "sit_inv s" "logs_inv X s" "free_empty s" "classified_but Y s"
    using assms(1) by (simp_all add: alloc_inv_but_def segs_inv_def)
  show f: "list_all (free_at s v) [0..<blocks_per_seg s]" using inv(3) assms(2,3) by (simp add: free_empty_def)
  have "seg_inv (blocks_per_seg s) (get_seg_entry s v)" using sit_invD(3) [OF inv(1) assms(2)] .
  then have "get_valid_blocks s v 0 = 0"
    using f by (simp add: seg_inv_def get_valid_blocks_def bit_count_zero_iff list_all_length free_at_def)
  then show "\<not> filed (dirty_i s) DIRTY v"
    using inv(4) assms(2,4) by (auto simp: classified_but_def classified_at_def)
  show "v \<notin> set (map segno (curseg_array s))"
  proof
    assume "v \<in> set (map segno (curseg_array s))"
    then obtain k where "k < length (curseg_array s)" "v = segno (curseg_array s ! k)" by (auto simp: in_set_conv_nth)
    with logs_invD(2) [OF inv(2)] assms(3) show False by simp
  qed
qed

lemma log_index:
  assumes "logs_inv X s" "type < NR_CURSEG_TYPE" "mlog < nr_mlog s"
  shows "curseg_idx type mlog < length (curseg_array s)"
proof -
  have "Suc mlog * NR_CURSEG_TYPE \<le> nr_mlog s * NR_CURSEG_TYPE" using assms(3) by (intro mult_le_mono1) simp
  then show ?thesis using assms(1,2) by (simp add: logs_inv_def curseg_idx_def)
qed

lemma new_curseg_moved:
  assumes "alloc_inv_but X Y s" "has_free_section s" "type < NR_CURSEG_TYPE" "mlog < nr_mlog s"
    and "\<forall>n \<in> Y. n < main_segments s \<longrightarrow> test_bit n (free_segmap (free_i s))"
  shows "\<exists>c. moved_to (curseg_idx type mlog) c s (new_curseg s type mlog new_sec) \<and> next_blkoff c = 0 \<and> alloc_type c = LFS"
proof -
  let ?i = "curseg_idx type mlog" let ?c = "curseg_array s ! ?i"
  have inv: "segs_inv s" "free_map_ok s" "logs_inv X s" "sit_inv s" "dirty_inv s"
    using assms(1) by (simp_all add: alloc_inv_but_def segs_inv_def)
  note i = log_index [OF inv(3) assms(3,4)]
  define s1 where s1: "s1 = write_sum_page s (sum_blk ?c) (segno ?c)"
  define dir where "dir = (if opt_noheap s1 then ALLOC_RIGHT
      else if type = CURSEG_WARM_DATA \<or> type = CURSEG_COLD_DATA then ALLOC_RIGHT else ALLOC_LEFT)"
  obtain q v where g: "get_new_segment s1 (segno ?c) new_sec dir = (q, v)" by fastforce
  have s1f: "main_segments s1 = main_segments s" "free_i s1 = free_i s" "segs_per_sec s1 = segs_per_sec s"
    "total_sections s1 = total_sections s" "wf_layout s1 = wf_layout s"
    by (simp_all add: s1 write_sum_page_def wf_layout_def)
  have "free_map_ok s1" "has_free_section s1" "segno ?c < main_segments s1"
    using inv(2) assms(2) logs_invD(1) [OF inv(3) i] by (simp_all add: free_map_ok_def has_free_section_def s1f)
  note p = get_new_segment_picks [OF this g, unfolded s1f]
  define f where f: "f = set_test_and_inuse (segs_per_sec s) (free_i s) v"
  have q: "q = s1\<lparr>free_i := f\<rparr>" using p(1) f by simp
  note occ = segmap_occupy [OF inv(2) p(2) f]
  have "v \<notin> Y" using assms(5) p(2,3) by auto
  note fs = free_segment_unfiled [OF assms(1) p(2,3) this]
  define w where w: "w = put_curseg ?i (?c\<lparr>next_segno := v\<rparr>) q"
  define c where c: "c = (fresh_log w type (?c\<lparr>next_segno := v\<rparr>))\<lparr>alloc_type := LFS\<rparr>"
  have cw: "curseg_array w = (curseg_array s)[?i := ?c\<lparr>next_segno := v\<rparr>]"
    by (simp add: w put_curseg_def q s1 write_sum_page_def)
  have "curseg_array q ! ?i = ?c" by (simp add: q s1 write_sum_page_def)
  then have new: "new_curseg s type mlog new_sec = put_curseg ?i c (reset_curseg_mlog w type mlog True)"
    using g reset_curseg_mlog_eq(2) [OF refl, of type mlog w] i cw
    unfolding new_curseg_def s1 dir_def w c by (simp add: Let_def)
  have ws: "sit_i w = sit_i s" "main_segments w = main_segments s" "dirty_i w = dirty_i s" "free_i w = f"
    by (simp_all add: w q s1 put_curseg_def write_sum_page_def)
  have "get_seg_entry w = get_seg_entry s" by (intro ext) (simp add: get_seg_entry_def ws)
  then have dw: "dirty_inv w" using inv(5) by (simp add: dirty_inv_def ws)
  have sg: "same_geom s w" using occ(3) by (simp add: same_geom_def w q s1 put_curseg_def write_sum_page_def)
  have lk: "log_ok s c" using fs(2) by (simp add: log_ok_def c fresh_log_def list_all_length)
  have "moved_to ?i c s (new_curseg s type mlog new_sec)"
    by (rule moved_by_reset [OF inv(4) dw sg ws(1) cw i refl _ p(2) fs(3) assms(3) _ _ _ new _ lk])
      (use fs(1) occ in \<open>auto simp: ws c fresh_log_def\<close>)
  moreover have "next_blkoff c = 0" "alloc_type c = LFS" by (simp_all add: c fresh_log_def)
  ultimately show ?thesis by blast
qed

text \<open>The byte map \<open>__next_free_blkoff\<close> searches is clear where a block is free now and in the checkpoint.\<close>

lemma target_map_bit:
  assumes "length b = length a" "j < 8 * length a"
  shows "f2fs_test_bit j (map (\<lambda>i. b ! i OR a ! i) [0..<length a]) = (f2fs_test_bit j a \<or> f2fs_test_bit j b)"
proof -
  have "j div 8 < length a" using assms(2) by linarith
  then show ?thesis by (auto simp: f2fs_test_bit_def bit.conj_disj_distrib or_eq_0_iff)
qed

lemma next_free_blkoff_first:
  assumes "sit_inv s" "segno c < main_segments s"
  shows "next_free_blkoff s c start = c\<lparr>next_blkoff := first_from (free_at s (segno c)) (blocks_per_seg s) start\<rparr>"
proof -
  let ?se = "get_seg_entry s (segno c)"
  let ?m = "map (\<lambda>i. ckpt_valid_map ?se ! i OR cur_valid_map ?se ! i) [0..<length (cur_valid_map ?se)]"
  have si: "8 * length (cur_valid_map ?se) = blocks_per_seg s" "8 * length (ckpt_valid_map ?se) = blocks_per_seg s"
    using sit_invD(3) [OF assms] by (simp_all add: seg_inv_def)
  have "rev_next_zero_bit ?m (blocks_per_seg s) start = first_from (\<lambda>j. \<not> f2fs_test_bit j ?m) (blocks_per_seg s) start"
    using si by (intro rev_next_zero_bit_first) simp
  also have "\<dots> = first_from (free_at s (segno c)) (blocks_per_seg s) start"
    using si target_map_bit [of "ckpt_valid_map ?se" "cur_valid_map ?se"]
    by (intro first_from_cong) (simp add: free_at_def)
  finally show ?thesis by (simp add: next_free_blkoff_def Let_def)
qed


lemma drop_dirty:
  assumes "dirty_inv s" "v < main_segments s" "w = remove_dirty (remove_dirty s v PRE) v DIRTY"
  shows "w = s\<lparr>dirty_i := dirty_i w\<rparr>" "dirty_inv w"
    "filed (dirty_i w) DIRTY n = (filed (dirty_i s) DIRTY n \<and> n \<noteq> v)"
proof -
  have pre: "PRE < NR_DIRTY_TYPE" "\<And>t. t \<le> DIRTY \<Longrightarrow> t \<noteq> PRE" by (simp_all add: PRE_def NR_DIRTY_TYPE_def DIRTY_def)
  note li = dirty_invD(1) [OF assms(1,2)]
  define s1 where s1: "s1 = s\<lparr>dirty_i := dirty_delete PRE v (dirty_i s)\<rparr>"
  have r1: "remove_dirty s v PRE = s1" using pre(2) [OF order_refl] by (simp add: remove_dirty_def Let_def s1)
  have gs: "get_seg_entry s1 = get_seg_entry s" by (intro ext) (simp add: get_seg_entry_def s1)
  have d1: "dirty_inv s1"
    using assms(1) lists_inv_delete [OF li pre(1) assms(2)] filed_delete [OF li pre(1) assms(2)] pre(2)
    by (simp add: dirty_inv_def gs) (simp add: s1)
  have v1: "v < main_segments s1" using assms(2) by (simp add: s1)
  have rd: "w = s1\<lparr>dirty_i := dirty_i w\<rparr>" "lists_inv (main_segments s) (dirty_i w)"
    "\<And>t n. filed (dirty_i w) t n = (filed (dirty_i s1) t n \<and> \<not> (n = v \<and> (t = DIRTY \<or> t = seg_type (get_seg_entry s v))))"
    using remove_dirty_spec [OF d1 v1, of w] assms(3) r1 by (simp_all add: gs) (simp_all add: s1)
  show wf: "w = s\<lparr>dirty_i := dirty_i w\<rparr>" using rd(1) by (simp add: s1)
  have fw: "filed (dirty_i w) t n = (filed (dirty_i s) t n \<and> \<not> (n = v \<and> (t = DIRTY \<or> t = seg_type (get_seg_entry s v))))"
    if "t \<le> DIRTY" for t n
    using rd(3) filed_delete [OF li pre(1) assms(2)] pre(2) [OF that] by (simp add: s1)
  then show "filed (dirty_i w) DIRTY n = (filed (dirty_i s) DIRTY n \<and> n \<noteq> v)" by simp
  have gw: "main_segments w = main_segments s" "sit_i w = sit_i s"
    using arg_cong [OF wf, of main_segments] arg_cong [OF wf, of sit_i] by simp_all
  have "filed (dirty_i w) t n = (t = seg_type (get_seg_entry s n) \<and> filed (dirty_i w) DIRTY n)"
    if "n < main_segments s" "t < DIRTY" for t n
    using fw [of t n] fw [of DIRTY n] dirty_invD(4) [OF assms(1) that] that(2) by auto
  with rd(2) show "dirty_inv w" using assms(1) by (simp add: dirty_inv_def gw get_seg_entry_def)
qed

lemma refit_log:
  assumes "sit_inv s" "i = curseg_idx type mlog" "i < length (curseg_array s)" "c = curseg_array s ! i"
    and "v = next_segno c" "v < main_segments s" "j < blocks_per_seg s" "free_at s v j"
    and "u = reset_curseg_mlog s type mlog True" "d = next_free_blkoff u ((fresh_log s type c)\<lparr>alloc_type := SSR\<rparr>) 0"
  shows "segno d = v" "log_ok s d" "alloc_type d = SSR"
proof -
  let ?p = "put_curseg i (fresh_log s type c) s"
  have p: "v < main_segments ?p" "sit_inv ?p" "get_seg_entry ?p = get_seg_entry s"
    using assms(1,6) sit_inv_cong [of ?p s] by (auto simp: put_curseg_def get_seg_entry_def)
  have u: "u = set_sit_entry_type ?p type v True" using reset_curseg_mlog_eq(1) [OF assms(2,3,4)] assms(5,9) by simp
  note st = set_sit_entry_type_spec [OF p(2,1) u]
  have uf: "log_blocks_per_seg u = log_blocks_per_seg s" "main_segments u = main_segments s"
    using arg_cong [OF st(1), of log_blocks_per_seg] arg_cong [OF st(1), of main_segments] by (simp_all add: put_curseg_def)
  have fu: "free_at u = free_at s" using same_blocksD(1) [OF st(3)] p(3) by (simp add: free_at_def fun_eq_iff)
  have cs: "segno ((fresh_log s type c)\<lparr>alloc_type := SSR\<rparr>) = v" by (simp add: fresh_log_def assms(5))
  have "d = (fresh_log s type c)\<lparr>alloc_type := SSR, next_blkoff := first_from (free_at s v) (blocks_per_seg s) 0\<rparr>"
    using next_free_blkoff_first [OF st(2), of "(fresh_log s type c)\<lparr>alloc_type := SSR\<rparr>" 0] assms(6)
    by (simp add: assms(10) cs uf fu)
  then have d: "segno d = v" "alloc_type d = SSR" "next_blkoff d = first_from (free_at s v) (blocks_per_seg s) 0"
    by (simp_all add: fresh_log_def assms(5))
  have "first_from (free_at s v) (blocks_per_seg s) 0 < blocks_per_seg s" using assms(7,8) by (auto simp: first_from_lt_iff)
  with d show "segno d = v" "log_ok s d" "alloc_type d = SSR" using first_from_sat by (simp_all add: log_ok_def)
qed

lemma change_curseg_moved:
  assumes "alloc_inv_but X Y s" "type < NR_CURSEG_TYPE" "mlog < nr_mlog s" "i = curseg_idx type mlog"
    and "v = next_segno (curseg_array s ! i)" "v < main_segments s" "v \<notin> set (map segno (curseg_array s))"
    and "j < blocks_per_seg s" "free_at s v j"
  shows "\<exists>c. moved_to i c s (change_curseg s type mlog reuse)"
proof -
  let ?c = "curseg_array s ! i" let ?w = "write_sum_page s (sum_blk ?c) (segno ?c)"
  have inv: "free_map_ok s" "logs_inv X s" "sit_inv s" "dirty_inv s"
    using assms(1) by (simp_all add: alloc_inv_but_def segs_inv_def)
  have i: "i < length (curseg_array s)" using log_index [OF inv(2) assms(2,3)] assms(4) by simp
  define s1 where s1: "s1 = ?w\<lparr>free_i := set_test_and_inuse (segs_per_sec ?w) (free_i ?w) v\<rparr>"
  have s1f: "main_segments s1 = main_segments s" "dirty_i s1 = dirty_i s" "get_seg_entry s1 = get_seg_entry s"
    by (auto simp: s1 write_sum_page_def get_seg_entry_def)
  have occ: "segmap_inv (total_sections s) (segs_per_sec s) (free_i s1)" "in_use (free_i s1) = insert v (in_use (free_i s))"
    "start_segno (free_i s1) = start_segno (free_i s)"
    using segmap_occupy [OF inv(1) assms(6) refl] by (simp_all add: s1 write_sum_page_def)
  define w where w: "w = remove_dirty (remove_dirty s1 v PRE) v DIRTY"
  have d1: "dirty_inv s1" "v < main_segments s1" using inv(4) assms(6) by (simp_all add: dirty_inv_def s1f)
  note dd = drop_dirty [OF d1 w]
  have ws: "main_segments w = main_segments s" "sit_i w = sit_i s" "curseg_array w = (curseg_array s)[i := ?c]"
    "free_i w = free_i s1" "same_geom s w"
    by (subst dd(1), simp add: s1 write_sum_page_def same_geom_def occ(3) [unfolded s1 write_sum_page_def, simplified])+
  have sw: "sit_inv w" using sit_inv_cong [OF ws(2)] inv(3) ws(5) by (simp add: same_geom_def)
  have fw: "free_at w = free_at s" by (intro ext) (simp add: free_at_def get_seg_entry_def ws)
  define u where u: "u = reset_curseg_mlog w type mlog True"
  define c where c: "c = next_free_blkoff u ((fresh_log w type ?c)\<lparr>alloc_type := SSR\<rparr>) 0"
  define c' where c': "c' = (if reuse then c\<lparr>sum_blk := (sum_blk c)\<lparr>sum_entries := sum_entries (ssa_area u ! v)\<rparr>\<rparr> else c)"
  have iw: "i < length (curseg_array w)" "?c = curseg_array w ! i" using i by (simp_all add: ws)
  have cu: "curseg_array u ! i = fresh_log w type ?c" using reset_curseg_mlog_eq(2) [OF assms(4) iw] by (simp add: u)
  have new: "change_curseg s type mlog reuse = put_curseg i c' (reset_curseg_mlog w type mlog True)"
    unfolding change_curseg_def Let_def assms(4) [symmetric] assms(5) [symmetric]
    by (simp only: s1 [symmetric] w [symmetric] u [symmetric] cu c [symmetric] c' [symmetric])
  have g: "log_blocks_per_seg w = log_blocks_per_seg s" using ws(5) by (simp add: same_geom_def)
  have "segno c = v" "log_ok w c"
    using refit_log(1,2) [OF sw assms(4) iw assms(5) _ _ _ u c, of j] assms(6,8,9) by (simp_all add: ws(1) g fw)
  then have lk: "segno c' = v" "log_ok s c'" using log_ok_cong [OF fw g] by (simp_all add: c' log_ok_def)
  have "moved_to i c' s (change_curseg s type mlog reuse)"
    by (rule moved_by_reset [OF inv(3) dd(2) ws(5,2,3) i assms(4) assms(5) [symmetric] assms(6,7,2) _ _ _ new lk])
      (use occ dd(3) in \<open>simp_all add: ws s1f\<close>)
  then show ?thesis by blast
qed


subsection \<open>The checkpointed blocks\<close>

lemma ckpt_map_put:
  assumes "ckpt_valid_map e = ckpt_valid_map (xs ! i)"
  shows "map ckpt_valid_map (xs[i := e]) = map ckpt_valid_map xs"
  using assms by (cases "i < length xs") (simp_all add: map_update list_update_same_conv list_update_beyond)

lemma update_sit_entry_ckpt:
  "map ckpt_valid_map (sentries (sit_i (update_sit_entry now s a del))) = map ckpt_valid_map (sentries (sit_i s))"
proof -
  have "ckpt_valid_map (fst (update_maps se off del)) = ckpt_valid_map se" for se off
    by (simp add: update_maps_def f2fs_test_and_set_bit_def f2fs_test_and_clear_bit_def Let_def)
  then have u: "update_maps se off del = (e, x) \<Longrightarrow> ckpt_valid_map e = ckpt_valid_map se" for se off e x
    by (metis fst_conv)
  show ?thesis
    by (auto simp: update_sit_entry_def Let_def f2fs_bug_on_eq put_seg_entry_def get_seg_entry_def
        intro!: ckpt_map_put dest!: u split: prod.split)
qed

lemma locate_dirty_segment_sit [simp]: "sit_i (locate_dirty_segment s sn) = sit_i s"
  by (simp add: locate_dirty_segment_def locate_dirty_def remove_dirty_def f2fs_bug_on_eq Let_def)

lemma refresh_sit_entry_ckpt:
  "map ckpt_valid_map (sentries (sit_i (refresh_sit_entry now s old new))) = map ckpt_valid_map (sentries (sit_i s))"
  by (simp add: refresh_sit_entry_def Let_def update_sit_entry_ckpt)

lemma in_main_built:
  assumes "wf_layout s" "n < main_segments s" "j < blocks_per_seg s" "b = START_BLOCK s n + j"
  shows "in_main s b" "GET_SEGNO s b = n" "GET_BLKOFF_FROM_SEG0 s b = j"
proof -
  have z: "0 < main_segments s" "(0::nat) < blocks_per_seg s" using assms(2) by simp_all
  have "Suc n * blocks_per_seg s \<le> main_segments s * blocks_per_seg s" using assms(2) by (intro mult_le_mono1) simp
  then have "n * blocks_per_seg s + j < main_segments s * blocks_per_seg s" using assms(3) by simp
  then show "in_main s b"
    using wf_layoutD(1) [OF assms(1) z] wf_layoutD(1) [OF assms(1-3)]
    by (simp add: in_main_def assms(4) algebra_simps)
  show "GET_SEGNO s b = n" "GET_BLKOFF_FROM_SEG0 s b = j"
    using segno_of_built [OF assms(1-3)] by (simp_all add: assms(4))
qed

text \<open>The validity update takes no free place but the new block.\<close>

lemma refresh_sit_entry_free:
  assumes "segs_inv s" "in_main s new" "\<not> block_valid s new"
    and "old = NULL_ADDR \<or> old = NEW_ADDR \<or> in_main s old \<and> block_valid s old"
    and "classified_but {GET_SEGNO s new} s" "r = refresh_sit_entry now s old new"
    and "n < main_segments s" "j < blocks_per_seg s" "free_at s n j"
    and "\<not> (n = GET_SEGNO s new \<and> j = GET_BLKOFF_FROM_SEG0 s new)"
  shows "free_at r n j"
proof -
  note sp = refresh_sit_entry_spec [OF assms(1-6)]
  note f = same_frameD [OF sp(2)]
  have wl: "wf_layout s" "sit_inv s" "sit_inv r" using assms(1) sp(1) by (simp_all add: segs_inv_def)
  note b = in_main_built [OF wl(1) assms(7,8) refl]
  let ?b = "START_BLOCK s n + j"
  have "map ckpt_valid_map (sentries (sit_i r)) ! n = map ckpt_valid_map (sentries (sit_i s)) ! n"
    by (simp add: assms(6) refresh_sit_entry_ckpt)
  then have "ckpt_valid_map (get_seg_entry r n) = ckpt_valid_map (get_seg_entry s n)"
    using sit_invD(1) [OF wl(2)] sit_invD(1) [OF wl(3)] assms(7) f(7) by (simp add: get_seg_entry_def)
  moreover have "?b \<noteq> new" using b(2,3) assms(10) by auto
  then have "\<not> block_valid r ?b" using sp(3) [OF b(1)] assms(9) b(2,3) by (auto simp: block_valid_def free_at_def)
  then have "\<not> f2fs_test_bit j (cur_valid_map (get_seg_entry r n))" using b(2,3) by (simp add: block_valid_def f)
  ultimately show ?thesis using assms(9) by (simp add: free_at_def)
qed

lemma refresh_keeps:
  assumes "alloc_inv_but {} Y s" "Y \<subseteq> {GET_SEGNO s new}" "in_main s new"
    and "free_at s (GET_SEGNO s new) (GET_BLKOFF_FROM_SEG0 s new)" "test_bit (GET_SEGNO s new) (free_segmap (free_i s))"
    and "old = NULL_ADDR \<or> old = NEW_ADDR \<or> in_main s old \<and> block_valid s old"
    and "\<forall>c \<in> set (curseg_array s). segno c = GET_SEGNO s new \<longrightarrow> GET_BLKOFF_FROM_SEG0 s new < next_blkoff c"
    and "r = refresh_sit_entry now s old new"
  shows "alloc_inv r"
proof -
  have inv: "segs_inv s" "free_map_ok s" "logs_inv {} s" "free_empty s" "classified_but {GET_SEGNO s new} s"
    using assms(1,2) by (auto simp: alloc_inv_but_def classified_but_def)
  have nv: "\<not> block_valid s new" using assms(4) by (simp add: block_valid_def free_at_def)
  note sp = refresh_sit_entry_spec [OF inv(1) assms(3) nv assms(6) inv(5) assms(8)]
  note fr = refresh_sit_entry_free [OF inv(1) assms(3) nv assms(6) inv(5) assms(8)]
  note f = same_frameD [OF sp(2)]
  have g: "free_i r = free_i s" "curseg_array r = curseg_array s" "nr_mlog r = nr_mlog s" "total_sections r = total_sections s"
    "segs_per_sec r = segs_per_sec s" using sp(2) by (simp_all add: same_frame_def)
  have "log_ok r (curseg_array s ! i)" if i: "i < length (curseg_array s)" for i
  proof -
    let ?c = "curseg_array s ! i"
    have l: "segno ?c < main_segments s" "log_ok s ?c" using logs_invD [OF inv(3) i] by simp_all
    have "free_at r (segno ?c) j" if "next_blkoff ?c \<le> j" "j < blocks_per_seg s" "free_at s (segno ?c) j" for j
      using fr [OF l(1) that(2,3)] bspec [OF assms(7) nth_mem [OF i]] that(1) by (auto simp: not_less)
    then show ?thesis using l(2) by (simp add: log_ok_def f list_all_length)
  qed
  then have "logs_inv {} r" using inv(3) by (simp add: logs_inv_def g f)
  moreover have "free_at r n j"
    if "n < main_segments s" "\<not> test_bit n (free_segmap (free_i s))" "j < blocks_per_seg s" for n j
    using fr [OF that(1,3)] inv(4) that assms(5) by (auto simp: free_empty_def list_all_length)
  then have "free_empty r" by (simp add: free_empty_def g f list_all_length)
  moreover have "free_map_ok r" using inv(2) by (simp add: free_map_ok_def g f)
  ultimately show ?thesis using sp(1,4) by (simp add: alloc_inv_but_def)
qed


subsection \<open>Reusing dirty segments\<close>

text \<open>
  What the allocator relies on from victim selection in SSR mode: a victim is a segment of the main
  area in no current section, with a block that is free now and in the last checkpoint, and the
  search changes nothing the allocator looks at.
\<close>

locale ssr_source =
  fixes get_victim :: victim_fn
  assumes victim_frame: "segs_inv s \<Longrightarrow> get_victim s type = (r, res) \<Longrightarrow> search_frame s r"
    and victim_ok: "segs_inv s \<Longrightarrow> get_victim s type = (r, Some v) \<Longrightarrow>
      v < main_segments s \<and> \<not> IS_CURSEC s (GET_SECNO s v) \<and> (\<exists>j<blocks_per_seg s. free_at s v j)"

text \<open>Two states the allocator cannot tell apart.\<close>

definition log_view :: "curseg_info \<Rightarrow> nat \<times> nat \<times> alloc_mode" where
  "log_view c = (segno c, next_blkoff c, alloc_type c)"

definition same_alloc :: "sbi \<Rightarrow> sbi \<Rightarrow> bool" where
  "same_alloc s r \<longleftrightarrow> (\<exists>mn mx. sit_i r = (sit_i s)\<lparr>min_mtime := mn, max_mtime := mx\<rparr>) \<and>
     free_i r = free_i s \<and> dirty_i r = dirty_i s \<and>
     map log_view (curseg_array r) = map log_view (curseg_array s) \<and> nr_mlog r = nr_mlog s \<and>
     seg0_blkaddr r = seg0_blkaddr s \<and> main_segments r = main_segments s \<and> segs_per_sec r = segs_per_sec s \<and>
     secs_per_zone r = secs_per_zone s \<and> total_sections r = total_sections s \<and>
     log_blocks_per_seg r = log_blocks_per_seg s \<and> need_fsck r = need_fsck s"

lemma same_alloc_search: "search_frame s r \<Longrightarrow> same_alloc s r"
  unfolding search_frame_def same_alloc_def by (elim exE) (intro conjI exI; simp)

lemma same_alloc_trans: "same_alloc s q \<Longrightarrow> same_alloc q r \<Longrightarrow> same_alloc s r"
  unfolding same_alloc_def by (elim conjE exE) (intro conjI exI; simp)

lemma same_alloc_put:
  assumes "log_view c = log_view (curseg_array s ! i)"
  shows "same_alloc s (put_curseg i c s)"
proof -
  have "map log_view ((curseg_array s)[i := c]) = map log_view (curseg_array s)"
    using assms by (cases "i < length (curseg_array s)") (simp_all add: map_update list_update_same_conv list_update_beyond)
  moreover have "sit_i s = (sit_i s)\<lparr>min_mtime := min_mtime (sit_i s), max_mtime := max_mtime (sit_i s)\<rparr>" by simp
  then have "\<exists>mn mx. sit_i s = (sit_i s)\<lparr>min_mtime := mn, max_mtime := mx\<rparr>" by blast
  ultimately show ?thesis by (simp add: same_alloc_def put_curseg_def)
qed

lemma same_allocD:
  assumes "same_alloc s r"
  shows "map segno (curseg_array r) = map segno (curseg_array s)" "get_seg_entry r = get_seg_entry s"
    "free_at r = free_at s" "same_blocks s r" "same_geom s r" "sit_inv r = sit_inv s" "dirty_inv r = dirty_inv s"
    "length (curseg_array r) = length (curseg_array s)"
    "k < length (curseg_array s) \<Longrightarrow> log_view (curseg_array r ! k) = log_view (curseg_array s ! k)"
    "length (curseg_array s) = nr_mlog s * NR_CURSEG_TYPE \<Longrightarrow> IS_CURSEG r = IS_CURSEG s"
proof -
  have m: "map log_view (curseg_array r) = map log_view (curseg_array s)" using assms by (simp add: same_alloc_def)
  then have "map (fst \<circ> log_view) (curseg_array r) = map (fst \<circ> log_view) (curseg_array s)"
    by (metis map_map)
  then show ms: "map segno (curseg_array r) = map segno (curseg_array s)" by (simp add: log_view_def comp_def)
  show len: "length (curseg_array r) = length (curseg_array s)" using map_eq_imp_length_eq [OF m] .
  show "k < length (curseg_array s) \<Longrightarrow> log_view (curseg_array r ! k) = log_view (curseg_array s ! k)"
    using arg_cong [OF m, of "\<lambda>xs. xs ! k"] len by simp
  show gs: "get_seg_entry r = get_seg_entry s" using assms by (auto simp: same_alloc_def get_seg_entry_def)
  show "free_at r = free_at s" by (intro ext) (simp add: free_at_def gs)
  show "same_blocks s r" "same_geom s r" using assms by (auto simp: same_blocks_def same_geom_def same_alloc_def gs)
  show "sit_inv r = sit_inv s" using assms by (auto simp: same_alloc_def sit_inv_def Let_def)
  show "dirty_inv r = dirty_inv s" using assms by (simp add: same_alloc_def dirty_inv_def gs)
  show "IS_CURSEG r = IS_CURSEG s" if "length (curseg_array s) = nr_mlog s * NR_CURSEG_TYPE"
    using IS_CURSEG_iff [of r] IS_CURSEG_iff [of s] that assms by (auto simp: same_alloc_def ms len simp del: set_map)
qed

lemma same_alloc_inv:
  assumes "same_alloc s r" "alloc_inv_but X Y s"
  shows "alloc_inv_but X Y r"
proof -
  note d = same_allocD [OF assms(1)] and g = same_geomD [OF same_allocD(5) [OF assms(1)]]
  have f: "main_segments r = main_segments s" "total_sections r = total_sections s" "segs_per_sec r = segs_per_sec s"
    "log_blocks_per_seg r = log_blocks_per_seg s" "nr_mlog r = nr_mlog s" "free_i r = free_i s" "dirty_i r = dirty_i s"
    using assms(1) by (simp_all add: same_alloc_def)
  have inv: "segs_inv s" "free_map_ok s" "logs_inv X s" "free_empty s" "classified_but Y s"
    using assms(2) by (simp_all add: alloc_inv_but_def)
  have len: "length (curseg_array s) = nr_mlog s * NR_CURSEG_TYPE" using inv(3) by (simp add: logs_inv_def)
  have lk: "log_ok r c = log_ok s c'" if "log_view c = log_view c'" for c c'
    using that by (simp add: log_ok_def log_view_def f d(3))
  have "segno (curseg_array r ! i) < main_segments r \<and> test_bit (segno (curseg_array r ! i)) (free_segmap (free_i r)) \<and>
      (i \<in> X \<or> log_ok r (curseg_array r ! i))" if i: "i < length (curseg_array s)" for i
    using logs_invD [OF inv(3) i] lk [OF d(9) [OF i]] d(9) [OF i] by (auto simp: f log_view_def)
  then have "logs_inv X r" using inv(3) d(1,8) by (simp add: logs_inv_def f)
  moreover have "segs_inv r" "free_map_ok r" "free_empty r"
    using inv(1,2,4) by (simp_all add: segs_inv_def free_map_ok_def free_empty_def f g d)
  moreover have "classified_at r n = classified_at s n" for n
    by (simp add: classified_at_def f d(10) [OF len] get_valid_blocks_def d(2))
  then have "classified_but Y r" using inv(5) by (simp add: classified_but_def f d(10) [OF len])
  ultimately show ?thesis by (simp add: alloc_inv_but_def)
qed

lemma moved_from:
  assumes "same_alloc s q" "moved_to i c q r" "(curseg_array q)[i := c] = (curseg_array s)[i := c]"
  shows "moved_to i c s r"
proof -
  note d = same_allocD [OF assms(1)]
  have "same_geom s r" "same_blocks s r"
    using assms(2) d(4,5) by (simp_all add: moved_to_def same_geom_def same_blocks_def)
  with assms d(1) show ?thesis by (simp add: moved_to_def same_alloc_def)
qed


text \<open>The state in which \<open>get_ssr_segment\<close> has noted a usable victim for log \<open>i\<close>.\<close>

definition victim_noted :: "nat \<Rightarrow> sbi \<Rightarrow> sbi \<Rightarrow> bool" where
  "victim_noted i s r \<longleftrightarrow> same_alloc s r \<and> (\<forall>c. (curseg_array r)[i := c] = (curseg_array s)[i := c]) \<and>
     (i < length (curseg_array s) \<longrightarrow>
        (let v = next_segno (curseg_array r ! i)
         in v < main_segments s \<and> v \<notin> set (map segno (curseg_array s)) \<and> (\<exists>j<blocks_per_seg s. free_at s v j)))"

lemma not_cursec_not_curseg:
  assumes "length (curseg_array s) = nr_mlog s * NR_CURSEG_TYPE" "\<not> IS_CURSEC s (GET_SECNO s v)"
  shows "v \<notin> set (map segno (curseg_array s))"
  using assms(2) unfolding IS_CURSEG_iff [OF assms(1), symmetric]
  by (auto simp: IS_CURSEG_def IS_CURSEC_def GET_SECNO_def)

lemma victim_noted_from: "same_alloc s q \<Longrightarrow> curseg_array q = curseg_array s \<Longrightarrow> victim_noted i q r \<Longrightarrow> victim_noted i s r"
  using same_alloc_trans [of s q r] same_allocD(3) [of s q]
  by (simp add: victim_noted_def same_alloc_def Let_def)

subsection \<open>Advancing a log\<close>

lemma locate_keeps:
  assumes "alloc_inv_but X Y s" "n < main_segments s" "r = locate_dirty_segment s n"
  shows "alloc_inv_but X (Y - {n}) r" "same_frame s r" "sit_i r = sit_i s"
proof -
  have inv: "segs_inv s" "free_map_ok s" "logs_inv X s" "free_empty s" "classified_but Y s"
    using assms(1) by (simp_all add: alloc_inv_but_def)
  note l = locate_dirty_segment_block [OF inv(1) disjI1 [OF assms(2)] assms(3)]
  then show f: "same_frame s r" by blast
  show si: "sit_i r = sit_i s" by (simp add: assms(3))
  then have fa: "free_at r = free_at s" by (intro ext) (simp add: free_at_def get_seg_entry_def)
  note d = same_frameD [OF f]
  have g: "free_i r = free_i s" "curseg_array r = curseg_array s" "nr_mlog r = nr_mlog s" "total_sections r = total_sections s"
    "segs_per_sec r = segs_per_sec s" using f by (simp_all add: same_frame_def)
  have "logs_inv X r" using inv(3) log_ok_cong [OF fa d(9)] by (simp add: logs_inv_def g d)
  moreover have "free_map_ok r" "free_empty r" using inv(2,4) by (simp_all add: free_map_ok_def free_empty_def g d fa)
  ultimately show "alloc_inv_but X (Y - {n}) r"
    using l classified_locate [OF inv(1) disjI1 [OF assms(2)] assms(3) inv(5)] by (simp add: alloc_inv_but_def)
qed

lemma put_log_keeps:
  assumes "alloc_inv_but X Y s" "i < length (curseg_array s)" "segno c = segno (curseg_array s ! i)"
  shows "alloc_inv_but (insert i X) Y (put_curseg i c s)" "log_ok s c \<Longrightarrow> alloc_inv_but (X - {i}) Y (put_curseg i c s)"
proof -
  let ?r = "put_curseg i c s"
  have inv: "segs_inv s" "free_map_ok s" "logs_inv X s" "free_empty s" "classified_but Y s"
    using assms(1) by (simp_all add: alloc_inv_but_def)
  have r: "curseg_array ?r = (curseg_array s)[i := c]" "free_i ?r = free_i s" "main_segments ?r = main_segments s"
    "nr_mlog ?r = nr_mlog s" "log_blocks_per_seg ?r = log_blocks_per_seg s" "free_at ?r = free_at s"
    "total_sections ?r = total_sections s" "segs_per_sec ?r = segs_per_sec s" "dirty_i ?r = dirty_i s"
    "get_seg_entry ?r = get_seg_entry s" "sit_i ?r = sit_i s" "wf_layout ?r = wf_layout s"
    by (auto intro!: ext simp: put_curseg_def free_at_def get_seg_entry_def wf_layout_def)
  have ms: "map segno (curseg_array ?r) = map segno (curseg_array s)"
    using assms(2,3) by (simp add: r(1) map_update list_update_same_conv)
  have len: "length (curseg_array s) = nr_mlog s * NR_CURSEG_TYPE" "length (curseg_array ?r) = nr_mlog ?r * NR_CURSEG_TYPE"
    using inv(3) by (simp_all add: logs_inv_def r)
  have cur: "IS_CURSEG ?r = IS_CURSEG s" by (intro ext) (simp only: IS_CURSEG_iff [OF len(1)] IS_CURSEG_iff [OF len(2)] ms)
  have lk: "log_ok ?r = log_ok s" using log_ok_cong [OF r(6,5)] .
  have "logs_inv Z ?r" if "insert i X = insert i Z" "i \<in> Z \<or> log_ok s c" for Z
    using inv(3) ms len(2) that assms(2,3) by (auto simp: logs_inv_def r(1,2,3) lk nth_list_update)
  from this [of "insert i X"] this [of "X - {i}"]
  have "logs_inv (insert i X) ?r" "log_ok s c \<Longrightarrow> logs_inv (X - {i}) ?r" by auto
  moreover have "sit_inv ?r = sit_inv s" by (intro sit_inv_cong) (simp_all add: r)
  then have "segs_inv ?r" using inv(1) by (simp add: segs_inv_def dirty_inv_def r)
  moreover have "free_map_ok ?r" "free_empty ?r" using inv(2,4) by (simp_all add: free_map_ok_def free_empty_def r)
  moreover have "classified_but Y ?r"
    using inv(5) by (simp add: classified_but_def classified_at_def cur r get_valid_blocks_def)
  ultimately show "alloc_inv_but (insert i X) Y ?r" "log_ok s c \<Longrightarrow> alloc_inv_but (X - {i}) Y ?r"
    by (simp_all add: alloc_inv_but_def)
qed

lemma refresh_next_blkoff_advances:
  assumes "sit_inv s" "segno c < main_segments s" "log_ok s c" "d = refresh_next_blkoff s c"
  shows "segno d = segno c" "next_blkoff c < next_blkoff d" "next_blkoff d < blocks_per_seg s \<Longrightarrow> log_ok s d"
proof -
  have lt: "next_blkoff c < blocks_per_seg s" using assms(3) by (simp add: log_ok_def)
  have ssr: "d = c\<lparr>next_blkoff := first_from (free_at s (segno c)) (blocks_per_seg s) (next_blkoff c + 1)\<rparr>"
    if "alloc_type c = SSR" using that next_free_blkoff_first [OF assms(1,2)] by (simp add: assms(4) refresh_next_blkoff_def)
  have lfs: "d = c\<lparr>next_blkoff := next_blkoff c + 1\<rparr>" if "alloc_type c \<noteq> SSR"
    using that by (simp add: assms(4) refresh_next_blkoff_def)
  show "segno d = segno c" using ssr lfs by (cases "alloc_type c = SSR") simp_all
  show "next_blkoff c < next_blkoff d"
    using ssr lfs first_from_lower [of "next_blkoff c + 1" "blocks_per_seg s" "free_at s (segno c)"] lt
    by (cases "alloc_type c = SSR") simp_all
  show "log_ok s d" if "next_blkoff d < blocks_per_seg s"
  proof (cases "alloc_type c = SSR")
    case True
    then show ?thesis using that ssr first_from_sat by (simp add: log_ok_def)
  next
    case False
    have "free_at s (segno c) j" if "Suc (next_blkoff c) \<le> j" "j < blocks_per_seg s" for j
      using that assms(3) False by (cases "alloc_type c") (auto simp: log_ok_def list_all_iff)
    with that lfs [OF False] show ?thesis by (auto simp: log_ok_def list_all_iff)
  qed
qed

lemma put_log_others:
  assumes "distinct (map segno cs)" "i < length cs" "segno c = segno (cs ! i)" "d \<in> set (cs[i := e])" "segno d = segno c"
  shows "d = e"
proof -
  obtain k where k: "k < length cs" "d = cs[i := e] ! k" using assms(4) by (auto simp: in_set_conv_nth)
  have "k = i"
  proof (rule ccontr)
    assume ne: "k \<noteq> i"
    then have "map segno cs ! k = map segno cs ! i" using k assms(2,3,5) by simp
    with ne show False using nth_eq_iff_index_eq [OF assms(1)] k(1) assms(2) by simp
  qed
  with k(2) assms(2) show ?thesis by simp
qed

context ssr_source
begin

lemma ssr_try_noted:
  assumes "segs_inv s" "logs_inv X s" "ssr_try get_victim i type s = (r, found)"
  shows "if found then victim_noted i s r else search_frame s r"
proof -
  obtain q res where g: "get_victim s type = (q, res)" by fastforce
  note fr = victim_frame [OF assms(1) g]
  show ?thesis
  proof (cases res)
    case None
    then show ?thesis using assms(3) g fr by (auto simp: ssr_try_def)
  next
    case (Some v)
    let ?c = "(curseg_array q ! i)\<lparr>next_segno := v\<rparr>"
    have r: "found" "r = put_curseg i ?c q" using assms(3) g Some by (auto simp: ssr_try_def)
    have "length (curseg_array s) = nr_mlog s * NR_CURSEG_TYPE" using assms(2) by (simp add: logs_inv_def)
    then have v: "v < main_segments s" "v \<notin> set (map segno (curseg_array s))" "\<exists>j<blocks_per_seg s. free_at s v j"
      using victim_ok [OF assms(1) g [unfolded Some]] not_cursec_not_curseg by blast+
    have "same_alloc q r" unfolding r(2) by (rule same_alloc_put) (simp add: log_view_def)
    then have "same_alloc s r" using same_alloc_trans [OF same_alloc_search [OF fr]] by blast
    moreover have "curseg_array r = (curseg_array s)[i := ?c]"
      using search_frameD(8) [OF fr] by (simp add: r(2) put_curseg_def)
    ultimately show ?thesis using r(1) v by (simp add: victim_noted_def Let_def)
  qed
qed

lemma ssr_down_noted:
  assumes "alloc_inv_but X Y s" "ssr_down get_victim i type s = (r, found)"
  shows "if found then victim_noted i s r else search_frame s r"
  using assms
proof (induction type arbitrary: s)
  case 0
  then show ?case using ssr_try_noted [of s X i 0 r found] by (simp add: alloc_inv_but_def)
next
  case (Suc type)
  obtain q fd where t: "ssr_try get_victim i (Suc type) s = (q, fd)" by fastforce
  have n: "if fd then victim_noted i s q else search_frame s q"
    using ssr_try_noted [OF _ _ t] Suc.prems(1) by (auto simp: alloc_inv_but_def)
  show ?case
  proof (cases fd)
    case True
    then show ?thesis using Suc.prems(2) t n by simp
  next
    case False
    then have fr: "search_frame s q" using n by simp
    have sa: "same_alloc s q" using same_alloc_search [OF fr] .
    have "if found then victim_noted i q r else search_frame q r"
      using Suc.IH [OF same_alloc_inv [OF sa Suc.prems(1)]] Suc.prems(2) t False by simp
    then show ?thesis
      using victim_noted_from [OF sa search_frameD(8) [OF fr]] search_frame_trans [OF fr] by (cases found) auto
  qed
qed

lemma get_ssr_segment_noted:
  assumes "alloc_inv_but X Y s" "get_ssr_segment get_victim s type mlog = (r, found)"
  shows "if found then victim_noted (curseg_idx type mlog) s r else search_frame s r"
proof (cases "IS_NODESEG type \<or> \<not> has_not_enough_free_secs s 0")
  case True
  then have "ssr_try get_victim (curseg_idx type mlog) type s = (r, found)"
    using assms(2) by (simp add: get_ssr_segment_def Let_def)
  from ssr_try_noted [OF _ _ this, of X] assms(1) show ?thesis by (simp add: alloc_inv_but_def)
next
  case False
  then show ?thesis using ssr_down_noted [OF assms(1)] assms(2) by (simp add: get_ssr_segment_def Let_def)
qed

lemma allocate_segment_moved:
  assumes "alloc_inv_but X Y s" "has_free_section s" "type < NR_CURSEG_TYPE" "mlog < nr_mlog s"
    and "\<forall>n \<in> Y. n < main_segments s \<longrightarrow> test_bit n (free_segmap (free_i s))"
  shows "\<exists>c. moved_to (curseg_idx type mlog) c s (allocate_segment_by_default get_victim s type mlog force)"
proof -
  let ?i = "curseg_idx type mlog"
  note new = new_curseg_moved [OF assms]
  have "\<exists>c. moved_to ?i c s (case get_ssr_segment get_victim s type mlog of
      (s, found) \<Rightarrow> if found then change_curseg s type mlog True else new_curseg s type mlog False)"
  proof -
    obtain q found where g: "get_ssr_segment get_victim s type mlog = (q, found)" by fastforce
    note n = get_ssr_segment_noted [OF assms(1) g]
    show ?thesis
    proof (cases found)
      case True
      then have vn: "victim_noted ?i s q" using n by simp
      have i: "?i < length (curseg_array s)" using log_index [of X s] assms(1,3,4) by (simp add: alloc_inv_but_def)
      have sa: "same_alloc s q" using vn by (simp add: victim_noted_def)
      obtain j where v: "next_segno (curseg_array q ! ?i) < main_segments q"
        "next_segno (curseg_array q ! ?i) \<notin> set (map segno (curseg_array q))"
        "j < blocks_per_seg q" "free_at q (next_segno (curseg_array q ! ?i)) j"
        using vn i same_allocD(1,3) [OF sa] sa by (auto simp: victim_noted_def Let_def same_alloc_def)
      have "mlog < nr_mlog q" using assms(4) sa by (simp add: same_alloc_def)
      from change_curseg_moved [OF same_alloc_inv [OF sa assms(1)] assms(3) this refl refl v, of True]
      obtain c where "moved_to ?i c q (change_curseg q type mlog True)" by blast
      then have "moved_to ?i c s (change_curseg q type mlog True)"
        using vn by (intro moved_from [OF sa]) (simp_all add: victim_noted_def)
      then show ?thesis using g True by auto
    next
      case False
      then have fr: "search_frame s q" using n by simp
      note sa = same_alloc_search [OF fr]
      have "has_free_section q" "mlog < nr_mlog q" "\<forall>n \<in> Y. n < main_segments q \<longrightarrow> test_bit n (free_segmap (free_i q))"
        using assms(2,4,5) sa by (simp_all add: has_free_section_def same_alloc_def)
      from new_curseg_moved [OF same_alloc_inv [OF sa assms(1)] this(1) assms(3) this(2,3), of False]
      obtain c where "moved_to ?i c q (new_curseg q type mlog False)" by blast
      then have "moved_to ?i c s (new_curseg q type mlog False)"
        using search_frameD(8) [OF fr] by (intro moved_from [OF sa]) simp_all
      then show ?thesis using g False by auto
    qed
  qed
  moreover have "\<exists>c. moved_to ?i c s (new_curseg s type mlog ns)" for ns using new by blast
  moreover have "\<exists>c. moved_to ?i c s a \<Longrightarrow> \<exists>c. moved_to ?i c s b \<Longrightarrow> \<exists>c. moved_to ?i c s (if x then a else b)" for a b x
    by simp
  ultimately show ?thesis unfolding allocate_segment_by_default_def Let_def by simp
qed

lemma new_segment_log_keeps:
  assumes "alloc_inv s" "has_free_section s" "type < NR_CURSEG_TYPE" "mlog < nr_mlog s" "i = curseg_idx type mlog"
    and "r = allocate_new_segments_log get_victim s type mlog"
  shows "alloc_inv r" "same_geom s r" "same_blocks s r" "next_blkoff (curseg_array r ! i) = 0" "alloc_type (curseg_array r ! i) = LFS"
    "length (curseg_array r) = length (curseg_array s)"
proof -
  let ?old = "segno (curseg_array s ! i)"
  have lg: "logs_inv {} s" using assms(1) by (simp add: alloc_inv_but_def)
  have i: "i < length (curseg_array s)" using log_index [OF lg assms(3,4)] assms(5) by simp
  obtain c where c: "moved_to i c s (new_curseg s type mlog True)" "next_blkoff c = 0" "alloc_type c = LFS"
    using new_curseg_moved [OF assms(1-4)] assms(5) by blast
  define q where q: "q = new_curseg s type mlog True"
  have r: "r = locate_dirty_segment q ?old"
    by (simp add: assms(5,6) allocate_new_segments_log_def allocate_segment_by_default_def q Let_def)
  have m: "curseg_array q = (curseg_array s)[i := c]" "same_geom s q" "same_blocks s q"
    using c(1) by (simp_all add: moved_to_def q)
  have mk: "alloc_inv_but {} {?old} q" using moved_keeps [OF c(1) assms(1) i] by (simp add: q)
  have "?old < main_segments q" using logs_invD(1) [OF lg i] m(2) by (simp add: same_geom_def)
  note l = locate_keeps [OF mk this r]
  show "alloc_inv r" using l(1) by simp
  show "same_geom s r" using m(2) l(2) by (simp add: same_geom_def same_frame_def)
  show "same_blocks s r" using m(3) l(3) by (simp add: same_blocks_def get_seg_entry_def)
  have "curseg_array r = (curseg_array s)[i := c]" using l(2) m(1) by (simp add: same_frame_def)
  then show "next_blkoff (curseg_array r ! i) = 0" "alloc_type (curseg_array r ! i) = LFS"
    "length (curseg_array r) = length (curseg_array s)" using c(2,3) i by simp_all
qed

lemma advance_keeps:
  assumes "alloc_inv s" "type < NR_CURSEG_TYPE" "mlog < nr_mlog s" "i = curseg_idx type mlog" "c = curseg_array s ! i"
    and "has_free_section s \<or> next_blkoff c = 0 \<and> alloc_type c = LFS"
    and "s2 = add_sum_entry s type mlog sm" "s3 = put_curseg i (refresh_next_blkoff s2 (curseg_array s2 ! i)) s2"
    and "s4 = (if \<not> has_curseg_space s3 type mlog then allocate_segment_by_default get_victim s3 type mlog False else s3)"
  shows "\<exists>Y. Y \<subseteq> {segno c} \<and> alloc_inv_but {} Y s4" "same_geom s s4" "same_blocks s s4"
    "test_bit (segno c) (free_segmap (free_i s4))"
    "\<forall>d \<in> set (curseg_array s4). segno d = segno c \<longrightarrow> next_blkoff c < next_blkoff d"
proof -
  have inv: "logs_inv {} s" "sit_inv s" "free_map_ok s" using assms(1) by (simp_all add: alloc_inv_but_def segs_inv_def)
  have i: "i < length (curseg_array s)" using log_index [OF inv(1) assms(2,3)] assms(4) by simp
  note lg = logs_invD [OF inv(1) i, folded assms(5)]
  have sa: "same_alloc s s2" unfolding assms(7) add_sum_entry_def Let_def assms(4) [symmetric]
    by (rule same_alloc_put) (simp add: log_view_def)
  let ?c2 = "curseg_array s2 ! i"
  note ai2 = same_alloc_inv [OF sa assms(1)]
  have i2: "i < length (curseg_array s2)" using i same_allocD(8) [OF sa] by simp
  have v: "segno ?c2 = segno c" "next_blkoff ?c2 = next_blkoff c" "alloc_type ?c2 = alloc_type c"
    using same_allocD(9) [OF sa i] assms(5) by (simp_all add: log_view_def)
  have inv2: "logs_inv {} s2" "sit_inv s2" using ai2 by (simp_all add: alloc_inv_but_def segs_inv_def)
  define d where d: "d = refresh_next_blkoff s2 ?c2"
  note l2 = logs_invD [OF inv2(1) i2]
  note ad = refresh_next_blkoff_advances [OF inv2(2) l2(1) l2(3) d]
  have s3: "s3 = put_curseg i d s2" by (simp add: assms(8) d)
  have f3: "curseg_array s3 = (curseg_array s2)[i := d]" "free_i s3 = free_i s" "same_geom s s3" "same_blocks s s3"
    using sa same_allocD(2,4,5) [OF sa]
    by (auto simp: s3 put_curseg_def same_alloc_def same_geom_def same_blocks_def get_seg_entry_def)
  have b: "blocks_per_seg s2 = blocks_per_seg s" "blocks_per_seg s3 = blocks_per_seg s"
    using sa f3(3) by (simp_all add: same_alloc_def same_geom_def)
  have sp: "has_curseg_space s3 type mlog = (next_blkoff d < blocks_per_seg s)"
    using i2 by (simp add: has_curseg_space_def f3(1) assms(4) [symmetric] b)
  have dst: "distinct (map segno (curseg_array s2))" using inv2(1) by (simp add: logs_inv_def)
  have d0: "d' = d" if "d' \<in> set (curseg_array s3)" "segno d' = segno c" for d'
    using put_log_others [OF dst i2 refl] that v(1) by (simp add: f3(1))
  have "(\<exists>Y. Y \<subseteq> {segno c} \<and> alloc_inv_but {} Y s4) \<and> same_geom s s4 \<and> same_blocks s s4 \<and>
    test_bit (segno c) (free_segmap (free_i s4)) \<and>
    (\<forall>d \<in> set (curseg_array s4). segno d = segno c \<longrightarrow> next_blkoff c < next_blkoff d)"
  proof (cases "next_blkoff d < blocks_per_seg s")
    case True
    then have "s4 = s3" by (simp add: assms(9) sp)
    moreover have "alloc_inv s3"
      using put_log_keeps(2) [OF ai2 i2 ad(1) ad(3)] True by (simp add: s3 b)
    ultimately show ?thesis using f3 lg(2) d0 ad(2) v(2) by auto
  next
    case False
    have s4: "s4 = allocate_segment_by_default get_victim s3 type mlog False" using False by (simp add: assms(9) sp)
    have ai3: "alloc_inv_but {i} {} s3" using put_log_keeps(1) [OF ai2 i2 ad(1)] by (simp add: s3)
    have "8 * length (cur_valid_map (get_seg_entry s (segno c))) = blocks_per_seg s"
      using sit_invD(3) [OF inv(2) lg(1)] by (simp add: seg_inv_def)
    then have "blocks_per_seg s \<noteq> 1" by presburger
    then have "\<not> (next_blkoff c = 0 \<and> alloc_type c = LFS)"
      using False v by (auto simp: d refresh_next_blkoff_def not_less le_Suc_eq)
    then have hf: "has_free_section s3" using assms(6) f3(2) by (auto simp: has_free_section_def)
    have "mlog < nr_mlog s3" using assms(3) f3(3) by (simp add: same_geom_def)
    from allocate_segment_moved [OF ai3 hf assms(2) this, of False] obtain c' where m: "moved_to i c' s3 s4"
      using assms(4) s4 by auto
    have i3: "i < length (curseg_array s3)" "segno (curseg_array s3 ! i) = segno c" using i2 ad(1) v(1) by (simp_all add: f3(1))
    have "alloc_inv_but {} {segno c} s4" using moved_keeps [OF m ai3 i3(1)] i3(2) by simp
    moreover have g: "same_geom s s4" "same_blocks s s4"
      using m f3(3,4) by (simp_all add: moved_to_def same_geom_def same_blocks_def)
    moreover have "test_bit (segno c) (free_segmap (free_i s4))"
    proof -
      have "segno c \<in> in_use (free_i s4)"
        using m lg(1,2) free_map_okD(8) [OF inv(3)] f3(2) by (simp add: moved_to_def in_use_def)
      then show ?thesis by (simp add: in_use_def)
    qed
    moreover have "segno d' \<noteq> segno c" if "d' \<in> set (curseg_array s4)" for d'
    proof
      assume e: "segno d' = segno c"
      have "d' \<in> set ((curseg_array s2)[i := c'])" using that m by (simp add: moved_to_def f3(1))
      from put_log_others [OF dst i2 refl this] e v(1) have "d' = c'" by simp
      moreover have "segno c \<in> set (map segno (curseg_array s3))"
        using imageI [OF nth_mem [OF i3(1)], of segno] i3(2) by simp
      ultimately show False using e m by (simp add: moved_to_def)
    qed
    ultimately show ?thesis by blast
  qed
  then show "\<exists>Y. Y \<subseteq> {segno c} \<and> alloc_inv_but {} Y s4" "same_geom s s4" "same_blocks s s4"
    "test_bit (segno c) (free_segmap (free_i s4))"
    "\<forall>d \<in> set (curseg_array s4). segno d = segno c \<longrightarrow> next_blkoff c < next_blkoff d" by blast+
qed

lemma take_block_keeps:
  assumes "alloc_inv s" "type < NR_CURSEG_TYPE" "mlog < nr_mlog s" "i = curseg_idx type mlog"
    and "has_free_section s \<or> next_blkoff (curseg_array s ! i) = 0 \<and> alloc_type (curseg_array s ! i) = LFS"
    and "old = NULL_ADDR \<or> old = NEW_ADDR \<or> in_main s old \<and> block_valid s old"
    and "new = NEXT_FREE_BLKADDR s (curseg_array s ! i)"
    and "s2 = add_sum_entry s type mlog sm" "s3 = put_curseg i (refresh_next_blkoff s2 (curseg_array s2 ! i)) s2"
    and "s4 = (if \<not> has_curseg_space s3 type mlog then allocate_segment_by_default get_victim s3 type mlog False else s3)"
    and "r = refresh_sit_entry now s4 old new"
  shows "in_main s new" "free_at s (GET_SEGNO s new) (GET_BLKOFF_FROM_SEG0 s new)" "alloc_inv r"
    "need_fsck r = need_fsck s" "in_main s b \<Longrightarrow> block_valid r b = (b = new \<or> b \<noteq> old \<and> block_valid s b)"
proof -
  let ?c = "curseg_array s ! i"
  have inv: "segs_inv s" "logs_inv {} s" "wf_layout s" "sit_inv s" using assms(1) by (simp_all add: alloc_inv_but_def segs_inv_def)
  have i: "i < length (curseg_array s)" using log_index [OF inv(2) assms(2,3)] assms(4) by simp
  have lg: "segno ?c < main_segments s" "test_bit (segno ?c) (free_segmap (free_i s))" "log_ok s ?c"
    using logs_invD [OF inv(2) i] by simp_all
  have off: "next_blkoff ?c < blocks_per_seg s" using lg(3) by (simp add: log_ok_def)
  have new: "new = START_BLOCK s (segno ?c) + next_blkoff ?c"
    using wf_layoutD(2) [OF inv(3) lg(1) off] by (simp add: assms(7) NEXT_FREE_BLKADDR_def)
  note b = in_main_built [OF inv(3) lg(1) off new]
  show "in_main s new" "free_at s (GET_SEGNO s new) (GET_BLKOFF_FROM_SEG0 s new)"
    using b lg(3) by (simp_all add: log_ok_def)
  have nv: "\<not> block_valid s new" using b lg(3) by (simp add: block_valid_def log_ok_def free_at_def)
  note ad = advance_keeps [OF assms(1-4) refl assms(5,8-10)]
  obtain Y where Y: "Y \<subseteq> {GET_SEGNO s4 new}" "alloc_inv_but {} Y s4" using ad(1) b(2) same_geomD(1) [OF ad(2)] by auto
  note g = same_geomD [OF ad(2)]
  have bv: "block_valid s4 = block_valid s"
    using ad(3) by (intro ext) (simp add: block_valid_def g same_blocks_def)
  have fa: "free_at s4 = free_at s" using same_blocksD(1) [OF ad(3)] .
  have new4: "in_main s4 new" "free_at s4 (GET_SEGNO s4 new) (GET_BLKOFF_FROM_SEG0 s4 new)"
    "test_bit (GET_SEGNO s4 new) (free_segmap (free_i s4))" "\<not> block_valid s4 new"
    using b lg(3) ad(4) nv by (simp_all add: log_ok_def g fa bv)
  have old4: "old = NULL_ADDR \<or> old = NEW_ADDR \<or> in_main s4 old \<and> block_valid s4 old" using assms(6) by (simp add: g bv)
  have "\<forall>c \<in> set (curseg_array s4). segno c = GET_SEGNO s4 new \<longrightarrow> GET_BLKOFF_FROM_SEG0 s4 new < next_blkoff c"
    using ad(5) b by (simp add: g)
  then show "alloc_inv r" using refresh_keeps [OF Y(2,1) new4(1-3) old4 _ assms(11)] by blast
  have "segs_inv s4" "classified_but {GET_SEGNO s4 new} s4"
    using Y by (auto simp: alloc_inv_but_def classified_but_def)
  note sp = refresh_sit_entry_spec [OF this(1) new4(1,4) old4 this(2) assms(11)]
  show "need_fsck r = need_fsck s" using same_frameD(8) [OF sp(2)] ad(2) by (simp add: same_geom_def)
  show "in_main s b \<Longrightarrow> block_valid r b = (b = new \<or> b \<noteq> old \<and> block_valid s b)"
    using sp(3) by (simp add: g bv)
qed

lemma allocate_data_block_spec:
  assumes "alloc_inv s" "has_free_section s" "0 < nr_mlog s" "type < NR_CURSEG_TYPE \<or> type = CURSEG_DIRECT_IO"
    and "old = NULL_ADDR \<or> old = NEW_ADDR \<or> in_main s old \<and> block_valid s old"
    and "allocate_data_block get_victim now s old sm type = (r, new)"
  shows "in_main s new" "free_at s (GET_SEGNO s new) (GET_BLKOFF_FROM_SEG0 s new)" "alloc_inv r"
    "need_fsck r = need_fsck s" "in_main s b \<Longrightarrow> block_valid r b = (b = new \<or> b \<noteq> old \<and> block_valid s b)"
proof -
  define t where t: "t = (if type = CURSEG_DIRECT_IO then CURSEG_WARM_DATA else type)"
  define s0 where s0: "s0 = s\<lparr>next_mlog := add32 (next_mlog s) 1\<rparr>"
  define mlog where mlog: "mlog = next_mlog s0 mod nr_mlog s0"
  define i where i: "i = curseg_idx t mlog"
  define s1 where s1: "s1 = (if type = CURSEG_DIRECT_IO \<and> next_blkoff (curseg_array s0 ! i) \<noteq> 0
    then allocate_new_segments_log get_victim s0 t mlog else s0)"
  have tl: "t < NR_CURSEG_TYPE" using assms(4) by (auto simp: t NR_CURSEG_TYPE_def CURSEG_WARM_DATA_def)
  have sa: "same_alloc s s0" using same_alloc_search [of s s] by (simp add: same_alloc_def s0)
  note ai0 = same_alloc_inv [OF sa assms(1)]
  have hf: "has_free_section s0" "mlog < nr_mlog s0" using assms(2,3) by (simp_all add: s0 has_free_section_def mlog)
  note nl = new_segment_log_keeps [OF ai0 hf(1) tl hf(2) i refl]
  have k: "alloc_inv s1 \<and> same_geom s0 s1 \<and> same_blocks s0 s1 \<and>
      (has_free_section s1 \<or> next_blkoff (curseg_array s1 ! i) = 0 \<and> alloc_type (curseg_array s1 ! i) = LFS)"
    using nl ai0 hf(1) by (simp add: s1 same_geom_def same_blocks_def)
  then have sg: "same_geom s s1" "same_blocks s s1"
    using same_allocD(4,5) [OF sa] by (simp_all add: same_geom_def same_blocks_def)
  note g = same_geomD [OF sg(1)]
  have bv: "block_valid s1 = block_valid s"
    using sg(2) by (intro ext) (simp add: block_valid_def g same_blocks_def)
  have m1: "mlog < nr_mlog s1" using hf(2) k by (simp add: same_geom_def)
  have old1: "old = NULL_ADDR \<or> old = NEW_ADDR \<or> in_main s1 old \<and> block_valid s1 old" using assms(5) by (simp add: g bv)
  define s2 where s2: "s2 = add_sum_entry s1 t mlog sm"
  define s3 where s3: "s3 = put_curseg i (refresh_next_blkoff s2 (curseg_array s2 ! i)) s2"
  define s4 where s4: "s4 = (if \<not> has_curseg_space s3 t mlog then allocate_segment_by_default get_victim s3 t mlog False else s3)"
  have "(refresh_sit_entry now s4 old (NEXT_FREE_BLKADDR s1 (curseg_array s1 ! i)), NEXT_FREE_BLKADDR s1 (curseg_array s1 ! i)) = (r, new)"
    using assms(6) unfolding allocate_data_block_def Let_def t [symmetric] s0 [symmetric] mlog [symmetric] i [symmetric]
      s1 [symmetric] s2 [symmetric] s3 [symmetric] s4 [symmetric] .
  then have rn: "new = NEXT_FREE_BLKADDR s1 (curseg_array s1 ! i)" "r = refresh_sit_entry now s4 old new" by auto
  note tb = take_block_keeps [OF conjunct1 [OF k] tl m1 i conjunct2 [OF conjunct2 [OF conjunct2 [OF k]]] old1 rn(1) s2 s3 s4 rn(2)]
  show "in_main s new" "free_at s (GET_SEGNO s new) (GET_BLKOFF_FROM_SEG0 s new)" "alloc_inv r"
    "need_fsck r = need_fsck s" "in_main s b \<Longrightarrow> block_valid r b = (b = new \<or> b \<noteq> old \<and> block_valid s b)"
    using tb sg(1) same_blocksD(1) [OF sg(2)] by (simp_all add: g bv same_geom_def)
qed

end

subsection \<open>The allocator over the default victim selection\<close>

definition default_v_ops :: victim_fn where
  "default_v_ops s type = the (get_victim_by_default s BG_GC type SSR)"

interpretation ssr: ssr_source default_v_ops
proof
  fix s type r res
  assume inv: "segs_inv s" and g: "default_v_ops s type = (r, res)"
  have w: "wf_layout s" "main_segments s < NULL_SEGNO" using inv by (simp_all add: segs_inv_def dirty_inv_def)
  from get_victim_by_default_spec [OF w, of BG_GC type SSR] g show "search_frame s r"
    by (auto simp: default_v_ops_def)
next
  fix s type r v
  assume inv: "segs_inv s" and g: "default_v_ops s type = (r, Some v)"
  have w: "wf_layout s" "main_segments s < NULL_SEGNO" "sit_inv s" using inv by (simp_all add: segs_inv_def dirty_inv_def)
  from get_victim_by_default_spec [OF w(1,2), of BG_GC type SSR] g
  have v: "v < main_segments s" "\<not> sec_usage_check s (GET_SECNO s v)" "ckpt_valid_blocks (get_seg_entry s v) < blocks_per_seg s"
    by (auto simp: default_v_ops_def)
  let ?se = "get_seg_entry s v"
  let ?P = "\<lambda>i. f2fs_test_bit i (cur_valid_map ?se) \<or> f2fs_test_bit i (ckpt_valid_map ?se)"
  have "ckpt_valid_blocks ?se = bit_count ?P (blocks_per_seg s)"
    using sit_invD(3) [OF w(3) v(1)] by (simp add: seg_inv_def)
  then have "\<not> (\<forall>i<blocks_per_seg s. ?P i)" using v(3) unfolding bit_count_full_iff [of ?P, symmetric] by simp
  then have "\<exists>j<blocks_per_seg s. free_at s v j" by (auto simp: free_at_def)
  with v show "v < main_segments s \<and> \<not> IS_CURSEC s (GET_SECNO s v) \<and> (\<exists>j<blocks_per_seg s. free_at s v j)"
    by (simp add: sec_usage_check_def)
qed

definition block_in_ckpt :: "sbi \<Rightarrow> nat \<Rightarrow> bool" where
  "block_in_ckpt s a = f2fs_test_bit (GET_BLKOFF_FROM_SEG0 s a) (ckpt_valid_map (get_seg_entry s (GET_SEGNO s a)))"

text \<open>
  C2: while a free section is left, allocating a block returns an address of the main area that
  holds neither a block in use nor a block of the last checkpoint, so a crash after the
  allocation finds the checkpoint intact. Exactly the new block becomes valid and the old one
  invalid, no fsck flag is raised, and the invariant of the allocator (segment table, dirty
  lists, free segment map, logs in distinct segments at free offsets) is kept. This covers both
  ways to refill a log, a fresh segment and the reuse of a dirty one, and the direct-I/O type.
\<close>
theorem allocate_data_block_correct:
  assumes "alloc_inv s" "has_free_section s" "0 < nr_mlog s" "type < NR_CURSEG_TYPE \<or> type = CURSEG_DIRECT_IO"
    and "old = NULL_ADDR \<or> old = NEW_ADDR \<or> in_main s old \<and> block_valid s old"
    and "allocate_data_block default_v_ops now s old sm type = (r, new)"
  shows "in_main s new \<and> \<not> block_valid s new \<and> \<not> block_in_ckpt s new \<and> alloc_inv r \<and> need_fsck r = need_fsck s
    \<and> (\<forall>b. in_main s b \<longrightarrow> block_valid r b = (b = new \<or> b \<noteq> old \<and> block_valid s b))"
  using ssr.allocate_data_block_spec [OF assms] by (simp add: block_valid_def block_in_ckpt_def free_at_def)

lemma fresh_volume_free:
  assumes "sit_i s = sit_i small_volume" "n < 16" "j < 16"
  shows "free_at s n j"
proof -
  have "j div 8 = 0 \<or> j div 8 = 1" using assms(3) by linarith
  then have "[0, 0] ! (j div 8) = (0 :: u8)" by auto
  then show ?thesis using assms(2) by (simp add: free_at_def assms(1) small_volume_def get_seg_entry_def f2fs_test_bit_def)
qed

lemma alloc_inv_small_volume: "alloc_inv small_volume"
proof -
  have "segmap_inv (total_sections small_volume) (segs_per_sec small_volume) (free_i small_volume)" by code_simp
  then have "free_map_ok small_volume" using wf_layout_small_volume by (simp add: free_map_ok_def)
  moreover note f = fresh_volume_free [OF refl]
  have sz: "main_segments small_volume = 16" "blocks_per_seg small_volume = 16" "nr_mlog small_volume = 1"
    "curseg_array small_volume = map small_curseg [0..<6]" by (simp_all add: small_volume_def)
  have "free_empty small_volume" using f by (simp add: free_empty_def sz list_all_length)
  moreover have "logs_inv {} small_volume"
  proof -
    have "test_bit (2 * i) (free_segmap (free_i small_volume))" if "i < 6" for i
    proof -
      have "list_all (\<lambda>i. test_bit (2 * i) (free_segmap (free_i small_volume))) [0..<6]" by code_simp
      then show ?thesis using that by (simp add: list_all_length)
    qed
    then show ?thesis
      using f by (auto simp: logs_inv_def sz small_curseg_def log_ok_def NR_CURSEG_TYPE_def distinct_conv_nth list_all_length)
  qed
  ultimately show ?thesis
    using segs_inv_small_volume classified_small_volume by (simp add: alloc_inv_but_def)
qed

theorem allocate_data_block_correct_witness:
  "\<exists>r new. allocate_data_block default_v_ops 5 small_volume NEW_ADDR
       \<lparr>sum_nid = 4, sum_version = 0, sum_ofs_in_node = 0\<rparr> CURSEG_WARM_DATA = (r, new)
     \<and> alloc_inv r \<and> block_valid r new \<and> \<not> block_valid small_volume new"
proof -
  let ?f = "allocate_data_block default_v_ops 5 small_volume NEW_ADDR \<lparr>sum_nid = 4, sum_version = 0, sum_ofs_in_node = 0\<rparr> CURSEG_WARM_DATA"
  obtain r new where e: "?f = (r, new)" by fastforce
  have "has_free_section small_volume" "0 < nr_mlog small_volume" by code_simp+
  moreover have "CURSEG_WARM_DATA < NR_CURSEG_TYPE \<or> CURSEG_WARM_DATA = CURSEG_DIRECT_IO" by code_simp
  ultimately show ?thesis
    using allocate_data_block_correct [OF alloc_inv_small_volume _ _ _ disjI2 [OF disjI1 [OF refl]] e] e by auto
qed

subsection \<open>Replacing a block of another group\<close>

lemma alloc_inv_two_group_volume: "alloc_inv two_group_volume"
proof -
  let ?s = two_group_volume
  have f: "free_at ?s n j" if "n < 16" "j < 16" for n j
    using that by (intro fresh_volume_free) (simp_all add: two_group_volume_def)
  have sz: "main_segments ?s = 16" "blocks_per_seg ?s = 16" "nr_mlog ?s = 2" "length (curseg_array ?s) = 12"
    by (simp_all add: two_group_volume_def small_volume_def)
  have "sit_i ?s = sit_i small_volume" "main_segments ?s = main_segments small_volume"
    "log_blocks_per_seg ?s = log_blocks_per_seg small_volume" "segs_per_sec ?s = segs_per_sec small_volume"
    "dirty_i ?s = dirty_i small_volume" by (simp_all add: two_group_volume_def)
  moreover have "get_seg_entry ?s = get_seg_entry small_volume" by (intro ext) (simp add: get_seg_entry_def two_group_volume_def)
  moreover have "wf_layout ?s" by (simp add: wf_layout_def two_group_volume_def small_volume_def)
  ultimately have "segs_inv ?s"
    using segs_inv_small_volume sit_inv_cong [of ?s small_volume] by (simp add: segs_inv_def dirty_inv_def)
  moreover have "segmap_inv (total_sections ?s) (segs_per_sec ?s) (free_i ?s)" by code_simp
  then have "free_map_ok ?s" using \<open>wf_layout ?s\<close> by (simp add: free_map_ok_def)
  moreover have "free_empty ?s" using f by (simp add: free_empty_def sz list_all_length)
  moreover have "segno (curseg_array ?s ! i) = i" "log_ok ?s (curseg_array ?s ! i)" "test_bit i (free_segmap (free_i ?s))"
    if "i < 12" for i
    using that f by (simp_all add: two_group_volume_def small_curseg_def log_ok_def small_volume_def list_all_length nth_append test_bit_def)
  then have "logs_inv {} ?s" by (auto simp: logs_inv_def sz NR_CURSEG_TYPE_def distinct_conv_nth)
  moreover have "list_all (classified_at ?s) [0..<16]" by code_simp
  then have "classified_but {} ?s" by (simp add: classified_but_def sz list_all_length)
  ultimately show ?thesis by (simp add: alloc_inv_but_def)
qed


end
