(* ===== verification/Natcache.thy ===== *)
theory Natcache
  imports Segstate
begin

section \<open>The node address table and its cache\<close>

text \<open>
  The node address table (NAT) maps a node id to the inode it belongs to, the block that holds it
  and a version. Its home is the NAT area, two copies of every block selected by a bitmap; recent
  changes are in a journal in the summary block of the first hot-data log; and the newest are in a
  cache, which Max splits into one tree per file cell (\<open>nid mod nat_tree_cnt\<close>), each with a list
  of clean entries and sets of dirty entries grouped by NAT block. Modelled: \<open>node.c\<close> up to
  \<open>get_node_info\<close>, the journal helpers of \<open>f2fs.h\<close> and \<open>segment.c\<close>, and the address arithmetic of
  \<open>node.h\<close>. A cache entry is a heap object shared by a tree and a list; the model keeps the object
  in the tree and its node id in the list.
\<close>

subsection \<open>Entries\<close>

definition NAT_ENTRY_PER_BLOCK :: nat where "NAT_ENTRY_PER_BLOCK = 4096 div 9"
definition NAT_JOURNAL_ENTRIES :: nat where "NAT_JOURNAL_ENTRIES = (4096 - 5 - 3584 - 2) div 13"

definition IS_CHECKPOINTED :: nat where "IS_CHECKPOINTED = 0"
definition HAS_FSYNCED_INODE :: nat where "HAS_FSYNCED_INODE = 1"
definition HAS_LAST_FSYNC :: nat where "HAS_LAST_FSYNC = 2"
definition IS_DIRTY :: nat where "IS_DIRTY = 3"

record f2fs_nat_entry =
  raw_version :: nat
  raw_ino :: nat
  raw_block_addr :: nat

record node_info =
  ni_nid :: nat
  ni_ino :: nat
  ni_blk_addr :: nat
  ni_version :: nat
  ni_flag :: u8

definition set_nat_flag :: "nat \<Rightarrow> bool \<Rightarrow> node_info \<Rightarrow> node_info" where
  "set_nat_flag type st e =
     (let msk = push_bit type 1
      in if st then e\<lparr>ni_flag := ni_flag e OR msk\<rparr> else e\<lparr>ni_flag := ni_flag e AND NOT msk\<rparr>)"

definition get_nat_flag :: "node_info \<Rightarrow> nat \<Rightarrow> bool" where
  "get_nat_flag e type = (ni_flag e AND push_bit type 1 \<noteq> 0)"

definition nat_reset_flag :: "node_info \<Rightarrow> node_info" where
  "nat_reset_flag e =
     set_nat_flag HAS_LAST_FSYNC True (set_nat_flag HAS_FSYNCED_INODE False (set_nat_flag IS_CHECKPOINTED True e))"

definition node_info_from_raw_nat :: "f2fs_nat_entry \<Rightarrow> node_info \<Rightarrow> node_info" where
  "node_info_from_raw_nat raw ni =
     ni\<lparr>ni_ino := raw_ino raw, ni_blk_addr := raw_block_addr raw, ni_version := raw_version raw\<rparr>"

definition raw_nat_from_node_info :: "node_info \<Rightarrow> f2fs_nat_entry" where
  "raw_nat_from_node_info ni =
     \<lparr>raw_version = ni_version ni, raw_ino = ni_ino ni, raw_block_addr = ni_blk_addr ni\<rparr>"

definition copy_node_info :: "node_info \<Rightarrow> node_info \<Rightarrow> node_info" where
  "copy_node_info dst src =
     dst\<lparr>ni_nid := ni_nid src, ni_ino := ni_ino src, ni_blk_addr := ni_blk_addr src, ni_version := ni_version src\<rparr>"

definition inc_node_version :: "nat \<Rightarrow> nat" where
  "inc_node_version v = (v + 1) mod 2 ^ 8"

subsection \<open>State\<close>

record nat_entry_set =
  entry_list :: "nat list"
  entry_cnt :: nat

record nat_tree =
  nat_root :: "nat \<Rightarrow> node_info option"
  nat_entries :: "nat list"
  nat_set_root :: "nat \<Rightarrow> nat_entry_set option"
  percore_nat_cnt :: nat
  percore_dirty_nat_cnt :: nat

record nat_journal =
  n_nats :: nat
  nat_j :: "(nat \<times> f2fs_nat_entry) list"

datatype nid_state = NID_NEW | NID_ALLOC

record nm_info =
  nat_blkaddr :: nat
  nm_log_blocks_per_seg :: nat
  max_nid :: nat
  available_nids :: nat
  next_scan_nid :: nat
  ram_thresh :: nat
  avail_ram :: nat
  nat_trees :: "nat_tree list"
  cursum :: nat_journal
  nat_bitmap :: bytemap
  nat_area :: "nat \<Rightarrow> f2fs_nat_entry list"
  free_nid_root :: "(nat \<Rightarrow> nid_state option) list"
  free_nid_list :: "nat list list"
  percore_fcnt :: "nat list"
  next_allocator :: int
  nid_chunk :: nat
  on_build :: bool
  valid_node_count :: int
  nm_need_fsck :: bool

abbreviation nat_tree_cnt :: "nm_info \<Rightarrow> nat" where
  "nat_tree_cnt nm \<equiv> length (nat_trees nm)"

definition nm_bug_on :: "bool \<Rightarrow> nm_info \<Rightarrow> nm_info" where
  "nm_bug_on c nm = nm\<lparr>nm_need_fsck := (c \<or> nm_need_fsck nm)\<rparr>"

definition TREE_IDX :: "nat \<Rightarrow> nm_info \<Rightarrow> nat" where
  "TREE_IDX nid nm = nid mod nat_tree_cnt nm"

definition NAT_BLOCK_OFFSET :: "nat \<Rightarrow> nat" where
  "NAT_BLOCK_OFFSET nid = nid div NAT_ENTRY_PER_BLOCK"

definition START_NID :: "nat \<Rightarrow> nat" where
  "START_NID nid = nid div NAT_ENTRY_PER_BLOCK * NAT_ENTRY_PER_BLOCK"

definition upd_tree :: "nat \<Rightarrow> (nat_tree \<Rightarrow> nat_tree) \<Rightarrow> nm_info \<Rightarrow> nm_info" where
  "upd_tree i f nm = nm\<lparr>nat_trees := (nat_trees nm)[i := f (nat_trees nm ! i)]\<rparr>"

definition upd_entry :: "nat \<Rightarrow> (node_info \<Rightarrow> node_info) \<Rightarrow> nm_info \<Rightarrow> nm_info" where
  "upd_entry nid f nm = upd_tree (TREE_IDX nid nm) (\<lambda>t. t\<lparr>nat_root := (nat_root t)(nid := map_option f (nat_root t nid))\<rparr>) nm"

subsection \<open>The NAT area\<close>

definition current_nat_addr :: "nm_info \<Rightarrow> nat \<Rightarrow> nat" where
  "current_nat_addr nm start =
     (let block_off = NAT_BLOCK_OFFSET start; k = nm_log_blocks_per_seg nm;
          seg_off = block_off div 2 ^ k;
          block_addr = nat_blkaddr nm + seg_off * 2 ^ k * 2 + block_off mod 2 ^ k
      in if f2fs_test_bit block_off (nat_bitmap nm) then block_addr + 2 ^ k else block_addr)"

definition next_nat_addr :: "nm_info \<Rightarrow> nat \<Rightarrow> nat" where
  "next_nat_addr nm block_addr =
     (let a = block_addr - nat_blkaddr nm; k = nm_log_blocks_per_seg nm;
          a = (if a div 2 ^ k mod 2 \<noteq> 0 then a - 2 ^ k else a + 2 ^ k)
      in a + nat_blkaddr nm)"

definition set_to_next_nat :: "nm_info \<Rightarrow> nat \<Rightarrow> nm_info" where
  "set_to_next_nat nm start_nid = nm\<lparr>nat_bitmap := f2fs_change_bit (NAT_BLOCK_OFFSET start_nid) (nat_bitmap nm)\<rparr>"

definition get_current_nat_page :: "nm_info \<Rightarrow> nat \<Rightarrow> f2fs_nat_entry list" where
  "get_current_nat_page nm nid = nat_area nm (current_nat_addr nm nid)"

text \<open>The copy the next checkpoint uses; returns its address.\<close>

definition get_next_nat_page :: "nm_info \<Rightarrow> nat \<Rightarrow> nm_info \<times> nat" where
  "get_next_nat_page nm nid =
     (let src_off = current_nat_addr nm nid; dst_off = next_nat_addr nm src_off;
          nm = nm\<lparr>nat_area := (nat_area nm)(dst_off := nat_area nm src_off)\<rparr>
      in (set_to_next_nat nm nid, dst_off))"

subsection \<open>The journal\<close>

definition MAX_NAT_JENTRIES :: "nat_journal \<Rightarrow> nat" where
  "MAX_NAT_JENTRIES sm = NAT_JOURNAL_ENTRIES - n_nats sm"

definition has_cursum_space :: "nat_journal \<Rightarrow> nat \<Rightarrow> bool" where
  "has_cursum_space sm sz = (sz \<le> MAX_NAT_JENTRIES sm)"

definition update_nats_in_cursum :: "nat_journal \<Rightarrow> int \<Rightarrow> nat_journal \<times> nat" where
  "update_nats_in_cursum sm i = (sm\<lparr>n_nats := nat ((int (n_nats sm) + i) mod 2 ^ 16)\<rparr>, n_nats sm)"

definition lookup_journal_in_cursum :: "nat_journal \<Rightarrow> nat \<Rightarrow> bool \<Rightarrow> nat_journal \<times> nat option" where
  "lookup_journal_in_cursum sm val alloc =
     (case find (\<lambda>i. fst (nat_j sm ! i) = val) [0..<n_nats sm] of
        Some i \<Rightarrow> (sm, Some i)
      | None \<Rightarrow> if alloc \<and> n_nats sm < NAT_JOURNAL_ENTRIES
                then let (sm, before) = update_nats_in_cursum sm 1 in (sm, Some before)
                else (sm, None))"

subsection \<open>The cache\<close>

definition lookup_nat_cache :: "nm_info \<Rightarrow> nat \<Rightarrow> node_info option" where
  "lookup_nat_cache nm n = nat_root (nat_trees nm ! TREE_IDX n nm) n"

definition del_from_nat_cache :: "nm_info \<Rightarrow> nat \<Rightarrow> nm_info" where
  "del_from_nat_cache nm nid =
     upd_tree (TREE_IDX nid nm) (\<lambda>t. t\<lparr>nat_entries := removeAll nid (nat_entries t),
       nat_root := (nat_root t)(nid := None), percore_nat_cnt := sub32 (percore_nat_cnt t) 1\<rparr>) nm"

definition set_nat_cache_dirty :: "nm_info \<Rightarrow> nat \<Rightarrow> nm_info" where
  "set_nat_cache_dirty nm nid =
     (case lookup_nat_cache nm nid of None \<Rightarrow> nm
      | Some e \<Rightarrow>
          if get_nat_flag e IS_DIRTY then nm
          else let st = NAT_BLOCK_OFFSET nid
               in upd_tree (TREE_IDX nid nm) (\<lambda>t.
                    let head = (case nat_set_root t st of None \<Rightarrow> \<lparr>entry_list = [], entry_cnt = 0\<rparr> | Some h \<Rightarrow> h)
                    in t\<lparr>nat_entries := removeAll nid (nat_entries t),
                         nat_set_root := (nat_set_root t)(st \<mapsto>
                           head\<lparr>entry_list := entry_list head @ [nid], entry_cnt := add32 (entry_cnt head) 1\<rparr>),
                         percore_dirty_nat_cnt := add32 (percore_dirty_nat_cnt t) 1,
                         nat_root := (nat_root t)(nid \<mapsto> set_nat_flag IS_DIRTY True e)\<rparr>) nm)"

definition clear_nat_cache_dirty :: "nm_info \<Rightarrow> nat \<Rightarrow> nm_info" where
  "clear_nat_cache_dirty nm nid =
     (let st = NAT_BLOCK_OFFSET nid
      in upd_tree (TREE_IDX nid nm) (\<lambda>t.
           case nat_set_root t st of None \<Rightarrow> t
           | Some head \<Rightarrow>
               t\<lparr>nat_set_root := (nat_set_root t)(st \<mapsto>
                   head\<lparr>entry_list := removeAll nid (entry_list head), entry_cnt := sub32 (entry_cnt head) 1\<rparr>),
                 nat_entries := removeAll nid (nat_entries t) @ [nid],
                 nat_root := (nat_root t)(nid := map_option (set_nat_flag IS_DIRTY False) (nat_root t nid)),
                 percore_dirty_nat_cnt := sub32 (percore_dirty_nat_cnt t) 1\<rparr>) nm)"

definition need_dentry_mark :: "nm_info \<Rightarrow> nat \<Rightarrow> bool" where
  "need_dentry_mark nm nid =
     (case lookup_nat_cache nm nid of None \<Rightarrow> False
      | Some e \<Rightarrow> \<not> get_nat_flag e IS_CHECKPOINTED \<and> \<not> get_nat_flag e HAS_FSYNCED_INODE)"

definition is_checkpointed_node :: "nm_info \<Rightarrow> nat \<Rightarrow> bool" where
  "is_checkpointed_node nm nid =
     (case lookup_nat_cache nm nid of None \<Rightarrow> True | Some e \<Rightarrow> get_nat_flag e IS_CHECKPOINTED)"

definition need_inode_block_update :: "nm_info \<Rightarrow> nat \<Rightarrow> bool" where
  "need_inode_block_update nm ino =
     (case lookup_nat_cache nm ino of None \<Rightarrow> True
      | Some e \<Rightarrow> \<not> (get_nat_flag e HAS_LAST_FSYNC \<and>
                     (get_nat_flag e IS_CHECKPOINTED \<or> get_nat_flag e HAS_FSYNCED_INODE)))"

definition grab_nat_entry :: "nm_info \<Rightarrow> nat \<Rightarrow> nm_info" where
  "grab_nat_entry nm nid =
     upd_tree (TREE_IDX nid nm) (\<lambda>t. t\<lparr>
       nat_root := (nat_root t)(nid \<mapsto>
         nat_reset_flag \<lparr>ni_nid = nid, ni_ino = 0, ni_blk_addr = 0, ni_version = 0, ni_flag = 0\<rparr>),
       nat_entries := nat_entries t @ [nid], percore_nat_cnt := add32 (percore_nat_cnt t) 1\<rparr>) nm"

definition cache_nat_entry :: "nm_info \<Rightarrow> nat \<Rightarrow> f2fs_nat_entry \<Rightarrow> nm_info" where
  "cache_nat_entry nm nid ne =
     (case lookup_nat_cache nm nid of
        Some e \<Rightarrow> nm
      | None \<Rightarrow> upd_entry nid (node_info_from_raw_nat ne) (grab_nat_entry nm nid))"

definition set_node_addr :: "nm_info \<Rightarrow> node_info \<Rightarrow> nat \<Rightarrow> bool \<Rightarrow> nm_info" where
  "set_node_addr nm ni new_blkaddr fsync_done =
     (let nid = ni_nid ni;
          nm = (case lookup_nat_cache nm nid of
                  None \<Rightarrow> nm_bug_on (ni_blk_addr ni = NEW_ADDR) (upd_entry nid (\<lambda>e. copy_node_info e ni) (grab_nat_entry nm nid))
                | Some e \<Rightarrow> if new_blkaddr = NEW_ADDR
                            then nm_bug_on (ni_blk_addr ni \<noteq> NULL_ADDR) (upd_entry nid (\<lambda>e. copy_node_info e ni) nm)
                            else nm);
          e = the (lookup_nat_cache nm nid); b = ni_blk_addr e;
          nm = nm_bug_on (b \<noteq> ni_blk_addr ni) nm;
          nm = nm_bug_on (b = NULL_ADDR \<and> new_blkaddr = NULL_ADDR) nm;
          nm = nm_bug_on (b = NEW_ADDR \<and> new_blkaddr = NEW_ADDR) nm;
          nm = nm_bug_on (b \<noteq> NEW_ADDR \<and> b \<noteq> NULL_ADDR \<and> new_blkaddr = NEW_ADDR) nm;
          nm = (if b \<noteq> NEW_ADDR \<and> new_blkaddr = NULL_ADDR
                then upd_entry nid (\<lambda>e. e\<lparr>ni_version := inc_node_version (ni_version e)\<rparr>) nm else nm);
          nm = upd_entry nid (\<lambda>e. e\<lparr>ni_blk_addr := new_blkaddr\<rparr>) nm;
          nm = (if new_blkaddr = NEW_ADDR \<or> new_blkaddr = NULL_ADDR
                then upd_entry nid (set_nat_flag IS_CHECKPOINTED False) nm else nm);
          nm = set_nat_cache_dirty nm nid
      in upd_entry (ni_ino ni) (\<lambda>e. set_nat_flag HAS_LAST_FSYNC fsync_done
           (if fsync_done \<and> nid = ni_ino ni then set_nat_flag HAS_FSYNCED_INODE True e else e)) nm)"

text \<open>The shrinker: drops clean entries, oldest first, a share from every tree.\<close>

fun shrink_tree :: "nat \<Rightarrow> nat list \<Rightarrow> nm_info \<Rightarrow> nm_info \<times> nat" where
  "shrink_tree n [] nm = (nm, 0)"
| "shrink_tree 0 (nid # l) nm = (nm, 0)"
| "shrink_tree (Suc n) (nid # l) nm = (let (nm, k) = shrink_tree n l (del_from_nat_cache nm nid) in (nm, Suc k))"

fun shrink_trees :: "nat list \<Rightarrow> nat \<Rightarrow> nm_info \<Rightarrow> nm_info \<times> nat" where
  "shrink_trees [] nr_shrink nm = (nm, nr_shrink)"
| "shrink_trees (i # is) nr_shrink nm =
     (let (nm, k) = shrink_tree (nr_shrink div length (i # is)) (nat_entries (nat_trees nm ! i)) nm
      in shrink_trees is (nr_shrink - k) nm)"

definition sum_up_nat_cnt :: "nm_info \<Rightarrow> nat" where
  "sum_up_nat_cnt nm = sum_list (map percore_nat_cnt (nat_trees nm)) mod 2 ^ 32"

definition nat_memory_available :: "nm_info \<Rightarrow> bool" where
  "nat_memory_available nm = (sum_up_nat_cnt nm * 32 div 4096 < avail_ram nm * ram_thresh nm div 100 div 4)"

definition try_to_free_nats :: "nm_info \<Rightarrow> nat \<Rightarrow> nm_info \<times> nat" where
  "try_to_free_nats nm nr_shrink =
     (if nat_memory_available nm then (nm, 0) else shrink_trees [0..<nat_tree_cnt nm] nr_shrink nm)"

definition nat_in_page :: "nm_info \<Rightarrow> nat \<Rightarrow> f2fs_nat_entry" where
  "nat_in_page nm nid = get_current_nat_page nm (START_NID nid) ! (nid - START_NID nid)"

definition get_node_info :: "nm_info \<Rightarrow> nat \<Rightarrow> nm_info \<times> node_info" where
  "get_node_info nm nid =
     (let ni = \<lparr>ni_nid = nid, ni_ino = 0, ni_blk_addr = 0, ni_version = 0, ni_flag = 0\<rparr>
      in case lookup_nat_cache nm nid of
           Some e \<Rightarrow> (nm, ni\<lparr>ni_ino := ni_ino e, ni_blk_addr := ni_blk_addr e, ni_version := ni_version e\<rparr>)
         | None \<Rightarrow>
             let ne = (case snd (lookup_journal_in_cursum (cursum nm) nid False) of
                         Some i \<Rightarrow> snd (nat_j (cursum nm) ! i)
                       | None \<Rightarrow> nat_in_page nm nid)
             in (cache_nat_entry nm nid ne, node_info_from_raw_nat ne ni))"

subsection \<open>Flushing the cache at a checkpoint\<close>

definition remove_nat_in_journal :: "nat \<Rightarrow> nm_info \<Rightarrow> nm_info" where
  "remove_nat_in_journal i nm =
     (let (nid, raw) = nat_j (cursum nm) ! i;
          nm = (case lookup_nat_cache nm nid of
                  Some e \<Rightarrow> nm
                | None \<Rightarrow> upd_entry nid (node_info_from_raw_nat raw) (grab_nat_entry nm nid))
      in set_nat_cache_dirty nm nid)"

definition remove_nats_in_journal :: "nm_info \<Rightarrow> nm_info" where
  "remove_nats_in_journal nm =
     (let n = n_nats (cursum nm); nm = fold remove_nat_in_journal [0..<n] nm
      in nm\<lparr>cursum := fst (update_nats_in_cursum (cursum nm) (- int n))\<rparr>)"

end
