(* ===== verification/Nids.thy ===== *)
theory Nids
  imports Natcache
begin

section \<open>Free node ids and the flush of the node address table\<close>

text \<open>
  The free node ids of Max are kept in one list per core, a node id belonging to the list
  \<open>nid div nid_chunk\<close>; \<open>alloc_nid\<close> takes the lists in turn. Modelled: \<open>node.c\<close> from
  \<open>__lookup_free_nid_list\<close> to \<open>alloc_nid_failed\<close>, and the flush of the NAT cache at a checkpoint,
  which merges the dirty sets of all trees that belong to one NAT block before it writes the block.
  A \<open>free_nid\<close> object is in a tree and in a list; the model keeps its state in the tree and its
  node id in the list. Memory for the small objects is taken to be available, as
  \<open>f2fs_kmem_cache_alloc\<close> retries until it is.
\<close>

subsection \<open>Free node ids\<close>

definition LIST_IDX :: "nat \<Rightarrow> nm_info \<Rightarrow> nat" where
  "LIST_IDX nid nm = nid div nid_chunk nm"

definition sum_up_fcnt :: "nm_info \<Rightarrow> nat" where
  "sum_up_fcnt nm = sum_list (percore_fcnt nm) mod 2 ^ 32"

definition nid_memory_available :: "nm_info \<Rightarrow> bool" where
  "nid_memory_available nm = (sum_up_fcnt nm * 24 div 4096 < avail_ram nm * ram_thresh nm div 100 div 4)"

definition lookup_free_nid_list :: "nm_info \<Rightarrow> nat \<Rightarrow> nid_state option" where
  "lookup_free_nid_list nm n = (free_nid_root nm ! LIST_IDX n nm) n"

definition put_free_nid :: "nat \<Rightarrow> nid_state option \<Rightarrow> nm_info \<Rightarrow> nm_info" where
  "put_free_nid nid st nm =
     (let l = LIST_IDX nid nm
      in nm\<lparr>free_nid_root := (free_nid_root nm)[l := (free_nid_root nm ! l)(nid := st)]\<rparr>)"

definition del_from_free_nid_list :: "nm_info \<Rightarrow> nat \<Rightarrow> nm_info" where
  "del_from_free_nid_list nm nid =
     (let l = LIST_IDX nid nm
      in put_free_nid nid None (nm\<lparr>free_nid_list := (free_nid_list nm)[l := removeAll nid (free_nid_list nm ! l)]\<rparr>))"

definition put_fcnt :: "nat \<Rightarrow> nat \<Rightarrow> nm_info \<Rightarrow> nm_info" where
  "put_fcnt l c nm = nm\<lparr>percore_fcnt := (percore_fcnt nm)[l := c]\<rparr>"

definition add_free_nid :: "nm_info \<Rightarrow> nat \<Rightarrow> bool \<Rightarrow> nm_info \<times> int" where
  "add_free_nid nm nid build =
     (if \<not> nid_memory_available nm then (nm, - 1)
      else if nid = 0 then (nm, 0)
      else if build \<and> (case lookup_nat_cache nm nid of None \<Rightarrow> False
                       | Some ne \<Rightarrow> \<not> get_nat_flag ne IS_CHECKPOINTED \<or> ni_blk_addr ne \<noteq> NULL_ADDR) then (nm, 0)
      else if lookup_free_nid_list nm nid \<noteq> None then (nm, 0)
      else let l = LIST_IDX nid nm;
               nm = put_free_nid nid (Some NID_NEW) nm;
               nm = nm\<lparr>free_nid_list := (free_nid_list nm)[l := free_nid_list nm ! l @ [nid]]\<rparr>
           in (put_fcnt l (add32 (percore_fcnt nm ! l) 1) nm, 1))"

definition remove_free_nid :: "nm_info \<Rightarrow> nat \<Rightarrow> nm_info" where
  "remove_free_nid nm nid =
     (let l = LIST_IDX nid nm
      in if lookup_free_nid_list nm nid = Some NID_NEW
         then put_fcnt l (sub32 (percore_fcnt nm ! l) 1) (del_from_free_nid_list nm nid) else nm)"

fun scan_nat_entries :: "f2fs_nat_entry list \<Rightarrow> nat \<Rightarrow> nm_info \<Rightarrow> nm_info" where
  "scan_nat_entries [] start_nid nm = nm"
| "scan_nat_entries (ne # nes) start_nid nm =
     (if start_nid \<ge> max_nid nm then nm
      else let nm = nm_bug_on (raw_block_addr ne = NEW_ADDR) nm
           in if raw_block_addr ne = NULL_ADDR
              then let (nm, r) = add_free_nid nm start_nid True
                   in if r < 0 then nm else scan_nat_entries nes (Suc start_nid) nm
              else scan_nat_entries nes (Suc start_nid) nm)"

definition scan_nat_page :: "nm_info \<Rightarrow> f2fs_nat_entry list \<Rightarrow> nat \<Rightarrow> nm_info" where
  "scan_nat_page nm nat_blk start_nid =
     scan_nat_entries (drop (start_nid mod NAT_ENTRY_PER_BLOCK) (take NAT_ENTRY_PER_BLOCK nat_blk)) start_nid nm"

text \<open>The scan of the journal that both builders end with.\<close>

definition build_free_nids :: "nm_info \<Rightarrow> nm_info" where
  "build_free_nids nm =
     fold (\<lambda>i nm. let (nid, ne) = nat_j (cursum nm) ! i
                  in if raw_block_addr ne = NULL_ADDR then fst (add_free_nid nm nid True) else remove_free_nid nm nid)
       [0..<n_nats (cursum nm)] nm"

text \<open>The scan of the NAT area at mount: \<open>n\<close> more blocks from \<open>nid\<close>, wrapping to the first usable one.\<close>

fun scan_nat_area :: "nat \<Rightarrow> nat \<Rightarrow> nm_info \<Rightarrow> nm_info" where
  "scan_nat_area 0 nid nm = nm"
| "scan_nat_area (Suc n) nid nm =
     (let nm = scan_nat_page nm (get_current_nat_page nm nid) nid;
          nid = nid + (NAT_ENTRY_PER_BLOCK - nid mod NAT_ENTRY_PER_BLOCK);
          nid = (if nid \<ge> max_nid nm then NAT_ENTRY_PER_BLOCK else nid)
      in scan_nat_area n nid nm)"

definition build_all_free_nids :: "nm_info \<Rightarrow> nm_info" where
  "build_all_free_nids nm =
     (let start = NAT_BLOCK_OFFSET (next_scan_nid nm); end = NAT_BLOCK_OFFSET (max_nid nm);
          blkno = max start end
      in build_free_nids (scan_nat_area (Suc (blkno - start)) (next_scan_nid nm) nm))"

text \<open>Signed 32-bit wrap-around and the remainder of C, which takes the sign of the dividend.\<close>

definition s32 :: "int \<Rightarrow> int" where
  "s32 x = (x + 2 ^ 31) mod 2 ^ 32 - 2 ^ 31"

definition c_rem :: "int \<Rightarrow> int \<Rightarrow> int" where
  "c_rem a b = (if a \<ge> 0 then a mod b else - ((- a) mod b))"

text \<open>
  The result of \<open>alloc_nid\<close>: a node id, none left, an index outside the array of lists, or the
  head of a list taken for an entry.
\<close>

datatype nid_result = Nid nat | No_nid | Wild_index int | Wild_entry nat

partial_function (option) alloc_nid :: "nm_info \<Rightarrow> (nm_info \<times> nid_result) option" where
  "alloc_nid nm =
     (if valid_node_count nm > int (sub32 (available_nids nm) 1) then Some (nm, No_nid)
      else let nm = nm\<lparr>next_allocator := s32 (next_allocator nm + 1)\<rparr>;
               list_id = c_rem (next_allocator nm) (int (length (percore_fcnt nm)))
           in if list_id < 0 then Some (nm, Wild_index list_id)
              else let l = nat list_id
                   in if percore_fcnt nm ! l \<noteq> 0 \<and> \<not> on_build nm
                      then let nm = nm_bug_on (free_nid_list nm ! l = []) nm
                           in case find (\<lambda>n. lookup_free_nid_list nm n = Some NID_NEW) (free_nid_list nm ! l) of
                                None \<Rightarrow> Some (nm_bug_on True nm, Wild_entry l)
                              | Some n \<Rightarrow> Some (put_fcnt l (sub32 (percore_fcnt nm ! l) 1) (put_free_nid n (Some NID_ALLOC) nm), Nid n)
                      else let nm = nm\<lparr>on_build := False\<rparr>
                           in alloc_nid (if percore_fcnt nm ! l = 0 then build_free_nids nm else nm))"

definition alloc_nid_done :: "nm_info \<Rightarrow> nat \<Rightarrow> nm_info" where
  "alloc_nid_done nm nid =
     (let nm = nm_bug_on (lookup_free_nid_list nm nid \<noteq> Some NID_ALLOC) nm
      in del_from_free_nid_list nm nid)"

definition alloc_nid_failed :: "nm_info \<Rightarrow> nat \<Rightarrow> nm_info" where
  "alloc_nid_failed nm nid =
     (if nid = 0 then nm
      else let l = LIST_IDX nid nm;
               nm = nm_bug_on (lookup_free_nid_list nm nid \<noteq> Some NID_ALLOC) nm
           in if \<not> nid_memory_available nm then del_from_free_nid_list nm nid
              else put_fcnt l (add32 (percore_fcnt nm ! l) 1) (put_free_nid nid (Some NID_NEW) nm))"

text \<open>
  Mounting. The caller gives the counts read from the super block and the checkpoint, the number of
  online CPUs, the mount option for the number of file cells and the version bitmap; the NAT area,
  the journal, the RAM size and the node counter are those of \<open>nm\<close>.
\<close>

definition DEF_RAM_THRESHOLD :: nat where "DEF_RAM_THRESHOLD = 10"

definition empty_nat_tree :: nat_tree where
  "empty_nat_tree = \<lparr>nat_root = (\<lambda>_. None), nat_entries = [], nat_set_root = (\<lambda>_. None), percore_nat_cnt = 0, percore_dirty_nat_cnt = 0\<rparr>"

definition init_node_manager :: "nat \<Rightarrow> nat \<Rightarrow> nat \<Rightarrow> nat \<Rightarrow> nat \<Rightarrow> nat \<Rightarrow> bytemap \<Rightarrow> nm_info \<Rightarrow> nm_info" where
  "init_node_manager sb_nat_blkaddr segment_count_nat log_blocks num_online_cpus nr_file_cell next_free_nid version_bitmap nm =
     (let nat_segs = segment_count_nat div 2; nat_blocks = nat_segs * 2 ^ log_blocks mod 2 ^ 32;
          max = NAT_ENTRY_PER_BLOCK * nat_blocks mod 2 ^ 32
      in nm\<lparr>nat_blkaddr := sb_nat_blkaddr, nm_log_blocks_per_seg := log_blocks, max_nid := max,
            available_nids := sub32 (sub32 max (4096 div 9)) 1, ram_thresh := DEF_RAM_THRESHOLD,
            nid_chunk := add32 (add32 max 1 div num_online_cpus) 1,
            free_nid_root := replicate num_online_cpus (\<lambda>_. None), free_nid_list := replicate num_online_cpus [],
            percore_fcnt := replicate num_online_cpus 0,
            nat_trees := replicate (if nr_file_cell > 0 then nr_file_cell else num_online_cpus) empty_nat_tree,
            on_build := False, next_scan_nid := next_free_nid,
            next_allocator := int (sub32 next_free_nid 1 mod num_online_cpus), nat_bitmap := version_bitmap\<rparr>)"

definition build_node_manager :: "nat \<Rightarrow> nat \<Rightarrow> nat \<Rightarrow> nat \<Rightarrow> nat \<Rightarrow> nat \<Rightarrow> bytemap \<Rightarrow> nm_info \<Rightarrow> nm_info" where
  "build_node_manager sb_nat_blkaddr segment_count_nat log_blocks num_online_cpus nr_file_cell next_free_nid version_bitmap nm =
     build_all_free_nids
       (init_node_manager sb_nat_blkaddr segment_count_nat log_blocks num_online_cpus nr_file_cell next_free_nid version_bitmap nm)"

subsection \<open>Flushing the NAT cache at a checkpoint\<close>

record per_core_sets_pack =
  set_trees :: "nat list"
  set_id :: nat
  pack_entry_cnt :: nat

fun insert_pack :: "per_core_sets_pack \<Rightarrow> per_core_sets_pack list \<Rightarrow> per_core_sets_pack list" where
  "insert_pack p [] = [p]"
| "insert_pack p (q # qs) = (if pack_entry_cnt q \<ge> pack_entry_cnt p then p # q # qs else q # insert_pack p qs)"

definition adjust_nat_entry_set_per_core ::
  "nat \<Rightarrow> nat \<Rightarrow> nat_entry_set \<Rightarrow> nat \<Rightarrow> per_core_sets_pack list \<Rightarrow> per_core_sets_pack list" where
  "adjust_nat_entry_set_per_core tree st nes mx packs =
     (case dropWhile (\<lambda>p. set_id p \<noteq> st) packs of
        cur # rest \<Rightarrow>
          let before = takeWhile (\<lambda>p. set_id p \<noteq> st) packs;
              cur = cur\<lparr>set_trees := set_trees cur @ [tree], pack_entry_cnt := add32 (pack_entry_cnt cur) (entry_cnt nes)\<rparr>
          in if pack_entry_cnt cur \<ge> mx then before @ rest @ [cur] else before @ cur # rest
      | [] \<Rightarrow>
          let p = \<lparr>set_trees = [tree], set_id = st, pack_entry_cnt = entry_cnt nes\<rparr>
          in if pack_entry_cnt p \<ge> mx \<or> packs = [] then packs @ [p] else insert_pack p packs)"

definition gang_lookup_nat_set :: "nm_info \<Rightarrow> nat \<Rightarrow> (nat \<times> nat_entry_set) list" where
  "gang_lookup_nat_set nm i =
     List.map_filter (\<lambda>st. map_option (Pair st) (nat_set_root (nat_trees nm ! i) st)) [0..<Suc (NAT_BLOCK_OFFSET (max_nid nm))]"

definition collect_packs :: "nm_info \<Rightarrow> per_core_sets_pack list" where
  "collect_packs nm =
     fold (\<lambda>i. fold (\<lambda>(st, nes). adjust_nat_entry_set_per_core i st nes (MAX_NAT_JENTRIES (cursum nm))) (gang_lookup_nat_set nm i))
       [0..<nat_tree_cnt nm] []"

text \<open>One entry, to the journal or to the NAT block at \<open>addr\<close>.\<close>

definition write_journal :: "nat \<Rightarrow> f2fs_nat_entry \<Rightarrow> nm_info \<Rightarrow> nm_info" where
  "write_journal nid raw nm =
     (case lookup_journal_in_cursum (cursum nm) nid True of
        (sm, None) \<Rightarrow> nm_bug_on True (nm\<lparr>cursum := sm\<rparr>)
      | (sm, Some i) \<Rightarrow> nm\<lparr>cursum := sm\<lparr>nat_j := (nat_j sm)[i := (nid, raw)]\<rparr>\<rparr>)"

definition write_nat_block :: "nat \<Rightarrow> nat \<Rightarrow> f2fs_nat_entry \<Rightarrow> nm_info \<Rightarrow> nm_info" where
  "write_nat_block addr i raw nm = nm\<lparr>nat_area := (nat_area nm)(addr := (nat_area nm addr)[i := raw])\<rparr>"

definition flush_nat_entry :: "nat option \<Rightarrow> nat \<Rightarrow> nat \<Rightarrow> nm_info \<Rightarrow> nm_info" where
  "flush_nat_entry page start_nid nid nm =
     (case lookup_nat_cache nm nid of None \<Rightarrow> nm
      | Some ne \<Rightarrow>
          if ni_blk_addr ne = NEW_ADDR then nm
          else let raw = raw_nat_from_node_info ne;
                   nm = (case page of None \<Rightarrow> write_journal nid raw nm
                         | Some addr \<Rightarrow> write_nat_block addr (nid - start_nid) raw nm);
                   nm = upd_entry nid nat_reset_flag nm;
                   nm = clear_nat_cache_dirty nm nid
               in if ni_blk_addr ne = NULL_ADDR then fst (add_free_nid nm nid False) else nm)"

definition flush_nat_entry_set_per_core :: "per_core_sets_pack \<Rightarrow> nm_info \<Rightarrow> nm_info" where
  "flush_nat_entry_set_per_core p nm =
     (let start_nid = set_id p * NAT_ENTRY_PER_BLOCK;
          (nm, page) = (if has_cursum_space (cursum nm) (pack_entry_cnt p) then (nm, None)
                        else let (nm, addr) = get_next_nat_page nm start_nid in (nm, Some addr));
          nm = fold (\<lambda>i nm. case nat_set_root (nat_trees nm ! i) (set_id p) of None \<Rightarrow> nm
                            | Some nes \<Rightarrow> fold (flush_nat_entry page start_nid) (entry_list nes) nm) (set_trees p) nm
      in fold (\<lambda>i. upd_tree i (\<lambda>t. t\<lparr>nat_set_root := (nat_set_root t)(set_id p := None)\<rparr>)) [0..<nat_tree_cnt nm] nm)"

definition flush_nat_entries_per_core :: "nm_info \<Rightarrow> nm_info" where
  "flush_nat_entries_per_core nm =
     (let dirty_nat_cnt = sum_list (map percore_dirty_nat_cnt (nat_trees nm)) mod 2 ^ 32
      in if dirty_nat_cnt = 0 then nm
         else let nm = (if \<not> has_cursum_space (cursum nm) dirty_nat_cnt then remove_nats_in_journal nm else nm);
                  nm = fold flush_nat_entry_set_per_core (collect_packs nm) nm
              in nm_bug_on (\<exists>t \<in> set (nat_trees nm). percore_dirty_nat_cnt t \<noteq> 0) nm)"

end
