(* ===== verification/Nat_Correct.thy ===== *)
theory Nat_Correct
  imports Nids
begin

section \<open>Coherence of the node address table cache\<close>

text \<open>
  The NAT the file system sees is one map from node ids to entries: the cached entry, else the
  journal's, else that of the current copy of the NAT block. Reading fills the cache without
  changing that map, the shrinker drops entries without changing it, and \<open>set_node_addr\<close> changes
  it at one node id. The invariant relates the trees, the lists, the dirty sets and the counters,
  and says that clean entries agree with what is on the medium.
\<close>

subsection \<open>Flags\<close>

lemma get_nat_flag_bit: "get_nat_flag e t = bit (ni_flag e) t"
  by (simp add: get_nat_flag_def push_bit_eq_mult and_exp_eq_0_iff_not_bit)

lemma set_nat_flag_simps [simp]:
  "ni_nid (set_nat_flag t b e) = ni_nid e" "ni_ino (set_nat_flag t b e) = ni_ino e"
  "ni_blk_addr (set_nat_flag t b e) = ni_blk_addr e" "ni_version (set_nat_flag t b e) = ni_version e"
  "raw_nat_from_node_info (set_nat_flag t b e) = raw_nat_from_node_info e"
  by (simp_all add: set_nat_flag_def raw_nat_from_node_info_def Let_def)

lemma get_set_nat_flag:
  assumes "t < 8" "u < 8"
  shows "get_nat_flag (set_nat_flag t b e) u = (if u = t then b else get_nat_flag e u)"
  using assms
  by (auto simp: get_nat_flag_bit set_nat_flag_def Let_def push_bit_eq_mult bit_or_iff bit_and_iff bit_not_iff bit_exp_iff)

lemma nat_flag_types [simp]:
  "IS_CHECKPOINTED < 8" "HAS_FSYNCED_INODE < 8" "HAS_LAST_FSYNC < 8" "IS_DIRTY < 8"
  "IS_DIRTY \<noteq> IS_CHECKPOINTED" "IS_DIRTY \<noteq> HAS_FSYNCED_INODE" "IS_DIRTY \<noteq> HAS_LAST_FSYNC"
  "IS_CHECKPOINTED \<noteq> HAS_FSYNCED_INODE" "IS_CHECKPOINTED \<noteq> HAS_LAST_FSYNC" "HAS_LAST_FSYNC \<noteq> HAS_FSYNCED_INODE"
  by (simp_all add: IS_CHECKPOINTED_def HAS_FSYNCED_INODE_def HAS_LAST_FSYNC_def IS_DIRTY_def)

lemma nat_reset_flag_simps [simp]:
  "ni_nid (nat_reset_flag e) = ni_nid e" "raw_nat_from_node_info (nat_reset_flag e) = raw_nat_from_node_info e"
  "get_nat_flag (nat_reset_flag e) IS_DIRTY = get_nat_flag e IS_DIRTY"
  "get_nat_flag (nat_reset_flag e) IS_CHECKPOINTED" "ni_blk_addr (nat_reset_flag e) = ni_blk_addr e"
  by (simp_all add: nat_reset_flag_def get_set_nat_flag IS_CHECKPOINTED_def HAS_FSYNCED_INODE_def HAS_LAST_FSYNC_def IS_DIRTY_def)

subsection \<open>The trees\<close>

abbreviation dirty_nat :: "node_info \<Rightarrow> bool" where
  "dirty_nat e \<equiv> get_nat_flag e IS_DIRTY"

definition tree_dirty :: "nat_tree \<Rightarrow> nat set" where
  "tree_dirty t = {n. \<exists>e. nat_root t n = Some e \<and> dirty_nat e}"

definition tree_clean :: "nat_tree \<Rightarrow> nat set" where
  "tree_clean t = {n. \<exists>e. nat_root t n = Some e \<and> \<not> dirty_nat e}"

definition set_ok :: "nat set \<Rightarrow> nat \<Rightarrow> nat_entry_set option \<Rightarrow> bool" where
  "set_ok D st ho \<longleftrightarrow>
     (case ho of None \<Rightarrow> {n \<in> D. NAT_BLOCK_OFFSET n = st} = {}
      | Some h \<Rightarrow> distinct (entry_list h) \<and> set (entry_list h) = {n \<in> D. NAT_BLOCK_OFFSET n = st} \<and>
                  entry_cnt h = length (entry_list h))"

text \<open>Tree \<open>i\<close> of \<open>c\<close>, for node ids below \<open>mx\<close>.\<close>

definition tree_ok :: "nat \<Rightarrow> nat \<Rightarrow> nat \<Rightarrow> nat_tree \<Rightarrow> bool" where
  "tree_ok mx c i t \<longleftrightarrow>
     (\<forall>n e. nat_root t n = Some e \<longrightarrow> ni_nid e = n \<and> n mod c = i \<and> n < mx) \<and>
     distinct (nat_entries t) \<and> set (nat_entries t) = tree_clean t \<and>
     (\<forall>st. set_ok (tree_dirty t) st (nat_set_root t st)) \<and>
     percore_nat_cnt t = card (dom (nat_root t)) \<and> percore_dirty_nat_cnt t = card (tree_dirty t)"

lemma tree_okD:
  assumes "tree_ok mx c i t"
  shows "nat_root t n = Some e \<Longrightarrow> ni_nid e = n" "nat_root t n = Some e \<Longrightarrow> n mod c = i" "nat_root t n = Some e \<Longrightarrow> n < mx"
    "distinct (nat_entries t)" "set (nat_entries t) = tree_clean t" "set_ok (tree_dirty t) st (nat_set_root t st)"
    "percore_nat_cnt t = card (dom (nat_root t))" "percore_dirty_nat_cnt t = card (tree_dirty t)"
    "finite (dom (nat_root t))" "finite (tree_dirty t)" "tree_dirty t \<subseteq> dom (nat_root t)" "card (dom (nat_root t)) \<le> mx"
proof -
  show "nat_root t n = Some e \<Longrightarrow> ni_nid e = n" "nat_root t n = Some e \<Longrightarrow> n mod c = i" "nat_root t n = Some e \<Longrightarrow> n < mx"
    "distinct (nat_entries t)" "set (nat_entries t) = tree_clean t" "set_ok (tree_dirty t) st (nat_set_root t st)"
    "percore_nat_cnt t = card (dom (nat_root t))" "percore_dirty_nat_cnt t = card (tree_dirty t)"
    using assms by (simp_all add: tree_ok_def)
  have sub: "dom (nat_root t) \<subseteq> {..<mx}" using assms by (auto simp: tree_ok_def)
  then show f: "finite (dom (nat_root t))" using finite_subset by blast
  show sd: "tree_dirty t \<subseteq> dom (nat_root t)" by (auto simp: tree_dirty_def)
  show "finite (tree_dirty t)" using finite_subset [OF sd f] .
  show "card (dom (nat_root t)) \<le> mx" using card_mono [OF _ sub] by simp
qed

text \<open>Changing an entry but for its node id and its dirty flag.\<close>

lemma tree_ok_entry:
  assumes "tree_ok mx c i t" "\<And>e. nat_root t nid = Some e \<Longrightarrow> ni_nid (f e) = ni_nid e \<and> dirty_nat (f e) = dirty_nat e"
  shows "tree_ok mx c i (t\<lparr>nat_root := (nat_root t)(nid := map_option f (nat_root t nid))\<rparr>)" (is "tree_ok mx c i ?t")
proof -
  have "tree_dirty ?t = tree_dirty t" "tree_clean ?t = tree_clean t" "dom (nat_root ?t) = dom (nat_root t)"
    using assms(2) by (auto simp: tree_dirty_def tree_clean_def split: if_splits)
  then show ?thesis using assms by (auto simp: tree_ok_def split: if_splits)
qed

lemma tree_ok_grab:
  assumes "tree_ok mx c i t" "nat_root t nid = None" "ni_nid e = nid" "\<not> dirty_nat e" "nid mod c = i" "nid < mx" "mx < 2 ^ 32"
  shows "tree_ok mx c i (t\<lparr>nat_root := (nat_root t)(nid \<mapsto> e), nat_entries := nat_entries t @ [nid],
    percore_nat_cnt := add32 (percore_nat_cnt t) 1\<rparr>)" (is "tree_ok mx c i ?t")
proof -
  note d = tree_okD [OF assms(1)]
  have sets: "tree_dirty ?t = tree_dirty t" "tree_clean ?t = insert nid (tree_clean t)" "dom (nat_root ?t) = insert nid (dom (nat_root t))"
    using assms(2,4) by (auto simp: tree_dirty_def tree_clean_def)
  have nin: "nid \<notin> dom (nat_root t)" "nid \<notin> tree_clean t" using assms(2) by (auto simp: tree_clean_def)
  have "insert nid (dom (nat_root t)) \<subseteq> {..<mx}" using d(3) assms(6) by auto
  from card_mono [OF _ this] have "Suc (card (dom (nat_root t))) \<le> mx" using d(9) nin(1) by simp
  then have "add32 (percore_nat_cnt t) 1 = card (dom (nat_root ?t))"
    using d(7,9) nin(1) assms(7) unfolding sets(3) by simp
  moreover have "distinct (nat_entries t @ [nid])" "set (nat_entries t @ [nid]) = insert nid (tree_clean t)"
    using d(4,5) nin by auto
  ultimately show ?thesis
    using assms(1,3,5,6) unfolding tree_ok_def sets(1,2) by (auto simp: tree_ok_def)
qed

lemma tree_ok_del:
  assumes "tree_ok mx c i t" "nid \<in> tree_clean t" "mx < 2 ^ 32"
  shows "tree_ok mx c i (t\<lparr>nat_entries := removeAll nid (nat_entries t), nat_root := (nat_root t)(nid := None),
    percore_nat_cnt := sub32 (percore_nat_cnt t) 1\<rparr>)" (is "tree_ok mx c i ?t")
proof -
  note d = tree_okD [OF assms(1)]
  have sets: "tree_dirty ?t = tree_dirty t" "tree_clean ?t = tree_clean t - {nid}" "dom (nat_root ?t) = dom (nat_root t) - {nid}"
    using assms(2) by (auto simp: tree_dirty_def tree_clean_def)
  have n: "nid \<in> dom (nat_root t)" using assms(2) by (auto simp: tree_clean_def)
  have "0 < card (dom (nat_root t))" using n d(9) by (auto simp: card_gt_0_iff)
  then have "sub32 (percore_nat_cnt t) 1 = card (dom (nat_root ?t))"
    using d(7,9,12) n assms(3) unfolding sets(3) by simp
  then show ?thesis
    using assms(1) d(4,5) distinct_removeAll [of "nat_entries t" nid] unfolding tree_ok_def sets(1,2)
    by (auto simp: tree_ok_def split: if_splits)
qed

lemma tree_ok_set_dirty:
  assumes "tree_ok mx c i t" "nat_root t nid = Some e" "\<not> dirty_nat e" "ni_nid e' = ni_nid e" "dirty_nat e'" "mx < 2 ^ 32"
    and "st = NAT_BLOCK_OFFSET nid"
    and "head = (case nat_set_root t st of None \<Rightarrow> \<lparr>entry_list = [], entry_cnt = 0\<rparr> | Some h \<Rightarrow> h)"
  shows "tree_ok mx c i (t\<lparr>nat_entries := removeAll nid (nat_entries t),
     nat_set_root := (nat_set_root t)(st \<mapsto> head\<lparr>entry_list := entry_list head @ [nid], entry_cnt := add32 (entry_cnt head) 1\<rparr>),
     percore_dirty_nat_cnt := add32 (percore_dirty_nat_cnt t) 1, nat_root := (nat_root t)(nid \<mapsto> e')\<rparr>)" (is "tree_ok mx c i ?t")
proof -
  note d = tree_okD [OF assms(1)]
  have sets: "tree_dirty ?t = insert nid (tree_dirty t)" "tree_clean ?t = tree_clean t - {nid}" "dom (nat_root ?t) = dom (nat_root t)"
    using assms(2,3,5) by (auto simp: tree_dirty_def tree_clean_def)
  have nin: "nid \<notin> tree_dirty t" using assms(2,3) by (auto simp: tree_dirty_def)
  have "insert nid (tree_dirty t) \<subseteq> dom (nat_root t)" using assms(2) d(11) by auto
  from card_mono [OF d(9) this] have le: "Suc (card (tree_dirty t)) \<le> mx" using d(10,12) nin by simp
  then have cnt: "add32 (percore_dirty_nat_cnt t) 1 = card (tree_dirty ?t)"
    using d(8,10) nin assms(6) unfolding sets(1) by simp
  have h: "distinct (entry_list head)" "set (entry_list head) = {n \<in> tree_dirty t. NAT_BLOCK_OFFSET n = st}"
    "entry_cnt head = length (entry_list head)"
    using d(6) [of st] assms(8) by (auto simp: set_ok_def split: option.splits)
  have "card (set (entry_list head)) \<le> card (tree_dirty t)" using d(10) h(2) by (intro card_mono) auto
  then have "add32 (entry_cnt head) 1 = Suc (length (entry_list head))"
    using le assms(6) h(3) distinct_card [OF h(1)] by simp
  then have ok: "set_ok (insert nid (tree_dirty t)) st
      (Some (head\<lparr>entry_list := entry_list head @ [nid], entry_cnt := add32 (entry_cnt head) 1\<rparr>))"
    using h nin assms(7) by (auto simp: set_ok_def)
  have other: "set_ok (insert nid (tree_dirty t)) u (nat_set_root t u)" if "u \<noteq> st" for u
  proof -
    have "{n \<in> insert nid (tree_dirty t). NAT_BLOCK_OFFSET n = u} = {n \<in> tree_dirty t. NAT_BLOCK_OFFSET n = u}"
      using that assms(7) by auto
    then show ?thesis using d(6) [of u] by (simp add: set_ok_def split: option.splits)
  qed
  have "\<forall>u. set_ok (insert nid (tree_dirty t)) u (((nat_set_root t)(st \<mapsto>
      head\<lparr>entry_list := entry_list head @ [nid], entry_cnt := add32 (entry_cnt head) 1\<rparr>)) u)"
    using ok other by simp
  moreover have "distinct (removeAll nid (nat_entries t))" "set (removeAll nid (nat_entries t)) = tree_clean t - {nid}"
    using d(4,5) by (auto simp: distinct_removeAll)
  moreover have "card (dom (nat_root ?t)) = percore_nat_cnt t" using d(7) by (simp only: sets(3))
  moreover have "\<forall>n x. nat_root ?t n = Some x \<longrightarrow> ni_nid x = n \<and> n mod c = i \<and> n < mx"
    using assms(2,4) d(1,2,3) by auto
  ultimately show ?thesis using cnt unfolding tree_ok_def sets(1,2) by simp
qed

lemma tree_ok_clear_dirty:
  assumes "tree_ok mx c i t" "nat_root t nid = Some e" "dirty_nat e" "ni_nid e' = ni_nid e" "\<not> dirty_nat e'" "mx < 2 ^ 32"
    and "st = NAT_BLOCK_OFFSET nid" "nat_set_root t st = Some head"
  shows "tree_ok mx c i (t\<lparr>nat_set_root := (nat_set_root t)(st \<mapsto>
       head\<lparr>entry_list := removeAll nid (entry_list head), entry_cnt := sub32 (entry_cnt head) 1\<rparr>),
     nat_entries := removeAll nid (nat_entries t) @ [nid], nat_root := (nat_root t)(nid \<mapsto> e'),
     percore_dirty_nat_cnt := sub32 (percore_dirty_nat_cnt t) 1\<rparr>)" (is "tree_ok mx c i ?t")
proof -
  note d = tree_okD [OF assms(1)]
  have sets: "tree_dirty ?t = tree_dirty t - {nid}" "tree_clean ?t = insert nid (tree_clean t)" "dom (nat_root ?t) = dom (nat_root t)"
    using assms(2,3,5) by (auto simp: tree_dirty_def tree_clean_def)
  have inn: "nid \<in> tree_dirty t" "nid \<notin> tree_clean t" using assms(2,3) by (auto simp: tree_dirty_def tree_clean_def)
  have "0 < card (tree_dirty t)" using inn d(10) by (auto simp: card_gt_0_iff)
  moreover have "card (tree_dirty t) \<le> mx" using card_mono [OF d(9,11)] d(12) by linarith
  ultimately have cnt: "sub32 (percore_dirty_nat_cnt t) 1 = card (tree_dirty ?t)"
    using d(8,10) inn assms(6) unfolding sets(1) by simp
  have h: "distinct (entry_list head)" "set (entry_list head) = {n \<in> tree_dirty t. NAT_BLOCK_OFFSET n = st}"
    "entry_cnt head = length (entry_list head)"
    using d(6) [of st] assms(8) by (auto simp: set_ok_def)
  have nl: "nid \<in> set (entry_list head)" using h(2) inn(1) assms(7) by simp
  then have "0 < length (entry_list head)" by (cases "entry_list head") auto
  moreover have "length (entry_list head) \<le> card (tree_dirty t)"
    using card_mono [OF d(10), of "set (entry_list head)"] h(2) distinct_card [OF h(1)] by auto
  moreover have "length (removeAll nid (entry_list head)) = length (entry_list head) - 1"
    using h(1) nl distinct_remove1_removeAll [OF h(1), of nid] length_remove1 [of nid "entry_list head"] by simp
  ultimately have "sub32 (entry_cnt head) 1 = length (removeAll nid (entry_list head))"
    using \<open>card (tree_dirty t) \<le> mx\<close> assms(6) sub32_small [of 1 "length (entry_list head)"] by (simp add: h(3) Suc_le_eq)
  then have ok: "set_ok (tree_dirty t - {nid}) st
      (Some (head\<lparr>entry_list := removeAll nid (entry_list head), entry_cnt := sub32 (entry_cnt head) 1\<rparr>))"
    using h by (auto simp: set_ok_def distinct_removeAll)
  have other: "set_ok (tree_dirty t - {nid}) u (nat_set_root t u)" if "u \<noteq> st" for u
  proof -
    have "{n \<in> tree_dirty t - {nid}. NAT_BLOCK_OFFSET n = u} = {n \<in> tree_dirty t. NAT_BLOCK_OFFSET n = u}"
      using that assms(7) by auto
    then show ?thesis using d(6) [of u] by (simp add: set_ok_def split: option.splits)
  qed
  have "\<forall>u. set_ok (tree_dirty t - {nid}) u (((nat_set_root t)(st \<mapsto>
      head\<lparr>entry_list := removeAll nid (entry_list head), entry_cnt := sub32 (entry_cnt head) 1\<rparr>)) u)"
    using ok other by simp
  moreover have "distinct (removeAll nid (nat_entries t) @ [nid])"
    "set (removeAll nid (nat_entries t) @ [nid]) = insert nid (tree_clean t)"
    using d(4,5) inn(2) by (auto simp: distinct_removeAll)
  moreover have "card (dom (nat_root ?t)) = percore_nat_cnt t" using d(7) by (simp only: sets(3))
  moreover have "\<forall>n x. nat_root ?t n = Some x \<longrightarrow> ni_nid x = n \<and> n mod c = i \<and> n < mx"
    using assms(2,4) d(1,2,3) by auto
  ultimately show ?thesis using cnt unfolding tree_ok_def sets(1,2) by simp
qed

text \<open>Dropping the empty set of a block.\<close>

lemma tree_ok_drop_set:
  assumes "tree_ok mx c i t" "{n \<in> tree_dirty t. NAT_BLOCK_OFFSET n = st} = {}"
  shows "tree_ok mx c i (t\<lparr>nat_set_root := (nat_set_root t)(st := None)\<rparr>)"
proof -
  have "tree_dirty (t\<lparr>nat_set_root := f\<rparr>) = tree_dirty t" "tree_clean (t\<lparr>nat_set_root := f\<rparr>) = tree_clean t" for f
    by (simp_all add: tree_dirty_def tree_clean_def)
  then show ?thesis using assms by (auto simp: tree_ok_def set_ok_def)
qed

subsection \<open>What the file system sees\<close>

definition journal_get :: "nat_journal \<Rightarrow> nat \<Rightarrow> f2fs_nat_entry option" where
  "journal_get sm n = map_option (\<lambda>i. snd (nat_j sm ! i)) (find (\<lambda>i. fst (nat_j sm ! i) = n) [0..<n_nats sm])"

definition on_media :: "nm_info \<Rightarrow> nat \<Rightarrow> f2fs_nat_entry" where
  "on_media nm n = (case journal_get (cursum nm) n of Some raw \<Rightarrow> raw | None \<Rightarrow> nat_in_page nm n)"

definition nat_view :: "nm_info \<Rightarrow> nat \<Rightarrow> f2fs_nat_entry" where
  "nat_view nm n = (case lookup_nat_cache nm n of Some e \<Rightarrow> raw_nat_from_node_info e | None \<Rightarrow> on_media nm n)"

definition trees_ok :: "nm_info \<Rightarrow> bool" where
  "trees_ok nm \<longleftrightarrow> 0 < nat_tree_cnt nm \<and> max_nid nm < 2 ^ 32 \<and>
     (\<forall>i<nat_tree_cnt nm. tree_ok (max_nid nm) (nat_tree_cnt nm) i (nat_trees nm ! i))"

definition coherent :: "nm_info \<Rightarrow> bool" where
  "coherent nm \<longleftrightarrow> (\<forall>n e. lookup_nat_cache nm n = Some e \<longrightarrow> \<not> dirty_nat e \<longrightarrow> raw_nat_from_node_info e = on_media nm n)"

definition cache_inv :: "nm_info \<Rightarrow> bool" where
  "cache_inv nm \<longleftrightarrow> trees_ok nm \<and> coherent nm"

text \<open>What an operation on the cache leaves alone.\<close>

definition same_media :: "nm_info \<Rightarrow> nm_info \<Rightarrow> bool" where
  "same_media nm r \<longleftrightarrow> cursum r = cursum nm \<and> nat_bitmap r = nat_bitmap nm \<and> nat_area r = nat_area nm \<and>
     nat_blkaddr r = nat_blkaddr nm \<and> nm_log_blocks_per_seg r = nm_log_blocks_per_seg nm \<and>
     max_nid r = max_nid nm \<and> nat_tree_cnt r = nat_tree_cnt nm"

lemma same_media_refl [simp]: "same_media nm nm" by (simp add: same_media_def)

lemma same_media_trans [trans]: "same_media nm q \<Longrightarrow> same_media q r \<Longrightarrow> same_media nm r"
  by (simp add: same_media_def)

lemma same_mediaD:
  assumes "same_media nm r"
  shows "on_media r = on_media nm" "max_nid r = max_nid nm" "nat_tree_cnt r = nat_tree_cnt nm"
  using assms
  by (auto intro!: ext simp: same_media_def on_media_def nat_in_page_def get_current_nat_page_def current_nat_addr_def
      split: option.split)

lemma TREE_IDX_lt: "trees_ok nm \<Longrightarrow> TREE_IDX n nm < nat_tree_cnt nm"
  by (simp add: TREE_IDX_def trees_ok_def)

lemma upd_tree_media [simp]: "same_media nm (upd_tree i f nm)" "same_media nm (nm_bug_on c nm)" "same_media nm (upd_entry n g nm)"
  by (simp_all add: same_media_def upd_tree_def nm_bug_on_def upd_entry_def)

lemma upd_tree_simps [simp]:
  "nat_tree_cnt (upd_tree i f nm) = nat_tree_cnt nm" "max_nid (upd_tree i f nm) = max_nid nm"
  "TREE_IDX n (upd_tree i f nm) = TREE_IDX n nm" "nm_need_fsck (upd_tree i f nm) = nm_need_fsck nm"
  by (simp_all add: upd_tree_def TREE_IDX_def)

lemma bug_on_simps [simp]:
  "nat_trees (nm_bug_on c nm) = nat_trees nm" "TREE_IDX n (nm_bug_on c nm) = TREE_IDX n nm"
  "lookup_nat_cache (nm_bug_on c nm) = lookup_nat_cache nm" "trees_ok (nm_bug_on c nm) = trees_ok nm"
  "nm_need_fsck (nm_bug_on c nm) = (c \<or> nm_need_fsck nm)"
  by (auto simp: nm_bug_on_def TREE_IDX_def lookup_nat_cache_def trees_ok_def)

text \<open>An update of the tree of \<open>nid\<close> that keeps the tree well-formed and touches the entry of \<open>nid\<close> only.\<close>

lemma upd_tree_lookup:
  assumes "trees_ok nm" "i = TREE_IDX nid nm" "nat_root (f (nat_trees nm ! i)) = (nat_root (nat_trees nm ! i))(nid := eo)"
  shows "lookup_nat_cache (upd_tree i f nm) = (lookup_nat_cache nm)(nid := eo)"
proof
  fix m
  have i: "i < nat_tree_cnt nm" using TREE_IDX_lt [OF assms(1)] assms(2) by simp
  show "lookup_nat_cache (upd_tree i f nm) m = ((lookup_nat_cache nm)(nid := eo)) m"
    using i assms(2,3) by (cases "TREE_IDX m nm = i") (auto simp: lookup_nat_cache_def upd_tree_def TREE_IDX_def)
qed

lemma upd_tree_ok:
  assumes "trees_ok nm" "i < nat_tree_cnt nm" "tree_ok (max_nid nm) (nat_tree_cnt nm) i (f (nat_trees nm ! i))"
  shows "trees_ok (upd_tree i f nm)"
  using assms by (auto simp: trees_ok_def upd_tree_def nth_list_update)

lemma lookup_tree: "lookup_nat_cache nm nid = nat_root (nat_trees nm ! TREE_IDX nid nm) nid"
  by (simp add: lookup_nat_cache_def)

lemma trees_okD:
  assumes "trees_ok nm"
  shows "tree_ok (max_nid nm) (nat_tree_cnt nm) (TREE_IDX nid nm) (nat_trees nm ! TREE_IDX nid nm)" "max_nid nm < 2 ^ 32"
    "lookup_nat_cache nm nid = Some e \<Longrightarrow> ni_nid e = nid" "lookup_nat_cache nm nid = Some e \<Longrightarrow> nid < max_nid nm"
proof -
  show t: "tree_ok (max_nid nm) (nat_tree_cnt nm) (TREE_IDX nid nm) (nat_trees nm ! TREE_IDX nid nm)" "max_nid nm < 2 ^ 32"
    using assms TREE_IDX_lt [OF assms] by (simp_all add: trees_ok_def)
  show "lookup_nat_cache nm nid = Some e \<Longrightarrow> ni_nid e = nid" "lookup_nat_cache nm nid = Some e \<Longrightarrow> nid < max_nid nm"
    using tree_okD(1,3) [OF t(1)] by (simp_all add: lookup_tree)
qed

lemma upd_entry_spec:
  assumes "trees_ok nm" "\<And>e. lookup_nat_cache nm nid = Some e \<Longrightarrow> ni_nid (f e) = ni_nid e \<and> dirty_nat (f e) = dirty_nat e"
  shows "trees_ok (upd_entry nid f nm)"
    "lookup_nat_cache (upd_entry nid f nm) = (lookup_nat_cache nm)(nid := map_option f (lookup_nat_cache nm nid))"
proof -
  note d = trees_okD [OF assms(1)]
  show "trees_ok (upd_entry nid f nm)"
    unfolding upd_entry_def
    by (intro upd_tree_ok [OF assms(1) TREE_IDX_lt [OF assms(1)]] tree_ok_entry [OF d(1)]) (use assms(2) in \<open>simp add: lookup_tree\<close>)
  show "lookup_nat_cache (upd_entry nid f nm) = (lookup_nat_cache nm)(nid := map_option f (lookup_nat_cache nm nid))"
    unfolding upd_entry_def by (rule upd_tree_lookup [OF assms(1) refl]) (simp add: lookup_tree)
qed

lemma grab_nat_entry_spec:
  assumes "trees_ok nm" "lookup_nat_cache nm nid = None" "nid < max_nid nm"
  shows "trees_ok (grab_nat_entry nm nid)" "same_media nm (grab_nat_entry nm nid)"
    "\<exists>e. lookup_nat_cache (grab_nat_entry nm nid) = (lookup_nat_cache nm)(nid \<mapsto> e) \<and> ni_nid e = nid \<and> \<not> dirty_nat e
      \<and> get_nat_flag e IS_CHECKPOINTED"
proof -
  note d = trees_okD [OF assms(1)]
  let ?e = "nat_reset_flag \<lparr>ni_nid = nid, ni_ino = 0, ni_blk_addr = 0, ni_version = 0, ni_flag = 0\<rparr>"
  have "\<not> dirty_nat \<lparr>ni_nid = nid, ni_ino = 0, ni_blk_addr = 0, ni_version = 0, ni_flag = 0\<rparr>" by (simp add: get_nat_flag_def)
  then have e: "ni_nid ?e = nid" "\<not> dirty_nat ?e" by simp_all
  have ck: "get_nat_flag ?e IS_CHECKPOINTED" by simp
  show "trees_ok (grab_nat_entry nm nid)"
    unfolding grab_nat_entry_def
    by (intro upd_tree_ok [OF assms(1) TREE_IDX_lt [OF assms(1)]] tree_ok_grab [OF d(1) _ e _ assms(3) d(2)])
      (use assms(2) in \<open>simp_all add: lookup_tree TREE_IDX_def\<close>)
  show "same_media nm (grab_nat_entry nm nid)" by (simp add: grab_nat_entry_def)
  have "lookup_nat_cache (grab_nat_entry nm nid) = (lookup_nat_cache nm)(nid \<mapsto> ?e)"
    unfolding grab_nat_entry_def by (rule upd_tree_lookup [OF assms(1) refl]) simp
  then show "\<exists>e. lookup_nat_cache (grab_nat_entry nm nid) = (lookup_nat_cache nm)(nid \<mapsto> e) \<and> ni_nid e = nid \<and> \<not> dirty_nat e
      \<and> get_nat_flag e IS_CHECKPOINTED" using e ck by (intro exI [of _ ?e] conjI)
qed

lemma set_nat_cache_dirty_spec:
  assumes "trees_ok nm" "lookup_nat_cache nm nid = Some e"
  shows "trees_ok (set_nat_cache_dirty nm nid)" "same_media nm (set_nat_cache_dirty nm nid)"
    "lookup_nat_cache (set_nat_cache_dirty nm nid) = (lookup_nat_cache nm)(nid \<mapsto> (if dirty_nat e then e else set_nat_flag IS_DIRTY True e))"
    "nm_need_fsck (set_nat_cache_dirty nm nid) = nm_need_fsck nm"
proof -
  note d = trees_okD [OF assms(1)]
  have "trees_ok (set_nat_cache_dirty nm nid) \<and> same_media nm (set_nat_cache_dirty nm nid)
    \<and> lookup_nat_cache (set_nat_cache_dirty nm nid) = (lookup_nat_cache nm)(nid \<mapsto> (if dirty_nat e then e else set_nat_flag IS_DIRTY True e))
    \<and> nm_need_fsck (set_nat_cache_dirty nm nid) = nm_need_fsck nm"
  proof (cases "dirty_nat e")
    case True
    then show ?thesis using assms by (auto simp: set_nat_cache_dirty_def)
  next
    case False
    let ?e = "set_nat_flag IS_DIRTY True e"
    have e: "ni_nid ?e = ni_nid e" "dirty_nat ?e" by (simp_all add: get_set_nat_flag)
    have r: "nat_root (nat_trees nm ! TREE_IDX nid nm) nid = Some e" using assms(2) by (simp add: lookup_tree)
    have "trees_ok (set_nat_cache_dirty nm nid)"
      unfolding set_nat_cache_dirty_def using assms(2) False
      by (simp only: option.case if_False Let_def) (intro upd_tree_ok [OF assms(1) TREE_IDX_lt [OF assms(1)]] tree_ok_set_dirty [OF d(1) r False e d(2) refl refl])
    moreover have "lookup_nat_cache (set_nat_cache_dirty nm nid) = (lookup_nat_cache nm)(nid \<mapsto> ?e)"
      unfolding set_nat_cache_dirty_def using assms(2) False
      by (simp add: Let_def) (rule upd_tree_lookup [OF assms(1) refl], simp)
    ultimately show ?thesis using assms(2) False by (simp add: set_nat_cache_dirty_def Let_def)
  qed
  then show "trees_ok (set_nat_cache_dirty nm nid)" "same_media nm (set_nat_cache_dirty nm nid)"
    "lookup_nat_cache (set_nat_cache_dirty nm nid) = (lookup_nat_cache nm)(nid \<mapsto> (if dirty_nat e then e else set_nat_flag IS_DIRTY True e))"
    "nm_need_fsck (set_nat_cache_dirty nm nid) = nm_need_fsck nm"
    by blast+
qed

lemma del_from_nat_cache_spec:
  assumes "trees_ok nm" "lookup_nat_cache nm nid = Some e" "\<not> dirty_nat e"
  shows "trees_ok (del_from_nat_cache nm nid)" "same_media nm (del_from_nat_cache nm nid)"
    "lookup_nat_cache (del_from_nat_cache nm nid) = (lookup_nat_cache nm)(nid := None)"
    "nm_need_fsck (del_from_nat_cache nm nid) = nm_need_fsck nm"
proof -
  note d = trees_okD [OF assms(1)]
  have c: "nid \<in> tree_clean (nat_trees nm ! TREE_IDX nid nm)" using assms(2,3) by (simp add: tree_clean_def lookup_tree)
  show "trees_ok (del_from_nat_cache nm nid)"
    unfolding del_from_nat_cache_def
    by (intro upd_tree_ok [OF assms(1) TREE_IDX_lt [OF assms(1)]] tree_ok_del [OF d(1) c d(2)])
  show "same_media nm (del_from_nat_cache nm nid)" "nm_need_fsck (del_from_nat_cache nm nid) = nm_need_fsck nm"
    by (simp_all add: del_from_nat_cache_def)
  show "lookup_nat_cache (del_from_nat_cache nm nid) = (lookup_nat_cache nm)(nid := None)"
    unfolding del_from_nat_cache_def by (rule upd_tree_lookup [OF assms(1) refl]) simp
qed

text \<open>Coherence of a state whose cache differs in one entry, over the same media.\<close>

lemma coherent_upd:
  assumes "coherent nm" "same_media nm r" "lookup_nat_cache r = (lookup_nat_cache nm)(nid := eo)"
    and "\<And>e. eo = Some e \<Longrightarrow> dirty_nat e \<or> raw_nat_from_node_info e = on_media nm nid"
  shows "coherent r" "nat_view r = (nat_view nm)(nid := (case eo of Some e \<Rightarrow> raw_nat_from_node_info e | None \<Rightarrow> on_media nm nid))"
  using assms(1,3,4) same_mediaD(1) [OF assms(2)] by (auto simp: coherent_def nat_view_def split: option.splits)

lemma journal_lookup:
  "map_option (\<lambda>i. snd (nat_j sm ! i)) (snd (lookup_journal_in_cursum sm n False)) = journal_get sm n"
  by (auto simp: lookup_journal_in_cursum_def journal_get_def split: option.splits)

lemma cache_nat_entry_spec:
  assumes "cache_inv nm" "nid < max_nid nm"
  shows "cache_inv (cache_nat_entry nm nid (on_media nm nid))" "nat_view (cache_nat_entry nm nid (on_media nm nid)) = nat_view nm"
    "same_media nm (cache_nat_entry nm nid (on_media nm nid))"
    "nm_need_fsck (cache_nat_entry nm nid (on_media nm nid)) = nm_need_fsck nm"
proof -
  have inv: "trees_ok nm" "coherent nm" using assms(1) by (simp_all add: cache_inv_def)
  let ?ne = "on_media nm nid" let ?r = "cache_nat_entry nm nid ?ne"
  have "cache_inv ?r \<and> nat_view ?r = nat_view nm \<and> same_media nm ?r \<and> nm_need_fsck ?r = nm_need_fsck nm"
  proof (cases "lookup_nat_cache nm nid")
    case (Some e)
    then show ?thesis using assms(1) by (simp add: cache_nat_entry_def)
  next
    case None
    obtain e where g: "trees_ok (grab_nat_entry nm nid)" "same_media nm (grab_nat_entry nm nid)"
      "lookup_nat_cache (grab_nat_entry nm nid) = (lookup_nat_cache nm)(nid \<mapsto> e)" "\<not> dirty_nat e"
      using grab_nat_entry_spec [OF inv(1) None assms(2)] by blast
    have r: "?r = upd_entry nid (node_info_from_raw_nat ?ne) (grab_nat_entry nm nid)" using None by (simp add: cache_nat_entry_def)
    have f: "ni_nid (node_info_from_raw_nat ?ne e) = ni_nid e" "dirty_nat (node_info_from_raw_nat ?ne e) = dirty_nat e"
      "raw_nat_from_node_info (node_info_from_raw_nat ?ne e) = ?ne"
      by (simp_all add: node_info_from_raw_nat_def get_nat_flag_def raw_nat_from_node_info_def)
    have u: "trees_ok ?r" "lookup_nat_cache ?r = (lookup_nat_cache nm)(nid \<mapsto> node_info_from_raw_nat ?ne e)"
      using upd_entry_spec [OF g(1), of nid "node_info_from_raw_nat ?ne"] f(1,2) by (simp_all add: r g(3))
    have m: "same_media nm ?r" unfolding r using same_media_trans [OF g(2) upd_tree_media(3)] .
    have c: "coherent ?r" "nat_view ?r = (nat_view nm)(nid := ?ne)"
      using coherent_upd [OF inv(2) m u(2)] f(3) by simp_all
    have "nat_view nm nid = ?ne" using None by (simp add: nat_view_def)
    then have "nat_view ?r = nat_view nm" unfolding c(2) by (rule fun_upd_idem)
    moreover have "nm_need_fsck ?r = nm_need_fsck nm" unfolding r by (simp add: upd_entry_def grab_nat_entry_def)
    ultimately show ?thesis using u(1) c(1) m by (simp add: cache_inv_def)
  qed
  then show "cache_inv ?r" "nat_view ?r = nat_view nm" "same_media nm ?r" "nm_need_fsck ?r = nm_need_fsck nm" by blast+
qed

text \<open>
  C24: looking a node up returns what the file system's NAT says of it, whether that comes from
  the cache, from the journal or from the NAT area, and leaves the NAT and the cache invariant
  as they were.
\<close>
theorem get_node_info_correct:
  assumes "cache_inv nm" "nid < max_nid nm" "get_node_info nm nid = (r, ni)"
  shows "ni_nid ni = nid \<and> raw_nat_from_node_info ni = nat_view nm nid \<and> cache_inv r \<and> nat_view r = nat_view nm
    \<and> nm_need_fsck r = nm_need_fsck nm"
proof (cases "lookup_nat_cache nm nid")
  case (Some e)
  then show ?thesis using assms by (auto simp: get_node_info_def nat_view_def raw_nat_from_node_info_def)
next
  case None
  have ne: "(case snd (lookup_journal_in_cursum (cursum nm) nid False) of
      Some i \<Rightarrow> snd (nat_j (cursum nm) ! i) | None \<Rightarrow> nat_in_page nm nid) = on_media nm nid"
    using journal_lookup [of "cursum nm" nid] by (auto simp: on_media_def split: option.splits)
  have "r = cache_nat_entry nm nid (on_media nm nid)"
    "ni = node_info_from_raw_nat (on_media nm nid) \<lparr>ni_nid = nid, ni_ino = 0, ni_blk_addr = 0, ni_version = 0, ni_flag = 0\<rparr>"
    using assms(3) None by (auto simp: get_node_info_def Let_def ne)
  with cache_nat_entry_spec [OF assms(1,2)] None show ?thesis
    by (simp add: node_info_from_raw_nat_def raw_nat_from_node_info_def nat_view_def)
qed

subsection \<open>Changing an address\<close>

lemma copy_node_info_simps [simp]:
  "ni_nid (copy_node_info e ni) = ni_nid ni" "dirty_nat (copy_node_info e ni) = dirty_nat e"
  "raw_nat_from_node_info (copy_node_info e ni) = raw_nat_from_node_info ni" "ni_blk_addr (copy_node_info e ni) = ni_blk_addr ni"
  by (simp_all add: copy_node_info_def get_nat_flag_def raw_nat_from_node_info_def)

text \<open>The first part: an entry for the node with what the caller read of it.\<close>

definition load_entry :: "nm_info \<Rightarrow> node_info \<Rightarrow> nat \<Rightarrow> nm_info" where
  "load_entry nm ni new =
     (case lookup_nat_cache nm (ni_nid ni) of
        None \<Rightarrow> nm_bug_on (ni_blk_addr ni = NEW_ADDR) (upd_entry (ni_nid ni) (\<lambda>e. copy_node_info e ni) (grab_nat_entry nm (ni_nid ni)))
      | Some e \<Rightarrow> if new = NEW_ADDR
                  then nm_bug_on (ni_blk_addr ni \<noteq> NULL_ADDR) (upd_entry (ni_nid ni) (\<lambda>e. copy_node_info e ni) nm)
                  else nm)"

text \<open>When the node may move to \<open>new\<close>, given its current address.\<close>

definition legal_move :: "nat \<Rightarrow> nat \<Rightarrow> bool" where
  "legal_move old new \<longleftrightarrow> (if new = NULL_ADDR then old \<noteq> NULL_ADDR else if new = NEW_ADDR then old = NULL_ADDR else True)"

lemma load_entry_spec:
  assumes "trees_ok nm" "ni_nid ni < max_nid nm" "raw_nat_from_node_info ni = nat_view nm (ni_nid ni)"
    and "legal_move (ni_blk_addr ni) new" "lookup_nat_cache nm (ni_nid ni) = None \<longrightarrow> ni_blk_addr ni \<noteq> NEW_ADDR"
  shows "\<exists>e. trees_ok (load_entry nm ni new) \<and> same_media nm (load_entry nm ni new)
    \<and> lookup_nat_cache (load_entry nm ni new) = (lookup_nat_cache nm)(ni_nid ni \<mapsto> e)
    \<and> ni_nid e = ni_nid ni \<and> raw_nat_from_node_info e = raw_nat_from_node_info ni
    \<and> nm_need_fsck (load_entry nm ni new) = nm_need_fsck nm"
proof (cases "lookup_nat_cache nm (ni_nid ni)")
  case None
  obtain e where g: "trees_ok (grab_nat_entry nm (ni_nid ni))" "same_media nm (grab_nat_entry nm (ni_nid ni))"
    "lookup_nat_cache (grab_nat_entry nm (ni_nid ni)) = (lookup_nat_cache nm)(ni_nid ni \<mapsto> e)" "ni_nid e = ni_nid ni"
    using grab_nat_entry_spec [OF assms(1) None assms(2)] by blast
  let ?u = "upd_entry (ni_nid ni) (\<lambda>e. copy_node_info e ni) (grab_nat_entry nm (ni_nid ni))"
  have u: "trees_ok ?u" "lookup_nat_cache ?u = (lookup_nat_cache nm)(ni_nid ni \<mapsto> copy_node_info e ni)"
    using upd_entry_spec [OF g(1), of "ni_nid ni" "\<lambda>e. copy_node_info e ni"] g(3,4) by simp_all
  have "same_media nm ?u" using same_media_trans [OF g(2) upd_tree_media(3)] .
  then have "same_media nm (nm_bug_on c ?u)" for c using same_media_trans [OF _ upd_tree_media(2)] by simp
  moreover have "nm_need_fsck ?u = nm_need_fsck nm" by (simp add: upd_entry_def grab_nat_entry_def)
  moreover have "load_entry nm ni new = nm_bug_on False ?u" using None assms(5) by (simp add: load_entry_def)
  ultimately show ?thesis using u by (intro exI [of _ "copy_node_info e ni"]) simp
next
  case (Some e)
  have en: "ni_nid e = ni_nid ni" using trees_okD(3) [OF assms(1) Some] .
  show ?thesis
  proof (cases "new = NEW_ADDR")
    case True
    let ?u = "upd_entry (ni_nid ni) (\<lambda>e. copy_node_info e ni) nm"
    have u: "trees_ok ?u" "lookup_nat_cache ?u = (lookup_nat_cache nm)(ni_nid ni \<mapsto> copy_node_info e ni)"
      using upd_entry_spec [OF assms(1), of "ni_nid ni" "\<lambda>e. copy_node_info e ni"] Some en by simp_all
    have "same_media nm (nm_bug_on c ?u)" for c using same_media_trans [OF upd_tree_media(3) upd_tree_media(2)] .
    moreover have "nm_need_fsck ?u = nm_need_fsck nm" by (simp add: upd_entry_def)
    moreover have "load_entry nm ni new = nm_bug_on False ?u"
      using Some True assms(4) by (simp add: load_entry_def legal_move_def NULL_ADDR_def NEW_ADDR_def)
    ultimately show ?thesis
      using u by (intro exI [of _ "copy_node_info e ni"]) simp
  next
    case False
    have "raw_nat_from_node_info e = raw_nat_from_node_info ni" using assms(3) Some by (simp add: nat_view_def)
    moreover have "load_entry nm ni new = nm" using Some False by (simp add: load_entry_def)
    moreover have "(lookup_nat_cache nm)(ni_nid ni \<mapsto> e) = lookup_nat_cache nm" using Some by (simp add: fun_upd_idem)
    ultimately show ?thesis using en assms(1) by (intro exI [of _ e]) simp
  qed
qed


lemma nm_bug_on_False [simp]: "nm_bug_on False nm = nm" by (simp add: nm_bug_on_def)

text \<open>Changing only the flags of an entry.\<close>

lemma upd_entry_flags:
  assumes "cache_inv nm" "\<And>e. ni_nid (f e) = ni_nid e \<and> dirty_nat (f e) = dirty_nat e \<and> raw_nat_from_node_info (f e) = raw_nat_from_node_info e"
  shows "cache_inv (upd_entry n f nm)" "nat_view (upd_entry n f nm) = nat_view nm" "nm_need_fsck (upd_entry n f nm) = nm_need_fsck nm"
proof -
  have inv: "trees_ok nm" "coherent nm" using assms(1) by (simp_all add: cache_inv_def)
  have u: "trees_ok (upd_entry n f nm)"
    "lookup_nat_cache (upd_entry n f nm) = (lookup_nat_cache nm)(n := map_option f (lookup_nat_cache nm n))"
    using upd_entry_spec [OF inv(1), of n f] assms(2) by blast+
  have d: "dirty_nat x \<or> raw_nat_from_node_info x = on_media nm n" if "map_option f (lookup_nat_cache nm n) = Some x" for x
  proof -
    from that obtain z where "lookup_nat_cache nm n = Some z" "x = f z" by auto
    with inv(2) assms(2) [of z] show ?thesis by (auto simp: coherent_def)
  qed
  have v: "(case map_option f (lookup_nat_cache nm n) of Some e \<Rightarrow> raw_nat_from_node_info e | None \<Rightarrow> on_media nm n) = nat_view nm n"
    using assms(2) by (simp add: nat_view_def split: option.split)
  note c = coherent_upd [where nid = n and r = "upd_entry n f nm", OF inv(2) upd_tree_media(3) u(2) d, unfolded v fun_upd_triv]
  show "cache_inv (upd_entry n f nm)" using u(1) c(1) by (simp add: cache_inv_def)
  show "nat_view (upd_entry n f nm) = nat_view nm"
    by (rule c(2))
  show "nm_need_fsck (upd_entry n f nm) = nm_need_fsck nm" by (simp add: upd_entry_def)
qed

definition moved_raw :: "node_info \<Rightarrow> nat \<Rightarrow> f2fs_nat_entry" where
  "moved_raw ni new = \<lparr>raw_version = (if ni_blk_addr ni \<noteq> NEW_ADDR \<and> new = NULL_ADDR then inc_node_version (ni_version ni) else ni_version ni),
     raw_ino = ni_ino ni, raw_block_addr = new\<rparr>"

text \<open>The entry that \<open>set_node_addr\<close> leaves, flags of the inode aside.\<close>

definition moved_entry :: "nat \<Rightarrow> node_info \<Rightarrow> node_info" where
  "moved_entry new e =
     (let e = (if ni_blk_addr e \<noteq> NEW_ADDR \<and> new = NULL_ADDR then e\<lparr>ni_version := inc_node_version (ni_version e)\<rparr> else e);
          e = e\<lparr>ni_blk_addr := new\<rparr>
      in if new = NEW_ADDR \<or> new = NULL_ADDR then set_nat_flag IS_CHECKPOINTED False e else e)"

lemma get_nat_flag_update [simp]:
  "get_nat_flag (e\<lparr>ni_version := v\<rparr>) t = get_nat_flag e t" "get_nat_flag (e\<lparr>ni_blk_addr := a\<rparr>) t = get_nat_flag e t"
  by (simp_all add: get_nat_flag_def)

lemma moved_entry_simps:
  "ni_nid (moved_entry new e) = ni_nid e" "dirty_nat (moved_entry new e) = dirty_nat e"
  "raw_nat_from_node_info e = raw_nat_from_node_info ni \<Longrightarrow> raw_nat_from_node_info (moved_entry new e) = moved_raw ni new"
  by (auto simp: moved_entry_def moved_raw_def Let_def get_set_nat_flag raw_nat_from_node_info_def)

lemma upd_entry_upd_entry: "trees_ok nm \<Longrightarrow> upd_entry n g (upd_entry n f nm) = upd_entry n (\<lambda>e. g (f e)) nm"
  using TREE_IDX_lt [of nm n] by (simp add: upd_entry_def upd_tree_def TREE_IDX_def option.map_comp comp_def)

lemma upd_entry_cong:
  assumes "lookup_nat_cache nm n = Some e" "f e = g e"
  shows "upd_entry n f nm = upd_entry n g nm"
  using assms by (simp add: upd_entry_def upd_tree_def lookup_tree)

lemma upd_moved_entry:
  assumes "trees_ok nm" "lookup_nat_cache nm n = Some e"
  shows "upd_entry n (moved_entry new) nm =
    (let nm = (if ni_blk_addr e \<noteq> NEW_ADDR \<and> new = NULL_ADDR
               then upd_entry n (\<lambda>e. e\<lparr>ni_version := inc_node_version (ni_version e)\<rparr>) nm else nm);
         nm = upd_entry n (\<lambda>e. e\<lparr>ni_blk_addr := new\<rparr>) nm
     in if new = NEW_ADDR \<or> new = NULL_ADDR then upd_entry n (set_nat_flag IS_CHECKPOINTED False) nm else nm)"
proof -
  have t: "trees_ok (upd_entry n f nm)" if "\<And>e. ni_nid (f e) = ni_nid e \<and> dirty_nat (f e) = dirty_nat e" for f
    using upd_entry_spec(1) [OF assms(1)] that by blast
  let ?v = "\<lambda>e. e\<lparr>ni_version := inc_node_version (ni_version e)\<rparr>" let ?b = "\<lambda>e. e\<lparr>ni_blk_addr := new\<rparr>"
  note t2 = t [of ?v] t [of "\<lambda>e. ?b (?v e)"]
  define old cp where "old \<longleftrightarrow> ni_blk_addr e \<noteq> NEW_ADDR \<and> new = NULL_ADDR" and "cp \<longleftrightarrow> new = NEW_ADDR \<or> new = NULL_ADDR"
  let ?f = "\<lambda>e. (if cp then set_nat_flag IS_CHECKPOINTED False else id) (?b ((if old then ?v else id) e))"
  have f: "upd_entry n ?f nm = (let nm = (if old then upd_entry n ?v nm else nm); nm = upd_entry n ?b nm
     in if cp then upd_entry n (set_nat_flag IS_CHECKPOINTED False) nm else nm)"
    using assms(1) t2 by (cases old; cases cp) (simp_all add: upd_entry_upd_entry Let_def id_def)
  have "moved_entry new e = ?f e" by (simp add: moved_entry_def old_def cp_def)
  from upd_entry_cong [where f = "moved_entry new" and g = ?f, OF assms(2) this] show ?thesis
    unfolding f by (simp only: old_def cp_def)
qed

lemma set_node_addr_eq:
  assumes "trees_ok (load_entry nm ni new)" "lookup_nat_cache (load_entry nm ni new) (ni_nid ni) = Some e"
    "ni_blk_addr e = ni_blk_addr ni" "legal_move (ni_blk_addr ni) new"
  shows "set_node_addr nm ni new fsync_done =
    upd_entry (ni_ino ni) (\<lambda>e. set_nat_flag HAS_LAST_FSYNC fsync_done
        (if fsync_done \<and> ni_nid ni = ni_ino ni then set_nat_flag HAS_FSYNCED_INODE True e else e))
      (set_nat_cache_dirty (upd_entry (ni_nid ni) (moved_entry new) (load_entry nm ni new)) (ni_nid ni))"
proof -
  have l: "\<not> (ni_blk_addr ni = NULL_ADDR \<and> new = NULL_ADDR)" "\<not> (ni_blk_addr ni = NEW_ADDR \<and> new = NEW_ADDR)"
    "\<not> (ni_blk_addr ni \<noteq> NEW_ADDR \<and> ni_blk_addr ni \<noteq> NULL_ADDR \<and> new = NEW_ADDR)"
    using assms(4) by (auto simp: legal_move_def NULL_ADDR_def NEW_ADDR_def split: if_splits)
  note u = upd_moved_entry [OF assms(1,2)]
  show ?thesis
    unfolding u unfolding set_node_addr_def load_entry_def [symmetric] Let_def assms(2) option.sel assms(3)
    using l by (simp only: simp_thms if_False if_True nm_bug_on_False refl)
qed

text \<open>
  C23: \<open>set_node_addr\<close> changes the file system's NAT at the node id it is given and nowhere else:
  the entry gets the new address, and a new version when the node is removed. The cache invariant
  is kept and nothing is reported as inconsistent, provided the caller passes the information that
  \<open>get_node_info\<close> returned and moves the node legally.
\<close>
theorem set_node_addr_correct:
  assumes "cache_inv nm" "ni_nid ni < max_nid nm" "raw_nat_from_node_info ni = nat_view nm (ni_nid ni)"
    and "legal_move (ni_blk_addr ni) new" "lookup_nat_cache nm (ni_nid ni) = None \<longrightarrow> ni_blk_addr ni \<noteq> NEW_ADDR"
  shows "cache_inv (set_node_addr nm ni new fsync_done)
    \<and> nat_view (set_node_addr nm ni new fsync_done) = (nat_view nm)(ni_nid ni := moved_raw ni new)
    \<and> nm_need_fsck (set_node_addr nm ni new fsync_done) = nm_need_fsck nm"
proof -
  have inv: "trees_ok nm" "coherent nm" using assms(1) by (simp_all add: cache_inv_def)
  let ?l = "load_entry nm ni new" let ?n = "ni_nid ni"
  obtain e where l: "trees_ok ?l" "same_media nm ?l" "lookup_nat_cache ?l = (lookup_nat_cache nm)(?n \<mapsto> e)"
    "ni_nid e = ?n" "raw_nat_from_node_info e = raw_nat_from_node_info ni" "nm_need_fsck ?l = nm_need_fsck nm"
    using load_entry_spec [OF inv(1) assms(2-5)] by blast
  let ?u = "upd_entry ?n (moved_entry new) ?l"
  have u: "trees_ok ?u" "lookup_nat_cache ?u = (lookup_nat_cache nm)(?n \<mapsto> moved_entry new e)"
    using upd_entry_spec [OF l(1), of ?n "moved_entry new"] l(3) moved_entry_simps(1,2) by simp_all
  let ?d = "set_nat_cache_dirty ?u ?n"
  let ?e = "if dirty_nat (moved_entry new e) then moved_entry new e else set_nat_flag IS_DIRTY True (moved_entry new e)"
  have look: "lookup_nat_cache ?u ?n = Some (moved_entry new e)" by (simp add: u(2))
  note dd = set_nat_cache_dirty_spec [OF u(1) look]
  have ld: "lookup_nat_cache ?d = (lookup_nat_cache nm)(?n \<mapsto> ?e)" unfolding dd(3) u(2) by simp
  have md: "same_media nm ?d" using same_media_trans [OF same_media_trans [OF l(2) upd_tree_media(3)] dd(2)] .
  have e: "dirty_nat ?e" "raw_nat_from_node_info ?e = moved_raw ni new"
    using moved_entry_simps(3) [OF l(5)] by (auto simp: get_set_nat_flag)
  have dx: "dirty_nat x \<or> raw_nat_from_node_info x = on_media nm ?n" if "Some ?e = Some x" for x
    using that e(1) by (metis option.inject)
  have c: "coherent ?d" "nat_view ?d = (nat_view nm)(?n := moved_raw ni new)"
    using coherent_upd [OF inv(2) md ld dx] e(2) by simp_all
  have ci: "cache_inv ?d" using dd(1) c(1) by (simp add: cache_inv_def)
  have f: "nm_need_fsck ?d = nm_need_fsck nm" unfolding dd(4) by (simp add: upd_entry_def l(6))
  have b: "ni_blk_addr e = ni_blk_addr ni" using l(5) by (simp add: raw_nat_from_node_info_def)
  have le: "lookup_nat_cache ?l ?n = Some e" by (simp add: l(3))
  show ?thesis
    unfolding set_node_addr_eq [OF l(1) le b assms(4)]
    using upd_entry_flags [OF ci, of "\<lambda>e. set_nat_flag HAS_LAST_FSYNC fsync_done
        (if fsync_done \<and> ?n = ni_ino ni then set_nat_flag HAS_FSYNCED_INODE True e else e)" "ni_ino ni"] c(2) f
    by (auto simp: get_set_nat_flag)
qed

subsection \<open>The shrinker\<close>

definition clean_in :: "nm_info \<Rightarrow> nat \<Rightarrow> bool" where
  "clean_in nm n \<longleftrightarrow> (\<exists>e. lookup_nat_cache nm n = Some e \<and> \<not> dirty_nat e)"

lemma del_from_nat_cache_keeps:
  assumes "cache_inv nm" "clean_in nm n"
  shows "cache_inv (del_from_nat_cache nm n)" "nat_view (del_from_nat_cache nm n) = nat_view nm"
    "lookup_nat_cache (del_from_nat_cache nm n) = (lookup_nat_cache nm)(n := None)"
    "nm_need_fsck (del_from_nat_cache nm n) = nm_need_fsck nm"
    "same_media nm (del_from_nat_cache nm n)"
proof -
  have inv: "trees_ok nm" "coherent nm" using assms(1) by (simp_all add: cache_inv_def)
  obtain e where e: "lookup_nat_cache nm n = Some e" "\<not> dirty_nat e" using assms(2) by (auto simp: clean_in_def)
  note d = del_from_nat_cache_spec [OF inv(1) e]
  have v: "nat_view nm n = on_media nm n" using e inv(2) by (simp add: nat_view_def coherent_def)
  have c: "coherent (del_from_nat_cache nm n)" "nat_view (del_from_nat_cache nm n) = (nat_view nm)(n := on_media nm n)"
    using coherent_upd [OF inv(2) d(2,3)] by simp_all
  show "cache_inv (del_from_nat_cache nm n)" using d(1) c(1) by (simp add: cache_inv_def)
  show "nat_view (del_from_nat_cache nm n) = nat_view nm" unfolding c(2) using v by (rule fun_upd_idem)
  show "lookup_nat_cache (del_from_nat_cache nm n) = (lookup_nat_cache nm)(n := None)"
    "nm_need_fsck (del_from_nat_cache nm n) = nm_need_fsck nm" "same_media nm (del_from_nat_cache nm n)" by (fact d)+
qed

text \<open>What dropping \<open>k\<close> clean entries leaves.\<close>

definition shrunk :: "nm_info \<Rightarrow> nm_info \<Rightarrow> nat set \<Rightarrow> bool" where
  "shrunk nm r D \<longleftrightarrow> cache_inv r \<and> nat_view r = nat_view nm \<and> finite D \<and> (\<forall>n \<in> D. clean_in nm n) \<and>
     lookup_nat_cache r = (\<lambda>n. if n \<in> D then None else lookup_nat_cache nm n) \<and> nm_need_fsck r = nm_need_fsck nm \<and> same_media nm r"

lemma shrunk_refl: "cache_inv nm \<Longrightarrow> shrunk nm nm {}"
  by (simp add: shrunk_def)

lemma shrunk_step:
  assumes "shrunk nm q D" "clean_in q n"
  shows "shrunk nm (del_from_nat_cache q n) (insert n D)" "n \<notin> D"
proof -
  have q: "cache_inv q" "lookup_nat_cache q = (\<lambda>n. if n \<in> D then None else lookup_nat_cache nm n)"
    using assms(1) by (simp_all add: shrunk_def)
  show "n \<notin> D" using assms(2) by (auto simp: clean_in_def q(2))
  then have "clean_in nm n" using assms(2) by (simp add: clean_in_def q(2))
  with assms(1) del_from_nat_cache_keeps [OF q(1) assms(2)] show "shrunk nm (del_from_nat_cache q n) (insert n D)"
    by (auto simp: shrunk_def fun_eq_iff intro: same_media_trans)
qed

lemma shrink_tree_shrunk:
  assumes "shrunk nm q D" "distinct l" "\<forall>n \<in> set l. clean_in q n" "shrink_tree m l q = (r, k)"
  shows "\<exists>D'. shrunk nm r D' \<and> card D' = card D + k \<and> k \<le> m"
  using assms
proof (induction m l q arbitrary: D k r rule: shrink_tree.induct)
  case (3 m nid l q)
  from 3(5) obtain k' where k: "shrink_tree m l (del_from_nat_cache q nid) = (r, k')" "k = Suc k'"
    by (auto split: prod.splits)
  have c: "clean_in q nid" using 3(4) by simp
  note s = shrunk_step [OF 3(2) c]
  have "lookup_nat_cache (del_from_nat_cache q nid) = (lookup_nat_cache q)(nid := None)"
    using del_from_nat_cache_keeps(3) [OF _ c] 3(2) by (simp add: shrunk_def)
  then have "\<forall>n \<in> set l. clean_in (del_from_nat_cache q nid) n" using 3(3,4) by (auto simp: clean_in_def)
  from 3(1) [OF s(1) _ this k(1)] 3(3) obtain D' where "shrunk nm r D'" "card D' = card (insert nid D) + k'" "k' \<le> m" by auto
  moreover have "finite D" using 3(2) by (simp add: shrunk_def)
  ultimately show ?case using s(2) k(2) by auto
qed auto

lemma tree_entries_clean:
  assumes "trees_ok nm" "i < nat_tree_cnt nm"
  shows "distinct (nat_entries (nat_trees nm ! i))" "\<forall>n \<in> set (nat_entries (nat_trees nm ! i)). clean_in nm n"
proof -
  have t: "tree_ok (max_nid nm) (nat_tree_cnt nm) i (nat_trees nm ! i)" using assms by (simp add: trees_ok_def)
  show "distinct (nat_entries (nat_trees nm ! i))" using tree_okD(4) [OF t] .
  show "\<forall>n \<in> set (nat_entries (nat_trees nm ! i)). clean_in nm n"
    using tree_okD(2) [OF t] unfolding tree_okD(5) [OF t] by (auto simp: tree_clean_def clean_in_def lookup_nat_cache_def TREE_IDX_def)
qed

lemma shrink_trees_shrunk:
  assumes "shrunk nm q D" "\<forall>i \<in> set is. i < nat_tree_cnt nm" "shrink_trees is nr q = (r, left)"
  shows "\<exists>D'. shrunk nm r D' \<and> card D' + left = card D + nr"
  using assms
proof (induction "is" arbitrary: q D nr)
  case (Cons i "is")
  have q: "trees_ok q" "nat_tree_cnt q = nat_tree_cnt nm" using Cons(2) by (auto simp: shrunk_def cache_inv_def same_media_def)
  obtain q1 k where s: "shrink_tree (nr div length (i # is)) (nat_entries (nat_trees q ! i)) q = (q1, k)" by fastforce
  have i: "i < nat_tree_cnt q" using Cons(3) q(2) by simp
  obtain D1 where D1: "shrunk nm q1 D1" "card D1 = card D + k" "k \<le> nr div length (i # is)"
    using shrink_tree_shrunk [OF Cons(2) tree_entries_clean [OF q(1) i] s] by blast
  have "k \<le> nr" using D1(3) div_le_dividend le_trans by blast
  moreover have "shrink_trees is (nr - k) q1 = (r, left)" using Cons(4) s by simp
  then obtain D' where "shrunk nm r D'" "card D' + left = card D1 + (nr - k)" using Cons(1) [OF D1(1)] Cons(3) by auto
  ultimately show ?case using D1(2) by auto
qed auto


subsection \<open>A small volume\<close>

definition raw0 :: f2fs_nat_entry where
  "raw0 = \<lparr>raw_version = 0, raw_ino = 0, raw_block_addr = 0\<rparr>"

definition small_tree :: "nat \<Rightarrow> nat_tree" where
  "small_tree n = \<lparr>nat_root = [n \<mapsto> \<lparr>ni_nid = n, ni_ino = n, ni_blk_addr = 5000 + n, ni_version = 1, ni_flag = 5\<rparr>],
     nat_entries = [n], nat_set_root = (\<lambda>_. None), percore_nat_cnt = 1, percore_dirty_nat_cnt = 0\<rparr>"

definition small_nat :: nm_info where
  "small_nat = \<lparr>nat_blkaddr = 1024, nm_log_blocks_per_seg = 9, max_nid = 910, available_nids = 454, next_scan_nid = 4,
     ram_thresh = 1, avail_ram = 0, nat_trees = [small_tree 4, small_tree 5],
     cursum = \<lparr>n_nats = 1, nat_j = (5, \<lparr>raw_version = 1, raw_ino = 5, raw_block_addr = 5005\<rparr>) # replicate 37 (0, raw0)\<rparr>,
     nat_bitmap = [0],
     nat_area = (\<lambda>_. (replicate 455 raw0)[4 := \<lparr>raw_version = 1, raw_ino = 4, raw_block_addr = 5004\<rparr>]),
     free_nid_root = [[7 \<mapsto> NID_NEW, 8 \<mapsto> NID_NEW], [500 \<mapsto> NID_NEW]], free_nid_list = [[7, 8], [500]], percore_fcnt = [2, 1],
     next_allocator = 0, nid_chunk = 456, on_build = False, valid_node_count = 2, nm_need_fsck = False\<rparr>"

lemma small_tree_dirty: "tree_dirty (small_tree n) = {}" "tree_clean (small_tree n) = {n}"
  by (auto simp: tree_dirty_def tree_clean_def small_tree_def get_nat_flag_bit IS_DIRTY_def bit_word_iff_drop_bit_and)

lemma small_nat_inv: "cache_inv small_nat"
proof -
  have ok: "tree_ok 910 2 i (small_tree n)" if "n mod 2 = i" "n < 910" for n i
    using that unfolding tree_ok_def small_tree_dirty by (auto simp: small_tree_def set_ok_def split: if_splits)
  have "tree_ok 910 2 0 (small_tree 4)" "tree_ok 910 2 (Suc 0) (small_tree 5)" using ok [of 4 0] ok [of 5 "Suc 0"] by simp_all
  moreover have "nat_tree_cnt small_nat = 2" "nat_trees small_nat = [small_tree 4, small_tree 5]" "max_nid small_nat = 910"
    by (simp_all add: small_nat_def)
  ultimately have t: "trees_ok small_nat" by (auto simp: trees_ok_def simp flip: numeral_2_eq_2 dest!: less_2_cases)
  have l: "lookup_nat_cache small_nat n = Some e \<Longrightarrow> (n = 4 \<or> n = 5) \<and> raw_nat_from_node_info e = \<lparr>raw_version = 1, raw_ino = n, raw_block_addr = 5000 + n\<rparr>" for n e
    by (auto simp: lookup_nat_cache_def small_nat_def small_tree_def TREE_IDX_def raw_nat_from_node_info_def nth_Cons' split: if_splits)
  have m: "on_media small_nat 4 = \<lparr>raw_version = 1, raw_ino = 4, raw_block_addr = 5004\<rparr>"
    "on_media small_nat 5 = \<lparr>raw_version = 1, raw_ino = 5, raw_block_addr = 5005\<rparr>"
    by (simp_all add: on_media_def journal_get_def small_nat_def nat_in_page_def get_current_nat_page_def START_NID_def NAT_ENTRY_PER_BLOCK_def)
  show ?thesis using t l m by (fastforce simp: cache_inv_def coherent_def)
qed

theorem get_node_info_correct_witness:
  "\<exists>r ni. get_node_info small_nat 300 = (r, ni) \<and> ni_nid ni = 300 \<and> raw_nat_from_node_info ni = nat_view small_nat 300 \<and> cache_inv r
    \<and> nat_view r = nat_view small_nat"
  using get_node_info_correct [OF small_nat_inv, of 300] by (cases "get_node_info small_nat 300") (simp add: small_nat_def)

theorem set_node_addr_correct_witness:
  "let ni = \<lparr>ni_nid = 4, ni_ino = 4, ni_blk_addr = 5004, ni_version = 1, ni_flag = 0\<rparr>
   in cache_inv (set_node_addr small_nat ni 7000 True)
     \<and> nat_view (set_node_addr small_nat ni 7000 True) = (nat_view small_nat)(4 := \<lparr>raw_version = 1, raw_ino = 4, raw_block_addr = 7000\<rparr>)"
proof -
  have l: "lookup_nat_cache small_nat 4 = Some \<lparr>ni_nid = 4, ni_ino = 4, ni_blk_addr = 5004, ni_version = 1, ni_flag = 5\<rparr>"
    "max_nid small_nat = 910"
    by (simp_all add: lookup_nat_cache_def small_nat_def small_tree_def TREE_IDX_def flip: numeral_2_eq_2)
  show ?thesis
    using set_node_addr_correct [OF small_nat_inv, of "\<lparr>ni_nid = 4, ni_ino = 4, ni_blk_addr = 5004, ni_version = 1, ni_flag = 0\<rparr>" 7000 True]
    by (simp add: l nat_view_def raw_nat_from_node_info_def legal_move_def NEW_ADDR_def NULL_ADDR_def moved_raw_def Let_def)
qed


end
