(* ===== verification/Nid_Lists.thy ===== *)
theory Nid_Lists
  imports Nat_Correct
begin

section \<open>Allocation of node ids\<close>

text \<open>
  The per-core lists of free node ids represent one map from node ids to their state: free,
  handed out, or not in the lists. Every operation on the lists updates that map at one node id
  and keeps the lists, the trees and the counters in step. \<open>alloc_nid\<close> hands out a node id that no
  other caller holds and no node uses; it returns as soon as the turn comes to a list that has one,
  and never when no list has one.
\<close>

subsection \<open>The lists as a map\<close>

abbreviation nid_list_count :: "nm_info \<Rightarrow> nat" where
  "nid_list_count nm \<equiv> length (percore_fcnt nm)"

abbreviation new_nids :: "(nat \<Rightarrow> nid_state option) \<Rightarrow> nat set" where
  "new_nids root \<equiv> {n. root n = Some NID_NEW}"

definition nid_list_ok :: "nat \<Rightarrow> nat \<Rightarrow> nat \<Rightarrow> (nat \<Rightarrow> nid_state option) \<Rightarrow> nat list \<Rightarrow> nat \<Rightarrow> bool" where
  "nid_list_ok mx ch i root l cnt \<longleftrightarrow>
     distinct l \<and> set l = dom root \<and> (\<forall>n \<in> dom root. n div ch = i \<and> 0 < n \<and> n < mx) \<and> cnt = card (new_nids root)"

definition nid_ok :: "nm_info \<Rightarrow> bool" where
  "nid_ok nm \<longleftrightarrow>
     length (free_nid_root nm) = nid_list_count nm \<and> length (free_nid_list nm) = nid_list_count nm \<and>
     0 < nid_list_count nm \<and> max_nid nm < 2 ^ 32 \<and> max_nid nm \<le> nid_list_count nm * nid_chunk nm \<and>
     (\<forall>i<nid_list_count nm.
        nid_list_ok (max_nid nm) (nid_chunk nm) i (free_nid_root nm ! i) (free_nid_list nm ! i) (percore_fcnt nm ! i))"

definition nid_map :: "nm_info \<Rightarrow> nat \<Rightarrow> nid_state option" where
  "nid_map nm n = (if n < max_nid nm then lookup_free_nid_list nm n else None)"

lemma new_nids_upd:
  assumes "finite (new_nids root)"
  shows "card (new_nids (root(n := so))) + (if root n = Some NID_NEW then 1 else 0) =
    card (new_nids root) + (if so = Some NID_NEW then 1 else 0)"
proof -
  have u: "new_nids (root(n := so)) = (if so = Some NID_NEW then insert n (new_nids root - {n}) else new_nids root - {n})" by auto
  have "card (new_nids root) = card (new_nids root - {n}) + (if n \<in> new_nids root then 1 else 0)"
    using card.remove [OF assms, of n] by auto
  then show ?thesis using assms card.insert [of "new_nids root - {n}" n] unfolding u by (simp del: insert_Diff_single)
qed

lemma nid_list_okD:
  assumes "nid_list_ok mx ch i root l cnt"
  shows "distinct l" "set l = dom root" "root n = Some st \<Longrightarrow> n div ch = i \<and> 0 < n \<and> n < mx" "cnt = card (new_nids root)"
    "finite (new_nids root)" "cnt < mx \<or> cnt = 0"
proof -
  show "distinct l" "set l = dom root" "root n = Some st \<Longrightarrow> n div ch = i \<and> 0 < n \<and> n < mx" "cnt = card (new_nids root)"
    using assms by (auto simp: nid_list_ok_def)
  have s: "new_nids root \<subseteq> {0<..<mx}" using assms by (auto simp: nid_list_ok_def)
  then show f: "finite (new_nids root)" using finite_subset by blast
  have "cnt \<le> card {0<..<mx}" using card_mono [OF _ s] assms by (simp add: nid_list_ok_def)
  then show "cnt < mx \<or> cnt = 0" by auto
qed

lemma nid_list_ok_upd:
  assumes "nid_list_ok mx ch i root l cnt" "n div ch = i" "0 < n" "n < mx"
    and "distinct l'" "set l' = dom (root(n := so))"
    and "cnt' + (if root n = Some NID_NEW then 1 else 0) = cnt + (if so = Some NID_NEW then 1 else 0)"
  shows "nid_list_ok mx ch i (root(n := so)) l' cnt'"
  using assms new_nids_upd [OF nid_list_okD(5) [OF assms(1)], of n so] unfolding nid_list_ok_def by auto

text \<open>Replacing one list, its tree and its counter.\<close>

definition put_list :: "nat \<Rightarrow> (nat \<Rightarrow> nid_state option) \<Rightarrow> nat list \<Rightarrow> nat \<Rightarrow> nm_info \<Rightarrow> nm_info" where
  "put_list i root l cnt nm =
     nm\<lparr>free_nid_root := (free_nid_root nm)[i := root], free_nid_list := (free_nid_list nm)[i := l],
        percore_fcnt := (percore_fcnt nm)[i := cnt]\<rparr>"

lemma LIST_IDX_lt: "nid_ok nm \<Longrightarrow> n < max_nid nm \<Longrightarrow> LIST_IDX n nm < nid_list_count nm"
  unfolding LIST_IDX_def nid_ok_def by (metis less_le_trans less_mult_imp_div_less)

lemma put_list_ok:
  assumes "nid_ok nm" "i < nid_list_count nm" "nid_list_ok (max_nid nm) (nid_chunk nm) i root l cnt"
  shows "nid_ok (put_list i root l cnt nm)"
  using assms by (auto simp: nid_ok_def put_list_def nth_list_update)

lemma put_list_map:
  assumes "nid_ok nm" "i < nid_list_count nm"
  shows "nid_map (put_list i root l cnt nm) = (\<lambda>n. if n < max_nid nm \<and> LIST_IDX n nm = i then root n else nid_map nm n)"
proof
  fix n
  show "nid_map (put_list i root l cnt nm) n = (if n < max_nid nm \<and> LIST_IDX n nm = i then root n else nid_map nm n)"
    using assms by (auto simp: nid_map_def put_list_def lookup_free_nid_list_def LIST_IDX_def nid_ok_def nth_list_update)
qed

text \<open>What the operations on the lists leave alone.\<close>

definition only_lists :: "nm_info \<Rightarrow> nm_info \<Rightarrow> bool" where
  "only_lists nm r \<longleftrightarrow> r\<lparr>free_nid_root := [], free_nid_list := [], percore_fcnt := []\<rparr> =
     nm\<lparr>free_nid_root := [], free_nid_list := [], percore_fcnt := []\<rparr> \<and> nid_list_count r = nid_list_count nm"

lemma only_lists_refl [simp]: "only_lists nm nm"
  by (simp add: only_lists_def)

lemma only_lists_trans: "only_lists nm q \<Longrightarrow> only_lists q r \<Longrightarrow> only_lists nm r"
  by (simp add: only_lists_def)

lemma only_lists_put [simp]: "only_lists nm (put_list i root l cnt nm)"
  by (simp add: only_lists_def put_list_def)

lemma only_listsD:
  assumes "only_lists nm r"
  shows "nat_view r = nat_view nm" "lookup_nat_cache r = lookup_nat_cache nm" "max_nid r = max_nid nm" "cursum r = cursum nm"
    "nm_need_fsck r = nm_need_fsck nm" "next_allocator r = next_allocator nm" "nid_list_count r = nid_list_count nm"
    "on_build r = on_build nm" "valid_node_count r = valid_node_count nm" "available_nids r = available_nids nm"
    "cache_inv r = cache_inv nm"
proof -
  obtain a b c where r: "r = nm\<lparr>free_nid_root := a, free_nid_list := b, percore_fcnt := c\<rparr>" "length c = nid_list_count nm"
    using assms by (cases nm; cases r) (auto simp: only_lists_def)
  have l: "lookup_nat_cache r = lookup_nat_cache nm" by (auto simp: r lookup_nat_cache_def TREE_IDX_def)
  have m: "on_media r = on_media nm"
    by (auto simp: r fun_eq_iff on_media_def nat_in_page_def get_current_nat_page_def current_nat_addr_def split: option.split)
  show "lookup_nat_cache r = lookup_nat_cache nm" by (fact l)
  show "nat_view r = nat_view nm" by (auto simp: nat_view_def fun_eq_iff l m split: option.split)
  show "max_nid r = max_nid nm" "cursum r = cursum nm" "nm_need_fsck r = nm_need_fsck nm" "next_allocator r = next_allocator nm"
    "nid_list_count r = nid_list_count nm" "on_build r = on_build nm" "valid_node_count r = valid_node_count nm"
    "available_nids r = available_nids nm"
    using r(2) by (simp_all add: r(1))
  have "trees_ok r = trees_ok nm" by (simp add: r(1) trees_ok_def)
  then show "cache_inv r = cache_inv nm" using l m by (simp add: cache_inv_def coherent_def)
qed

text \<open>One node id of one list changes its state.\<close>

lemma put_list_step:
  assumes "nid_ok nm" "0 < n" "n < max_nid nm" "i = LIST_IDX n nm"
    and "distinct l" "set l = dom ((free_nid_root nm ! i)(n := so))"
    and "cnt + (if nid_map nm n = Some NID_NEW then 1 else 0) = percore_fcnt nm ! i + (if so = Some NID_NEW then 1 else 0)"
  shows "nid_ok (put_list i ((free_nid_root nm ! i)(n := so)) l cnt nm)"
    "nid_map (put_list i ((free_nid_root nm ! i)(n := so)) l cnt nm) = (nid_map nm)(n := so)"
proof -
  have i: "i < nid_list_count nm" using LIST_IDX_lt [OF assms(1,3)] assms(4) by simp
  have ok: "nid_list_ok (max_nid nm) (nid_chunk nm) i (free_nid_root nm ! i) (free_nid_list nm ! i) (percore_fcnt nm ! i)"
    using assms(1) i by (simp add: nid_ok_def)
  have m: "nid_map nm n = (free_nid_root nm ! i) n" using assms(3,4) by (simp add: nid_map_def lookup_free_nid_list_def)
  show "nid_ok (put_list i ((free_nid_root nm ! i)(n := so)) l cnt nm)"
    using nid_list_ok_upd [OF ok _ assms(2,3,5,6)] assms(4,7) unfolding m
    by (intro put_list_ok [OF assms(1) i]) (simp add: LIST_IDX_def)
  show "nid_map (put_list i ((free_nid_root nm ! i)(n := so)) l cnt nm) = (nid_map nm)(n := so)"
    unfolding put_list_map [OF assms(1) i] using assms(3,4) by (auto simp: nid_map_def lookup_free_nid_list_def)
qed

lemma list_of_nid:
  assumes "nid_ok nm" "n < max_nid nm" "i = LIST_IDX n nm"
  shows "nid_list_ok (max_nid nm) (nid_chunk nm) i (free_nid_root nm ! i) (free_nid_list nm ! i) (percore_fcnt nm ! i)"
    "nid_map nm n = (free_nid_root nm ! i) n" "max_nid nm < 2 ^ 32"
  using assms LIST_IDX_lt [OF assms(1,2)] by (simp_all add: nid_ok_def nid_map_def lookup_free_nid_list_def)

lemma fcnt_pos:
  assumes "nid_ok nm" "nid_map nm n = Some NID_NEW" "i = LIST_IDX n nm"
  shows "0 < percore_fcnt nm ! i" "percore_fcnt nm ! i < 2 ^ 32" "0 < n" "n < max_nid nm"
proof -
  show n: "n < max_nid nm" using assms(2) by (auto simp: nid_map_def split: if_splits)
  note l = list_of_nid [OF assms(1) n assms(3)] note d = nid_list_okD [OF l(1)]
  have "n \<in> new_nids (free_nid_root nm ! i)" using assms(2) l(2) by simp
  then show "0 < percore_fcnt nm ! i" unfolding d(4) using d(5) card_gt_0_iff by blast
  show "percore_fcnt nm ! i < 2 ^ 32" using d(6) l(3) by auto
  show "0 < n" using d(3) [of n NID_NEW] assms(2) l(2) by simp
qed

subsection \<open>The operations\<close>

lemma add_free_nid_spec:
  assumes "nid_ok nm" "n < max_nid nm" "add_free_nid nm n b = (r, x)"
  shows "nid_ok r" "only_lists nm r" "r = nm \<or> (nid_map nm n = None \<and> 0 < n \<and> nid_map r = (nid_map nm)(n \<mapsto> NID_NEW) \<and>
      (b \<longrightarrow> (\<forall>e. lookup_nat_cache nm n = Some e \<longrightarrow> get_nat_flag e IS_CHECKPOINTED \<and> ni_blk_addr e = NULL_ADDR)))"
proof -
  have "nid_ok r \<and> only_lists nm r \<and> (r = nm \<or> (nid_map nm n = None \<and> 0 < n \<and> nid_map r = (nid_map nm)(n \<mapsto> NID_NEW) \<and>
      (b \<longrightarrow> (\<forall>e. lookup_nat_cache nm n = Some e \<longrightarrow> get_nat_flag e IS_CHECKPOINTED \<and> ni_blk_addr e = NULL_ADDR))))"
  proof (cases "r = nm")
    case False
    let ?i = "LIST_IDX n nm"
    have c: "0 < n" "nid_map nm n = None"
      "b \<longrightarrow> (\<forall>e. lookup_nat_cache nm n = Some e \<longrightarrow> get_nat_flag e IS_CHECKPOINTED \<and> ni_blk_addr e = NULL_ADDR)"
      "r = put_list ?i ((free_nid_root nm ! ?i)(n \<mapsto> NID_NEW)) (free_nid_list nm ! ?i @ [n]) (add32 (percore_fcnt nm ! ?i) 1) nm"
      using assms(2,3) False
      by (auto simp: add_free_nid_def nid_map_def Let_def put_list_def put_fcnt_def put_free_nid_def split: if_splits option.splits)
    note l = list_of_nid [OF assms(1,2) refl] note d = nid_list_okD [OF l(1)]
    have cnt: "add32 (percore_fcnt nm ! ?i) 1 = percore_fcnt nm ! ?i + 1" using d(6) l(3) assms(2) by auto
    have nin: "n \<notin> set (free_nid_list nm ! ?i)" using c(2) l(2) d(2) by auto
    note s = put_list_step [OF assms(1) c(1) assms(2) refl, of "free_nid_list nm ! ?i @ [n]" "Some NID_NEW" "percore_fcnt nm ! ?i + 1"]
    have "nid_ok r" "nid_map r = (nid_map nm)(n \<mapsto> NID_NEW)"
      unfolding c(4) cnt using s d(1,2) nin c(2) by simp_all
    then show ?thesis using c by simp
  qed (use assms in simp)
  then show "nid_ok r" "only_lists nm r" "r = nm \<or> (nid_map nm n = None \<and> 0 < n \<and> nid_map r = (nid_map nm)(n \<mapsto> NID_NEW) \<and>
      (b \<longrightarrow> (\<forall>e. lookup_nat_cache nm n = Some e \<longrightarrow> get_nat_flag e IS_CHECKPOINTED \<and> ni_blk_addr e = NULL_ADDR)))"
    by blast+
qed

lemma remove_free_nid_spec:
  assumes "nid_ok nm" "n < max_nid nm"
  shows "nid_ok (remove_free_nid nm n)" "only_lists nm (remove_free_nid nm n)"
    "nid_map (remove_free_nid nm n) = (nid_map nm)(n := if nid_map nm n = Some NID_NEW then None else nid_map nm n)"
proof -
  have "nid_ok (remove_free_nid nm n) \<and> only_lists nm (remove_free_nid nm n) \<and>
    nid_map (remove_free_nid nm n) = (nid_map nm)(n := if nid_map nm n = Some NID_NEW then None else nid_map nm n)"
  proof (cases "nid_map nm n = Some NID_NEW")
    case False
    then have "remove_free_nid nm n = nm" using assms by (simp add: remove_free_nid_def nid_map_def)
    then show ?thesis using assms False by simp
  next
    case True
    let ?i = "LIST_IDX n nm"
    note l = list_of_nid [OF assms refl] note d = nid_list_okD [OF l(1)] note p = fcnt_pos [OF assms(1) True refl]
    have r: "remove_free_nid nm n =
        put_list ?i ((free_nid_root nm ! ?i)(n := None)) (removeAll n (free_nid_list nm ! ?i)) (percore_fcnt nm ! ?i - 1) nm"
      using True assms(2) p(1,2) sub32_small [of 1 "percore_fcnt nm ! ?i"]
      by (auto simp: remove_free_nid_def nid_map_def Let_def put_list_def put_fcnt_def put_free_nid_def del_from_free_nid_list_def LIST_IDX_def)
    note s = put_list_step [OF assms(1) p(3) assms(2) refl, of "removeAll n (free_nid_list nm ! ?i)" None "percore_fcnt nm ! ?i - 1"]
    show ?thesis unfolding r using s d(1,2) True p(1) by (simp add: distinct_removeAll)
  qed
  then show "nid_ok (remove_free_nid nm n)" "only_lists nm (remove_free_nid nm n)"
    "nid_map (remove_free_nid nm n) = (nid_map nm)(n := if nid_map nm n = Some NID_NEW then None else nid_map nm n)" by blast+
qed

lemma alloc_nid_done_spec:
  assumes "nid_ok nm" "nid_map nm n = Some NID_ALLOC"
  shows "nid_ok (alloc_nid_done nm n)" "only_lists nm (alloc_nid_done nm n)" "nid_map (alloc_nid_done nm n) = (nid_map nm)(n := None)"
proof -
  let ?i = "LIST_IDX n nm"
  have n: "n < max_nid nm" using assms(2) by (auto simp: nid_map_def split: if_splits)
  note l = list_of_nid [OF assms(1) n refl] note d = nid_list_okD [OF l(1)]
  have p: "0 < n" using d(3) [of n NID_ALLOC] assms(2) l(2) by simp
  have r: "alloc_nid_done nm n = put_list ?i ((free_nid_root nm ! ?i)(n := None)) (removeAll n (free_nid_list nm ! ?i)) (percore_fcnt nm ! ?i) nm"
    using assms(2) n LIST_IDX_lt [OF assms(1) n]
    by (auto simp: alloc_nid_done_def del_from_free_nid_list_def put_free_nid_def Let_def put_list_def nid_map_def LIST_IDX_def)
  note s = put_list_step [OF assms(1) p n refl, of "removeAll n (free_nid_list nm ! ?i)" None "percore_fcnt nm ! ?i"]
  show "nid_ok (alloc_nid_done nm n)" "nid_map (alloc_nid_done nm n) = (nid_map nm)(n := None)" "only_lists nm (alloc_nid_done nm n)"
    unfolding r using s d(1,2) assms(2) by (simp_all add: distinct_removeAll)
qed

lemma alloc_nid_failed_spec:
  assumes "nid_ok nm" "nid_map nm n = Some NID_ALLOC"
  shows "nid_ok (alloc_nid_failed nm n)" "only_lists nm (alloc_nid_failed nm n)"
    "nid_map (alloc_nid_failed nm n) = (nid_map nm)(n := if nid_memory_available nm then Some NID_NEW else None)"
proof -
  let ?i = "LIST_IDX n nm"
  have n: "n < max_nid nm" using assms(2) by (auto simp: nid_map_def split: if_splits)
  note l = list_of_nid [OF assms(1) n refl] note d = nid_list_okD [OF l(1)]
  have p: "0 < n" using d(3) [of n NID_ALLOC] assms(2) l(2) by simp
  have "nid_ok (alloc_nid_failed nm n) \<and> only_lists nm (alloc_nid_failed nm n)
    \<and> nid_map (alloc_nid_failed nm n) = (nid_map nm)(n := if nid_memory_available nm then Some NID_NEW else None)"
  proof (cases "nid_memory_available nm")
    case False
    then have "alloc_nid_failed nm n = alloc_nid_done nm n"
      using p assms(2) n by (simp add: alloc_nid_failed_def alloc_nid_done_def Let_def nid_map_def)
    with alloc_nid_done_spec [OF assms] False show ?thesis by simp
  next
    case True
    have cnt: "add32 (percore_fcnt nm ! ?i) 1 = percore_fcnt nm ! ?i + 1" using d(6) l(3) n by auto
    have "free_nid_list nm = (free_nid_list nm)[?i := free_nid_list nm ! ?i]" by simp
    then have r: "alloc_nid_failed nm n = put_list ?i ((free_nid_root nm ! ?i)(n \<mapsto> NID_NEW)) (free_nid_list nm ! ?i) (percore_fcnt nm ! ?i + 1) nm"
      using assms(2) n True p cnt
      by (auto simp: alloc_nid_failed_def put_free_nid_def put_fcnt_def Let_def put_list_def nid_map_def LIST_IDX_def)
    have "set (free_nid_list nm ! ?i) = dom ((free_nid_root nm ! ?i)(n \<mapsto> NID_NEW))" using d(2) assms(2) l(2) by auto
    with put_list_step [OF assms(1) p n refl d(1) this, of "percore_fcnt nm ! ?i + 1"] assms(2) True
    show ?thesis unfolding r by simp
  qed
  then show "nid_ok (alloc_nid_failed nm n)" "only_lists nm (alloc_nid_failed nm n)"
    "nid_map (alloc_nid_failed nm n) = (nid_map nm)(n := if nid_memory_available nm then Some NID_NEW else None)" by blast+
qed

subsection \<open>Scanning the journal\<close>

definition journal_ok :: "nm_info \<Rightarrow> bool" where
  "journal_ok nm \<longleftrightarrow> n_nats (cursum nm) \<le> NAT_JOURNAL_ENTRIES \<and> length (nat_j (cursum nm)) = NAT_JOURNAL_ENTRIES \<and>
     (\<forall>i<n_nats (cursum nm). fst (nat_j (cursum nm) ! i) < max_nid nm \<and>
        (\<forall>j<n_nats (cursum nm). fst (nat_j (cursum nm) ! i) = fst (nat_j (cursum nm) ! j) \<longrightarrow> i = j))"

text \<open>A node id in the lists is free, both in the NAT and in what a checkpoint has written of it.\<close>

definition nids_free :: "nm_info \<Rightarrow> bool" where
  "nids_free nm \<longleftrightarrow> (\<forall>n. nid_map nm n = Some NID_NEW \<longrightarrow>
     raw_block_addr (nat_view nm n) = NULL_ADDR \<and> raw_block_addr (on_media nm n) = NULL_ADDR)"

lemma find_upt_unique:
  assumes "i < n" "P i" "\<And>j. j < n \<Longrightarrow> P j \<Longrightarrow> j = i"
  shows "find P [0..<n] = Some i"
proof -
  have "\<not> P j" if "j < i" for j using assms(1) assms(3) [of j] that by auto
  then show ?thesis using assms(1,2) unfolding find_Some_iff by (intro exI [of _ i]) simp
qed

lemma journal_at:
  assumes "journal_ok nm" "i < n_nats (cursum nm)" "nat_j (cursum nm) ! i = (n, ne)"
  shows "journal_get (cursum nm) n = Some ne" "on_media nm n = ne" "n < max_nid nm"
proof -
  have f: "find (\<lambda>j. fst (nat_j (cursum nm) ! j) = n) [0..<n_nats (cursum nm)] = Some i"
  proof (rule find_upt_unique [OF assms(2)])
    show "fst (nat_j (cursum nm) ! i) = n" by (simp add: assms(3))
    fix j assume "j < n_nats (cursum nm)" "fst (nat_j (cursum nm) ! j) = n"
    then show "j = i" using assms unfolding journal_ok_def by (metis fst_conv)
  qed
  then show "journal_get (cursum nm) n = Some ne" by (simp add: journal_get_def assms(3))
  then show "on_media nm n = ne" by (simp add: on_media_def)
  show "n < max_nid nm" using assms unfolding journal_ok_def by (metis fst_conv)
qed

lemma only_lists_media:
  assumes "only_lists nm r"
  shows "on_media r = on_media nm" "journal_ok r = journal_ok nm"
proof -
  obtain a b c where r: "r = nm\<lparr>free_nid_root := a, free_nid_list := b, percore_fcnt := c\<rparr>"
    using assms by (cases nm; cases r) (auto simp: only_lists_def)
  show "on_media r = on_media nm"
    by (auto simp: r fun_eq_iff on_media_def nat_in_page_def get_current_nat_page_def current_nat_addr_def split: option.split)
  show "journal_ok r = journal_ok nm" by (simp add: r journal_ok_def)
qed

text \<open>What a scan of the journal does to the lists.\<close>

definition refilled :: "nm_info \<Rightarrow> nm_info \<Rightarrow> bool" where
  "refilled nm r \<longleftrightarrow> nid_ok r \<and> only_lists nm r \<and> nids_free r \<and> journal_ok r \<and>
     (\<forall>n. nid_map nm n = Some NID_NEW \<longrightarrow> nid_map r n = Some NID_NEW) \<and>
     (\<forall>n. (nid_map r n = Some NID_ALLOC) = (nid_map nm n = Some NID_ALLOC))"

lemma refilled_refl: "nid_ok nm \<Longrightarrow> nids_free nm \<Longrightarrow> journal_ok nm \<Longrightarrow> refilled nm nm"
  by (simp add: refilled_def)

lemma refilled_step:
  assumes "refilled nm q" "i < n_nats (cursum nm)" "nat_j (cursum nm) ! i = (n, ne)"
  shows "refilled nm (if raw_block_addr ne = NULL_ADDR then fst (add_free_nid q n True) else remove_free_nid q n)"
proof -
  have q: "nid_ok q" "only_lists nm q" "nids_free q" "journal_ok q" using assms(1) by (simp_all add: refilled_def)
  have c: "cursum q = cursum nm" using only_listsD(4) [OF q(2)] .
  have m: "on_media q n = ne" "n < max_nid q" using journal_at [OF q(4)] assms(2,3) c by auto
  show ?thesis
  proof (cases "raw_block_addr ne = NULL_ADDR")
    case True
    obtain r x where r: "add_free_nid q n True = (r, x)" by fastforce
    note a = add_free_nid_spec [OF q(1) m(2) r]
    note k = only_listsD [OF a(2)] only_lists_media [OF a(2)]
    have "refilled nm r"
    proof (cases "r = q")
      case False
      then have d: "nid_map q n = None" "nid_map r = (nid_map q)(n \<mapsto> NID_NEW)"
        "\<forall>e. lookup_nat_cache q n = Some e \<longrightarrow> ni_blk_addr e = NULL_ADDR" using a(3) by simp_all
      have "raw_block_addr (nat_view q n) = NULL_ADDR"
        using d(3) m(1) True by (auto simp: nat_view_def raw_nat_from_node_info_def split: option.split)
      then have "nids_free r" using q(3) m(1) True by (auto simp: nids_free_def d(2) k)
      moreover have "nid_map nm n \<noteq> Some NID_ALLOC"
        using assms(1) d(1) unfolding refilled_def by (metis option.distinct(1))
      ultimately show ?thesis
        using assms(1) a(1) only_lists_trans [OF q(2) a(2)] q(4) k(13) by (simp add: refilled_def d(2))
    qed (use assms(1) in simp)
    then show ?thesis using True by (simp add: r)
  next
    case False
    note a = remove_free_nid_spec [OF q(1) m(2)]
    note k = only_listsD [OF a(2)] only_lists_media [OF a(2)]
    have "nid_map q n \<noteq> Some NID_NEW" using q(3) False m(1) by (auto simp: nids_free_def)
    then have e: "nid_map (remove_free_nid q n) = nid_map q" using a(3) by simp
    have "nids_free (remove_free_nid q n)" using q(3) by (simp add: nids_free_def e k)
    then show ?thesis
      using False assms(1) a(1) only_lists_trans [OF q(2) a(2)] q(4) k by (simp add: refilled_def e)
  qed
qed

lemma build_free_nids_refilled:
  assumes "nid_ok nm" "nids_free nm" "journal_ok nm"
  shows "refilled nm (build_free_nids nm)"
proof -
  let ?f = "\<lambda>i q. let (nid, ne) = nat_j (cursum q) ! i
     in if raw_block_addr ne = NULL_ADDR then fst (add_free_nid q nid True) else remove_free_nid q nid"
  have "refilled nm (fold ?f is q)" if "refilled nm q" "\<forall>i \<in> set is. i < n_nats (cursum nm)" for "is" q
    using that
  proof (induction "is" arbitrary: q)
    case (Cons i "is")
    have c: "cursum q = cursum nm" using only_listsD(4) Cons(2) by (auto simp: refilled_def)
    obtain n ne where j: "nat_j (cursum nm) ! i = (n, ne)" by fastforce
    have "refilled nm (?f i q)" using refilled_step [OF Cons(2) _ j] Cons(3) by (simp add: c j)
    then show ?case using Cons(1,3) by simp
  qed simp
  from this [OF refilled_refl [OF assms], of "[0..<n_nats (cursum nm)]"] show ?thesis by (simp add: build_free_nids_def)
qed

subsection \<open>Allocation\<close>

lemma find_new:
  assumes "nid_ok nm" "l < nid_list_count nm" "percore_fcnt nm ! l \<noteq> 0"
  shows "\<exists>n. find (\<lambda>n. lookup_free_nid_list nm n = Some NID_NEW) (free_nid_list nm ! l) = Some n
    \<and> nid_map nm n = Some NID_NEW \<and> LIST_IDX n nm = l \<and> free_nid_list nm ! l \<noteq> []"
proof -
  have ok: "nid_list_ok (max_nid nm) (nid_chunk nm) l (free_nid_root nm ! l) (free_nid_list nm ! l) (percore_fcnt nm ! l)"
    using assms(1,2) by (simp add: nid_ok_def)
  note d = nid_list_okD [OF ok]
  have idx: "LIST_IDX n nm = l \<and> n < max_nid nm" if "n \<in> set (free_nid_list nm ! l)" for n
    using that d(3) [of n] unfolding d(2) by (auto simp: LIST_IDX_def)
  obtain n where n: "(free_nid_root nm ! l) n = Some NID_NEW" using assms(3) d(4,5) by (auto simp: card_gt_0_iff)
  then have nl: "n \<in> set (free_nid_list nm ! l)" using d(2) by auto
  have "lookup_free_nid_list nm n = Some NID_NEW" using n idx [OF nl] by (simp add: lookup_free_nid_list_def)
  then have "find (\<lambda>n. lookup_free_nid_list nm n = Some NID_NEW) (free_nid_list nm ! l) \<noteq> None"
    using nl by (auto simp: find_None_iff)
  then obtain m where m: "find (\<lambda>n. lookup_free_nid_list nm n = Some NID_NEW) (free_nid_list nm ! l) = Some m" by auto
  then have "m \<in> set (free_nid_list nm ! l)" "lookup_free_nid_list nm m = Some NID_NEW"
    by (auto simp: find_Some_iff)
  then show ?thesis using m idx by (auto simp: nid_map_def)
qed

lemma take_nid_spec:
  assumes "nid_ok nm" "nid_map nm n = Some NID_NEW" "l = LIST_IDX n nm"
  shows "nid_ok (put_fcnt l (sub32 (percore_fcnt nm ! l) 1) (put_free_nid n (Some NID_ALLOC) nm))"
    "only_lists nm (put_fcnt l (sub32 (percore_fcnt nm ! l) 1) (put_free_nid n (Some NID_ALLOC) nm))"
    "nid_map (put_fcnt l (sub32 (percore_fcnt nm ! l) 1) (put_free_nid n (Some NID_ALLOC) nm)) = (nid_map nm)(n \<mapsto> NID_ALLOC)"
proof -
  note p = fcnt_pos [OF assms(1,2) assms(3)]
  note k = list_of_nid [OF assms(1) p(4) assms(3)] note d = nid_list_okD [OF k(1)]
  have "sub32 (percore_fcnt nm ! l) 1 = percore_fcnt nm ! l - 1" using p sub32_small [of 1 "percore_fcnt nm ! l"] by simp
  then have r: "put_fcnt l (sub32 (percore_fcnt nm ! l) 1) (put_free_nid n (Some NID_ALLOC) nm) =
      put_list l ((free_nid_root nm ! l)(n \<mapsto> NID_ALLOC)) (free_nid_list nm ! l) (percore_fcnt nm ! l - 1) nm"
    using assms(3) by (simp add: put_free_nid_def put_fcnt_def Let_def put_list_def)
  have "set (free_nid_list nm ! l) = dom ((free_nid_root nm ! l)(n \<mapsto> NID_ALLOC))" using d(2) assms(2) k(2) by auto
  note s = put_list_step [OF assms(1) p(3,4) assms(3) d(1) this, of "percore_fcnt nm ! l - 1"]
  show "nid_ok (put_fcnt l (sub32 (percore_fcnt nm ! l) 1) (put_free_nid n (Some NID_ALLOC) nm))"
    "only_lists nm (put_fcnt l (sub32 (percore_fcnt nm ! l) 1) (put_free_nid n (Some NID_ALLOC) nm))"
    "nid_map (put_fcnt l (sub32 (percore_fcnt nm ! l) 1) (put_free_nid n (Some NID_ALLOC) nm)) = (nid_map nm)(n \<mapsto> NID_ALLOC)"
    unfolding r using s assms(2) p(1) by simp_all
qed

text \<open>The result of a successful call.\<close>

definition handed_out :: "nm_info \<Rightarrow> nm_info \<Rightarrow> nat \<Rightarrow> bool" where
  "handed_out nm r n \<longleftrightarrow> nid_ok r \<and> nids_free r \<and> journal_ok r \<and> 0 < n \<and> n < max_nid nm \<and>
     nat_view r = nat_view nm \<and> nm_need_fsck r = nm_need_fsck nm \<and>
     raw_block_addr (nat_view nm n) = NULL_ADDR \<and> raw_block_addr (on_media nm n) = NULL_ADDR \<and>
     nid_map nm n \<noteq> Some NID_ALLOC \<and>
     (\<forall>m. (nid_map r m = Some NID_ALLOC) = (m = n \<or> nid_map nm m = Some NID_ALLOC))"

lemma turn_simps [simp]:
  "nid_ok (nm\<lparr>next_allocator := a\<rparr>) = nid_ok nm" "nid_map (nm\<lparr>next_allocator := a\<rparr>) = nid_map nm"
  "nid_ok (nm\<lparr>on_build := b\<rparr>) = nid_ok nm" "nid_map (nm\<lparr>on_build := b\<rparr>) = nid_map nm"
  "nat_view (nm\<lparr>next_allocator := a\<rparr>) = nat_view nm" "nat_view (nm\<lparr>on_build := b\<rparr>) = nat_view nm"
  "on_media (nm\<lparr>next_allocator := a\<rparr>) = on_media nm" "on_media (nm\<lparr>on_build := b\<rparr>) = on_media nm"
  "journal_ok (nm\<lparr>next_allocator := a\<rparr>) = journal_ok nm" "journal_ok (nm\<lparr>on_build := b\<rparr>) = journal_ok nm"
  "lookup_free_nid_list (nm\<lparr>next_allocator := a\<rparr>) = lookup_free_nid_list nm"
  "LIST_IDX n (nm\<lparr>next_allocator := a\<rparr>) = LIST_IDX n nm" "LIST_IDX n (nm\<lparr>on_build := b\<rparr>) = LIST_IDX n nm"
  by (auto simp: nid_ok_def nid_map_def fun_eq_iff lookup_free_nid_list_def LIST_IDX_def nat_view_def lookup_nat_cache_def TREE_IDX_def
      on_media_def nat_in_page_def get_current_nat_page_def current_nat_addr_def journal_ok_def split: option.split)

lemma turn_free [simp]: "nids_free (nm\<lparr>next_allocator := a\<rparr>) = nids_free nm" "nids_free (nm\<lparr>on_build := b\<rparr>) = nids_free nm"
  by (simp_all add: nids_free_def)

lemma s32_small: "0 \<le> x \<Longrightarrow> x < 2 ^ 31 \<Longrightarrow> s32 x = x"
  by (simp add: s32_def)

text \<open>A call whose turn is at list \<open>l\<close>.\<close>

definition turn :: "nm_info \<Rightarrow> nat" where
  "turn nm = nat ((next_allocator nm + 1) mod int (nid_list_count nm))"

definition alloc_ready :: "nm_info \<Rightarrow> bool" where
  "alloc_ready nm \<longleftrightarrow> nid_ok nm \<and> nids_free nm \<and> journal_ok nm \<and> valid_node_count nm \<le> int (sub32 (available_nids nm) 1) \<and>
     0 \<le> next_allocator nm"

lemma list_of_turn:
  assumes "alloc_ready nm" "next_allocator nm + 1 < 2 ^ 31"
  shows "s32 (next_allocator nm + 1) = next_allocator nm + 1"
    "c_rem (next_allocator nm + 1) (int (nid_list_count nm)) = int (turn nm)" "turn nm < nid_list_count nm"
proof -
  have L: "0 < int (nid_list_count nm)" using assms(1) by (simp add: alloc_ready_def nid_ok_def)
  note m = pos_mod_sign [OF L, of "next_allocator nm + 1"] pos_mod_bound [OF L, of "next_allocator nm + 1"]
  show "s32 (next_allocator nm + 1) = next_allocator nm + 1" using assms s32_small by (simp add: alloc_ready_def)
  show "c_rem (next_allocator nm + 1) (int (nid_list_count nm)) = int (turn nm)"
    using assms(1) unfolding turn_def c_rem_def int_nat_eq alloc_ready_def using m by simp
  show "turn nm < nid_list_count nm" unfolding turn_def using m by linarith
qed

lemma alloc_nid_hit:
  assumes "alloc_ready nm" "next_allocator nm + 1 < 2 ^ 31" "percore_fcnt nm ! turn nm \<noteq> 0" "\<not> on_build nm"
  shows "\<exists>r n. alloc_nid nm = Some (r, Nid n) \<and> handed_out nm r n"
proof -
  let ?q = "nm\<lparr>next_allocator := next_allocator nm + 1\<rparr>"
  have q: "nid_ok ?q" "nids_free ?q" "journal_ok ?q" using assms(1) by (simp_all add: alloc_ready_def)
  have L: "0 < nid_list_count nm" using q(1) by (simp add: nid_ok_def)
  note lt = list_of_turn [OF assms(1,2)]
  have l: "turn nm < nid_list_count ?q" using lt(3) by simp
  obtain n where n: "find (\<lambda>n. lookup_free_nid_list ?q n = Some NID_NEW) (free_nid_list ?q ! turn nm) = Some n"
    "nid_map ?q n = Some NID_NEW" "LIST_IDX n ?q = turn nm" "free_nid_list ?q ! turn nm \<noteq> []"
    using find_new [OF q(1) l] assms(3) by auto
  let ?r = "put_fcnt (turn nm) (sub32 (percore_fcnt ?q ! turn nm) 1) (put_free_nid n (Some NID_ALLOC) ?q)"
  note t = take_nid_spec [OF q(1) n(2) n(3) [symmetric]]
  have "alloc_nid nm = Some (?r, Nid n)"
    using assms L n(1,4) by (subst alloc_nid.simps) (simp add: alloc_ready_def lt(1,2) Let_def)
  moreover have "nids_free ?r"
    using q(2) unfolding nids_free_def t(3) only_listsD(1) [OF t(2)] only_lists_media(1) [OF t(2)] by simp
  moreover have "journal_ok ?r" using q(3) only_lists_media(2) [OF t(2)] by blast
  moreover have "raw_block_addr (nat_view nm n) = NULL_ADDR" "raw_block_addr (on_media nm n) = NULL_ADDR"
    using q(2) n(2) by (auto simp: nids_free_def)
  ultimately have "handed_out nm ?r n"
    using t(1) n(2) fcnt_pos(3,4) [OF q(1) n(2) refl] only_listsD(1,5) [OF t(2)] unfolding handed_out_def t(3) by simp
  with \<open>alloc_nid nm = Some (?r, Nid n)\<close> show ?thesis by blast
qed

definition retry :: "nm_info \<Rightarrow> nm_info" where
  "retry nm = (let q = nm\<lparr>next_allocator := next_allocator nm + 1, on_build := False\<rparr>
     in if percore_fcnt nm ! turn nm = 0 then build_free_nids q else q)"

lemma alloc_nid_miss:
  assumes "alloc_ready nm" "next_allocator nm + 1 < 2 ^ 31" "percore_fcnt nm ! turn nm = 0 \<or> on_build nm"
  shows "alloc_nid nm = alloc_nid (retry nm)"
proof -
  note lt = list_of_turn [OF assms(1,2)]
  show ?thesis
  proof (cases "percore_fcnt nm ! turn nm = 0")
    case True
    then show ?thesis using assms(1) by (subst alloc_nid.simps) (simp add: alloc_ready_def lt(1,2) Let_def retry_def)
  next
    case False
    then show ?thesis using assms(1,3) by (subst alloc_nid.simps) (simp add: alloc_ready_def lt(1,2) Let_def retry_def)
  qed
qed

lemma retry_spec:
  assumes "alloc_ready nm"
  shows "alloc_ready (retry nm)" "next_allocator (retry nm) = next_allocator nm + 1" "\<not> on_build (retry nm)"
    "nid_list_count (retry nm) = nid_list_count nm" "LIST_IDX k (retry nm) = LIST_IDX k nm"
    "nid_map nm k = Some NID_NEW \<Longrightarrow> nid_map (retry nm) k = Some NID_NEW" "handed_out (retry nm) r n \<Longrightarrow> handed_out nm r n"
proof -
  let ?q = "nm\<lparr>next_allocator := next_allocator nm + 1, on_build := False\<rparr>"
  have q: "nid_ok ?q" "nids_free ?q" "journal_ok ?q" using assms by (simp_all add: alloc_ready_def)
  have rf: "refilled ?q (retry nm)"
    using build_free_nids_refilled [OF q] refilled_refl [OF q] by (simp add: retry_def Let_def)
  then have ol: "only_lists ?q (retry nm)" by (simp add: refilled_def)
  note k = only_listsD [OF ol] only_lists_media [OF ol]
  show "alloc_ready (retry nm)" using assms rf k by (simp add: alloc_ready_def refilled_def)
  show "next_allocator (retry nm) = next_allocator nm + 1" "\<not> on_build (retry nm)" "nid_list_count (retry nm) = nid_list_count nm"
    using k by simp_all
  have "nid_chunk (retry nm) = nid_chunk nm" using ol by (cases nm; cases "retry nm") (auto simp: only_lists_def)
  then show "LIST_IDX k (retry nm) = LIST_IDX k nm" by (simp add: LIST_IDX_def)
  show "nid_map nm k = Some NID_NEW \<Longrightarrow> nid_map (retry nm) k = Some NID_NEW" using rf by (simp add: refilled_def)
  show "handed_out (retry nm) r n \<Longrightarrow> handed_out nm r n"
    using rf unfolding handed_out_def refilled_def k(1,3,5) k(12) by simp
qed

lemma alloc_nid_turn:
  assumes "alloc_ready nm" "\<not> on_build nm" "next_allocator nm + 1 + int t < 2 ^ 31"
    and "nid_map nm k = Some NID_NEW" "(next_allocator nm + 1 + int t) mod int (nid_list_count nm) = int (LIST_IDX k nm)"
  shows "\<exists>r n. alloc_nid nm = Some (r, Nid n) \<and> handed_out nm r n"
  using assms
proof (induction t arbitrary: nm)
  case 0
  have "0 < percore_fcnt nm ! LIST_IDX k nm" using fcnt_pos(1) [OF _ 0(4) refl] 0(1) by (simp add: alloc_ready_def)
  moreover have "turn nm = LIST_IDX k nm" using 0(5) by (simp add: turn_def)
  ultimately show ?case using alloc_nid_hit [OF 0(1) _ _ 0(2)] 0(3) by simp
next
  case (Suc t)
  show ?case
  proof (cases "percore_fcnt nm ! turn nm = 0")
    case True
    note s = retry_spec [OF Suc(2)]
    have "\<exists>r n. alloc_nid (retry nm) = Some (r, Nid n) \<and> handed_out (retry nm) r n"
    proof (rule Suc.IH [OF s(1,3) _ s(6) [OF Suc(5)]])
      have e: "next_allocator (retry nm) + 1 + int t = next_allocator nm + 1 + int (Suc t)" using s(2) by simp
      show "next_allocator (retry nm) + 1 + int t < 2 ^ 31" unfolding e by (fact Suc(4))
      show "(next_allocator (retry nm) + 1 + int t) mod int (nid_list_count (retry nm)) = int (LIST_IDX k (retry nm))"
        unfolding e s(4,5) by (fact Suc(6))
    qed
    moreover have "alloc_nid nm = alloc_nid (retry nm)" using alloc_nid_miss [OF Suc(2)] True Suc(4) by simp
    ultimately show ?thesis using s(7) by metis
  next
    case False
    with alloc_nid_hit [OF Suc(2) _ False Suc(3)] Suc(4) show ?thesis by simp
  qed
qed

text \<open>
  C4: while a node id is free and fewer nodes exist than the volume can hold, \<open>alloc_nid\<close> returns,
  whichever list has the node id, as long as the counter of turns is not about to overflow. What it
  returns is a node id that nobody holds, that no node uses and that the last checkpoint does not
  use; it is marked as handed out, and no other node id changes hands.
\<close>
theorem alloc_nid_returns:
  assumes "alloc_ready nm" "nid_map nm k = Some NID_NEW" "next_allocator nm + 2 + int (nid_list_count nm) < 2 ^ 31"
  shows "\<exists>r n. alloc_nid nm = Some (r, Nid n) \<and> handed_out nm r n"
proof -
  have turn: "\<exists>r n. alloc_nid q = Some (r, Nid n) \<and> handed_out q r n"
    if q: "alloc_ready q" "\<not> on_build q" "nid_map q k = Some NID_NEW" "next_allocator q + 1 + int (nid_list_count q) < 2 ^ 31" for q
  proof -
    have ok: "nid_ok q" using q(1) by (simp add: alloc_ready_def)
    have L: "LIST_IDX k q < nid_list_count q" using LIST_IDX_lt [OF ok fcnt_pos(4) [OF ok q(3) refl]] .
    then have Lp: "0 < int (nid_list_count q)" by linarith
    define t where "t = nat ((int (LIST_IDX k q) - (next_allocator q + 1)) mod int (nid_list_count q))"
    have t: "int t = (int (LIST_IDX k q) - (next_allocator q + 1)) mod int (nid_list_count q)" unfolding t_def int_nat_eq
      by (simp only: pos_mod_sign [OF Lp] if_True)
    have lt: "int t < int (nid_list_count q)" unfolding t using pos_mod_bound [OF Lp] .
    have "(next_allocator q + 1 + int t) mod int (nid_list_count q) = int (LIST_IDX k q) mod int (nid_list_count q)"
      unfolding t mod_add_right_eq by simp
    also have "\<dots> = int (LIST_IDX k q)" using L by simp
    finally have e: "(next_allocator q + 1 + int t) mod int (nid_list_count q) = int (LIST_IDX k q)" .
    have "next_allocator q + 1 + int t < 2 ^ 31" using lt q(4) by linarith
    from alloc_nid_turn [OF q(1,2) this q(3) e] show ?thesis .
  qed
  show ?thesis
  proof (cases "on_build nm")
    case False
    then show ?thesis using turn [OF assms(1) False assms(2)] assms(3) by simp
  next
    case True
    note s = retry_spec [OF assms(1)]
    have "\<exists>r n. alloc_nid (retry nm) = Some (r, Nid n) \<and> handed_out (retry nm) r n"
      using turn [OF s(1,3) s(6) [OF assms(2)]] s(2,4) assms(3) by simp
    moreover have "alloc_nid nm = alloc_nid (retry nm)" using alloc_nid_miss [OF assms(1)] True assms(3) by simp
    ultimately show ?thesis using s(7) by metis
  qed
qed

lemma small_nat_ready: "alloc_ready small_nat" "nid_map small_nat 500 = Some NID_NEW" "next_allocator small_nat = 0"
  "nid_list_count small_nat = 2"
proof -
  have c: "{n. n \<noteq> (7::nat) \<longrightarrow> n = 8} = {7, 8}" by auto
  have ok: "nid_ok small_nat"
    by (auto simp: nid_ok_def small_nat_def nid_list_ok_def less_Suc_eq c split: if_splits)
  have n: "n = 7 \<or> n = 8 \<or> n = 500" if "nid_map small_nat n = Some NID_NEW" for n
    using that by (auto simp: nid_map_def small_nat_def lookup_free_nid_list_def LIST_IDX_def nth_Cons' split: if_splits)
  have m: "on_media small_nat n = raw0" "lookup_nat_cache small_nat n = None" if "n = 7 \<or> n = 8 \<or> n = 500" for n
    using that by (auto simp: on_media_def journal_get_def small_nat_def nat_in_page_def get_current_nat_page_def START_NID_def
        NAT_ENTRY_PER_BLOCK_def lookup_nat_cache_def TREE_IDX_def small_tree_def simp flip: numeral_2_eq_2)
  have "nids_free small_nat" using n m by (fastforce simp: nids_free_def nat_view_def raw0_def NULL_ADDR_def)
  moreover have "journal_ok small_nat" by (simp add: journal_ok_def small_nat_def NAT_JOURNAL_ENTRIES_def)
  ultimately show "alloc_ready small_nat" using ok by (simp add: alloc_ready_def small_nat_def sub32_def)
  show "nid_map small_nat 500 = Some NID_NEW" "next_allocator small_nat = 0" "nid_list_count small_nat = 2"
    by (simp_all add: nid_map_def small_nat_def lookup_free_nid_list_def LIST_IDX_def)
qed

theorem alloc_nid_returns_witness: "\<exists>r n. alloc_nid small_nat = Some (r, Nid n) \<and> handed_out small_nat r n"
  using alloc_nid_returns [OF small_nat_ready(1,2)] small_nat_ready(3,4) by simp

subsection \<open>Starvation\<close>

text \<open>No list has a free node id, and the journal has no free one to add.\<close>

definition drained :: "nm_info \<Rightarrow> bool" where
  "drained nm \<longleftrightarrow> nid_ok nm \<and> (\<forall>n. nid_map nm n \<noteq> Some NID_NEW) \<and> valid_node_count nm \<le> int (sub32 (available_nids nm) 1) \<and>
     (\<forall>i<n_nats (cursum nm). fst (nat_j (cursum nm) ! i) < max_nid nm \<and> raw_block_addr (snd (nat_j (cursum nm) ! i)) \<noteq> NULL_ADDR)"

lemma drained_fcnt:
  assumes "drained nm" "l < nid_list_count nm"
  shows "percore_fcnt nm ! l = 0"
  using find_new [of nm l] assms by (auto simp: drained_def)

lemma drained_build:
  assumes "drained nm"
  shows "build_free_nids nm = nm"
proof -
  let ?f = "\<lambda>i q. let (nid, ne) = nat_j (cursum q) ! i
     in if raw_block_addr ne = NULL_ADDR then fst (add_free_nid q nid True) else remove_free_nid q nid"
  have "fold ?f is nm = nm" if "\<forall>i \<in> set is. i < n_nats (cursum nm)" for "is"
    using that
  proof (induction "is")
    case (Cons i "is")
    obtain n ne where j: "nat_j (cursum nm) ! i = (n, ne)" by fastforce
    have "n < max_nid nm" "raw_block_addr ne \<noteq> NULL_ADDR" using assms Cons(2) j by (auto simp: drained_def dest!: spec [of _ i])
    moreover have "lookup_free_nid_list nm n \<noteq> Some NID_NEW" 
      using assms calculation(1) unfolding drained_def nid_map_def by (metis (full_types))
    ultimately have "?f i nm = nm" by (simp add: j remove_free_nid_def)
    then show ?case using Cons by simp
  qed simp
  then show ?thesis by (simp add: build_free_nids_def)
qed

lemma c_rem_lt:
  assumes "0 < b"
  shows "c_rem a b < b"
proof (cases "0 \<le> a")
  case False
  have "- ((- a) mod b) \<le> 0" unfolding neg_le_0_iff_le by (rule pos_mod_sign [OF assms])
  with False assms show ?thesis unfolding c_rem_def by (simp only: if_False)
qed (use pos_mod_bound [OF assms] in \<open>simp add: c_rem_def\<close>)

lemma alloc_nid_drained:
  assumes "alloc_nid nm = Some y"
  shows "drained nm \<longrightarrow> (\<exists>i<0. snd y = Wild_index i)"
  using _ assms
proof (rule alloc_nid.raw_induct, goal_cases)
  case (1 alloc nm y)
  show ?case
  proof
    assume d: "drained nm"
    let ?q = "nm\<lparr>next_allocator := s32 (next_allocator nm + 1)\<rparr>"
    let ?id = "c_rem (next_allocator ?q) (int (nid_list_count ?q))"
    show "\<exists>i<0. snd y = Wild_index i"
    proof (cases "?id < 0")
      case True
      then show ?thesis using 1(2) d by (auto simp: drained_def Let_def)
    next
      case False
      have L: "0 < int (nid_list_count nm)" using d by (simp add: drained_def nid_ok_def)
      have "?id < int (nid_list_count nm)" using c_rem_lt [OF L] by simp
      then have "percore_fcnt nm ! nat ?id = 0" using drained_fcnt [OF d] False by simp
      moreover have dq: "drained (?q\<lparr>on_build := False\<rparr>)" using d by (simp add: drained_def)
      ultimately have "alloc (?q\<lparr>on_build := False\<rparr>) = Some y"
        using 1(2) d False drained_build [OF dq] by (simp add: drained_def Let_def)
      from 1(1) [OF this] dq show ?thesis by simp
    qed
  qed
qed


definition drained_nat :: nm_info where
  "drained_nat = small_nat\<lparr>free_nid_root := [\<lambda>_. None, \<lambda>_. None], free_nid_list := [[], []], percore_fcnt := [0, 0]\<rparr>"


end
