(* ===== verification/Nid_Mount.thy ===== *)
theory Nid_Mount
  imports Nid_Lists
begin

section \<open>Mounting the node manager\<close>

text \<open>
  \<open>build_node_manager\<close> starts with an empty cache and empty lists, scans the NAT area for free node
  ids and then corrects the lists by the journal. The result satisfies the invariants that the
  operations keep: of the cache, of the lists, and that a listed node id is free.
\<close>

lemma init_node_manager_inv:
  fixes cpus :: nat
  assumes "0 < cpus" "NAT_ENTRY_PER_BLOCK * (segs div 2 * 2 ^ lb) + 2 < 2 ^ 32"
    and "r = init_node_manager addr segs lb cpus cells nfree bm nm"
  shows "nid_ok r" "nid_map r = (\<lambda>_. None)" "cache_inv r" "lookup_nat_cache r = (\<lambda>_. None)" "cursum r = cursum nm" "nat_area r = nat_area nm"
    "max_nid r = NAT_ENTRY_PER_BLOCK * (segs div 2 * 2 ^ lb)" "nat_view r = on_media r" "next_scan_nid r = nfree" "nm_need_fsck r = nm_need_fsck nm"
    "0 \<le> next_allocator r" "next_allocator r < int cpus" "\<not> on_build r"
proof -
  have small: "segs div 2 * 2 ^ lb mod 2 ^ 32 = segs div 2 * 2 ^ lb"
    "NAT_ENTRY_PER_BLOCK * (segs div 2 * 2 ^ lb) mod 2 ^ 32 = NAT_ENTRY_PER_BLOCK * (segs div 2 * 2 ^ lb)"
    using assms(2) by (simp_all add: NAT_ENTRY_PER_BLOCK_def)
  define mx where "mx = NAT_ENTRY_PER_BLOCK * (segs div 2 * 2 ^ lb)"
  define ch where "ch = add32 (add32 mx 1 div cpus) 1"
  have mx: "mx + 2 < 2 ^ 32" using assms(2) by (simp add: mx_def)
  have "(mx + 1) div cpus \<le> mx + 1" by simp
  then have "(mx + 1) div cpus + 1 < 2 ^ 32" using mx by linarith
  then have ch: "ch = (mx + 1) div cpus + 1" using mx by (simp add: ch_def)
  have "mx + 1 < cpus * ch" unfolding ch using assms(1) by (simp add: dividend_less_times_div)
  then have le: "mx \<le> cpus * ch" by simp
  have f: "max_nid r = mx" "nid_chunk r = ch" "free_nid_root r = replicate cpus (\<lambda>_. None)" "free_nid_list r = replicate cpus []"
    "percore_fcnt r = replicate cpus 0" "nat_trees r = replicate (if cells > 0 then cells else cpus) empty_nat_tree"
    using assms(3) small by (simp_all add: init_node_manager_def Let_def mx_def ch_def)
  show "nid_ok r" using assms(1) mx le by (simp add: nid_ok_def f nid_list_ok_def)
  have "LIST_IDX n r < cpus" if "n < mx" for n
    using that le unfolding LIST_IDX_def f(2) by (metis less_le_trans less_mult_imp_div_less)
  then show "nid_map r = (\<lambda>_. None)" by (auto simp: nid_map_def f lookup_free_nid_list_def)
  have i: "TREE_IDX n r < nat_tree_cnt r" for n using assms(1) by (simp add: TREE_IDX_def f(6))
  then show l: "lookup_nat_cache r = (\<lambda>_. None)" by (auto simp: lookup_nat_cache_def f(6) empty_nat_tree_def)
  have "tree_ok mx c i empty_nat_tree" for c i
    by (simp add: tree_ok_def empty_nat_tree_def tree_clean_def tree_dirty_def set_ok_def)
  then show "cache_inv r" using assms(1) mx l by (simp add: cache_inv_def trees_ok_def coherent_def f)
  show "nat_view r = on_media r" by (simp add: nat_view_def fun_eq_iff l)
  show "max_nid r = NAT_ENTRY_PER_BLOCK * (segs div 2 * 2 ^ lb)" by (simp add: f mx_def)
  show "cursum r = cursum nm" "nat_area r = nat_area nm" "next_scan_nid r = nfree" "nm_need_fsck r = nm_need_fsck nm"
    "0 \<le> next_allocator r" "next_allocator r < int cpus" "\<not> on_build r"
    using assms(1) by (simp_all add: assms(3) init_node_manager_def Let_def)
qed

subsection \<open>The scan of the NAT area\<close>

definition free_in_page :: "nm_info \<Rightarrow> nat \<Rightarrow> bool" where
  "free_in_page nm n \<longleftrightarrow> raw_block_addr (nat_in_page nm n) = NULL_ADDR"

definition scanned :: "nm_info \<Rightarrow> nm_info \<Rightarrow> bool" where
  "scanned nm r \<longleftrightarrow> nid_ok r \<and> only_lists nm r \<and> (\<forall>n st. nid_map r n = Some st \<longrightarrow> st = NID_NEW \<and> free_in_page nm n)"

text \<open>The blocks of the NAT area are full and hold no address of a node that was never written.\<close>

definition nat_area_ok :: "nm_info \<Rightarrow> bool" where
  "nat_area_ok nm \<longleftrightarrow> (\<forall>a. length (nat_area nm a) = NAT_ENTRY_PER_BLOCK \<and> (\<forall>e \<in> set (nat_area nm a). raw_block_addr e \<noteq> NEW_ADDR))"

lemma add_scanned:
  assumes "scanned nm q" "n < max_nid nm" "free_in_page nm n"
  shows "scanned nm (fst (add_free_nid q n b))"
proof -
  have q: "nid_ok q" "only_lists nm q" using assms(1) by (simp_all add: scanned_def)
  obtain r x where r: "add_free_nid q n b = (r, x)" by fastforce
  have "n < max_nid q" using assms(2) only_listsD(3) [OF q(2)] by simp
  note a = add_free_nid_spec [OF q(1) this r]
  show ?thesis using assms(1,3) a(1,3) only_lists_trans [OF q(2) a(2)] by (auto simp: scanned_def r split: if_splits)
qed

lemma scan_entries_scanned:
  assumes "scanned nm q" "\<forall>k<length nes. nes ! k = nat_in_page nm (start + k)" "\<forall>e \<in> set nes. raw_block_addr e \<noteq> NEW_ADDR"
  shows "scanned nm (scan_nat_entries nes start q)"
  using assms
proof (induction nes arbitrary: start q)
  case (Cons ne nes)
  have mx: "max_nid q = max_nid nm" using Cons.prems(1) only_listsD(3) [of nm q] by (simp add: scanned_def)
  have ne: "ne = nat_in_page nm start" using Cons.prems(2) by (auto dest!: spec [of _ 0])
  have "nes ! k = nat_in_page nm (Suc start + k)" if "k < length nes" for k using Cons.prems(2) that by (auto dest!: spec [of _ "Suc k"])
  then have IH: "scanned nm (scan_nat_entries nes (Suc start) q')" if "scanned nm q'" for q'
    using Cons.IH [OF that] Cons.prems(3) by auto
  have nn: "raw_block_addr ne \<noteq> NEW_ADDR" using Cons.prems(3) by simp
  obtain r x where r: "add_free_nid q start True = (r, x)" by fastforce
  have "scanned nm r" if "start < max_nid q" "raw_block_addr ne = NULL_ADDR"
    using add_scanned [OF Cons.prems(1), of start True] that ne mx r by (simp add: free_in_page_def)
  then show ?case using IH [of r] IH [OF Cons.prems(1)] Cons.prems(1) nn by (auto simp: Let_def r)
qed simp

lemma page_entry:
  assumes "nat_area_ok nm" "k < NAT_ENTRY_PER_BLOCK - n mod NAT_ENTRY_PER_BLOCK"
  shows "drop (n mod NAT_ENTRY_PER_BLOCK) (get_current_nat_page nm n) ! k = nat_in_page nm (n + k)"
proof -
  let ?E = NAT_ENTRY_PER_BLOCK
  have E: "0 < ?E" by (simp add: NAT_ENTRY_PER_BLOCK_def)
  have lt: "n mod ?E + k < ?E" using assms(2) by linarith
  have "n + k = n div ?E * ?E + (n mod ?E + k)" by simp
  then have d: "(n + k) div ?E = n div ?E" using lt E by (metis add.commute add_cancel_right_right div_less div_mult_self3 less_numeral_extra(3))
  have "n + k - START_NID (n + k) = n mod ?E + k"
    unfolding START_NID_def d by (metis add_diff_cancel_left' \<open>n + k = n div ?E * ?E + (n mod ?E + k)\<close>)
  moreover have "NAT_BLOCK_OFFSET (START_NID (n + k)) = NAT_BLOCK_OFFSET n" using E by (simp add: NAT_BLOCK_OFFSET_def START_NID_def d)
  then have "get_current_nat_page nm (START_NID (n + k)) = get_current_nat_page nm n"
    by (simp add: get_current_nat_page_def current_nat_addr_def)
  moreover have "length (get_current_nat_page nm n) = ?E" using assms(1) by (simp add: nat_area_ok_def get_current_nat_page_def)
  ultimately show ?thesis using lt by (simp add: nat_in_page_def)
qed

lemma scan_page_scanned:
  assumes "scanned nm q" "nat_area_ok nm"
  shows "scanned nm (scan_nat_page q (get_current_nat_page q n) n)"
proof -
  have "only_lists nm q" using assms(1) by (simp add: scanned_def)
  then obtain a b c where "q = nm\<lparr>free_nid_root := a, free_nid_list := b, percore_fcnt := c\<rparr>"
    by (cases nm; cases q) (auto simp: only_lists_def)
  then have p: "get_current_nat_page q n = get_current_nat_page nm n" by (simp add: get_current_nat_page_def current_nat_addr_def)
  have ln: "length (get_current_nat_page nm n) = NAT_ENTRY_PER_BLOCK" "\<forall>e \<in> set (get_current_nat_page nm n). raw_block_addr e \<noteq> NEW_ADDR"
    using assms(2) by (simp_all add: nat_area_ok_def get_current_nat_page_def)
  show ?thesis
    unfolding scan_nat_page_def p
  proof (rule scan_entries_scanned [OF assms(1)])
    show "\<forall>k<length (drop (n mod NAT_ENTRY_PER_BLOCK) (take NAT_ENTRY_PER_BLOCK (get_current_nat_page nm n))).
        drop (n mod NAT_ENTRY_PER_BLOCK) (take NAT_ENTRY_PER_BLOCK (get_current_nat_page nm n)) ! k = nat_in_page nm (n + k)"
      using page_entry [OF assms(2)] ln(1) by (simp del: nth_drop)
    show "\<forall>e\<in>set (drop (n mod NAT_ENTRY_PER_BLOCK) (take NAT_ENTRY_PER_BLOCK (get_current_nat_page nm n))). raw_block_addr e \<noteq> NEW_ADDR"
      using ln by (auto dest!: in_set_dropD)
  qed
qed

lemma scan_area_scanned: "scanned nm q \<Longrightarrow> nat_area_ok nm \<Longrightarrow> scanned nm (scan_nat_area k n q)"
  by (induction k n q rule: scan_nat_area.induct) (simp_all add: Let_def scan_page_scanned)

subsection \<open>The correction by the journal\<close>

definition corrected :: "nm_info \<Rightarrow> nat \<Rightarrow> nm_info \<Rightarrow> bool" where
  "corrected nm i r \<longleftrightarrow> nid_ok r \<and> only_lists nm r \<and>
     (\<forall>n st. nid_map r n = Some st \<longrightarrow> st = NID_NEW \<and>
        (if \<exists>j<i. fst (nat_j (cursum nm) ! j) = n then raw_block_addr (on_media nm n) = NULL_ADDR else free_in_page nm n))"

lemma journal_corrected:
  assumes "corrected nm i q" "journal_ok nm" "i < n_nats (cursum nm)"
  shows "corrected nm (Suc i) (let (nid, ne) = nat_j (cursum q) ! i
     in if raw_block_addr ne = NULL_ADDR then fst (add_free_nid q nid True) else remove_free_nid q nid)"
proof -
  have q: "nid_ok q" "only_lists nm q" using assms(1) by (simp_all add: corrected_def)
  obtain n ne where j: "nat_j (cursum nm) ! i = (n, ne)" by fastforce
  note m = journal_at [OF assms(2,3) j]
  have nq: "n < max_nid q" using m(3) only_listsD(3) [OF q(2)] by simp
  have c: "cursum q = cursum nm" using only_listsD(4) [OF q(2)] .
  have ex: "(\<exists>k<Suc i. fst (nat_j (cursum nm) ! k) = x) = ((\<exists>k<i. fst (nat_j (cursum nm) ! k) = x) \<or> x = n)" for x
    using j by (auto simp: less_Suc_eq)
  show ?thesis
  proof (cases "raw_block_addr ne = NULL_ADDR")
    case True
    obtain r x where r: "add_free_nid q n True = (r, x)" by fastforce
    note a = add_free_nid_spec [OF q(1) nq r]
    show ?thesis
      using a(1,3) only_lists_trans [OF q(2) a(2)] assms(1) True m(2)
      by (auto simp: c j r corrected_def ex split: if_splits)
  next
    case False
    note a = remove_free_nid_spec [OF q(1) nq]
    have "nid_map q n = Some NID_NEW \<or> nid_map q n = None" using assms(1) unfolding corrected_def by (metis option.exhaust)
    then have "nid_map (remove_free_nid q n) = (nid_map q)(n := None)" using a(3) by auto
    then show ?thesis
      using a(1) only_lists_trans [OF q(2) a(2)] assms(1) False
      by (auto simp: c j corrected_def ex split: if_splits)
  qed
qed

lemma build_corrected:
  assumes "corrected nm 0 q" "journal_ok nm" "only_lists nm q"
  shows "corrected nm (n_nats (cursum nm)) (build_free_nids q)"
proof -
  let ?f = "\<lambda>i q. let (nid, ne) = nat_j (cursum q) ! i
     in if raw_block_addr ne = NULL_ADDR then fst (add_free_nid q nid True) else remove_free_nid q nid"
  have "i \<le> n_nats (cursum nm) \<Longrightarrow> corrected nm i (fold ?f [0..<i] q)" for i
    by (induction i) (use assms(1) journal_corrected [OF _ assms(2)] in auto)
  then show ?thesis using only_listsD(4) [OF assms(3)] by (simp add: build_free_nids_def)
qed

text \<open>
  C26: mounting a volume establishes the invariants of the cache and of the free lists, whatever the
  number of CPUs and file cells and however little memory there is for the lists: the NAT is that of
  the medium, and every node id in the lists is free.
\<close>
theorem build_node_manager_ok:
  assumes "0 < cpus" "NAT_ENTRY_PER_BLOCK * (segs div 2 * 2 ^ lb) + 2 < 2 ^ 32"
    and "q = init_node_manager addr segs lb cpus cells nfree bm nm" "nat_area_ok q" "journal_ok q"
    and "r = build_node_manager addr segs lb cpus cells nfree bm nm"
  shows "cache_inv r \<and> nid_ok r \<and> nids_free r \<and> journal_ok r \<and> nat_view r = on_media q \<and> 0 \<le> next_allocator r \<and> \<not> on_build r
    \<and> nm_need_fsck r = nm_need_fsck nm"
proof -
  note i = init_node_manager_inv [OF assms(1-3)]
  have "scanned q q" using i(1,2) by (simp add: scanned_def)
  from scan_area_scanned [OF this assms(4)]
  have s: "scanned q (scan_nat_area k n q)" for k n .
  then have c: "corrected q 0 (scan_nat_area k n q)" "only_lists q (scan_nat_area k n q)" for k n
    by (simp_all add: scanned_def corrected_def)
  have b: "corrected q (n_nats (cursum q)) r"
    unfolding assms(6) build_node_manager_def assms(3) [symmetric] build_all_free_nids_def Let_def
    by (rule build_corrected [OF c(1) assms(5) c(2)])
  then have ol: "nid_ok r" "only_lists q r" by (simp_all add: corrected_def)
  note k = only_listsD [OF ol(2)] only_lists_media [OF ol(2)]
  have "raw_block_addr (on_media q n) = NULL_ADDR" if "nid_map r n = Some NID_NEW" for n
  proof (cases "\<exists>j<n_nats (cursum q). fst (nat_j (cursum q) ! j) = n")
    case True
    then show ?thesis using b that by (auto simp: corrected_def)
  next
    case False
    then have "journal_get (cursum q) n = None" by (auto simp: journal_get_def find_None_iff)
    moreover have "free_in_page q n" using b that False by (auto simp: corrected_def)
    ultimately show ?thesis by (simp add: on_media_def free_in_page_def)
  qed
  then have "nids_free r" by (simp add: nids_free_def k i(8))
  then show ?thesis using ol(1) k i assms(5) by simp
qed

text \<open>A volume with one pair of NAT segments, two CPUs and the journal of \<open>small_nat\<close>.\<close>

theorem build_node_manager_ok_witness:
  "let r = build_node_manager 1024 2 0 2 0 4 [0] small_nat in cache_inv r \<and> nid_ok r \<and> nids_free r"
proof -
  let ?q = "init_node_manager 1024 2 0 2 0 4 [0] small_nat"
  have b: "NAT_ENTRY_PER_BLOCK * (2 div 2 * 2 ^ 0) + 2 < (2 ^ 32 :: nat)" by (simp add: NAT_ENTRY_PER_BLOCK_def)
  have i: "nat_area ?q = nat_area small_nat" "cursum ?q = cursum small_nat" "max_nid ?q = 455"
    by (simp_all add: init_node_manager_def Let_def NAT_ENTRY_PER_BLOCK_def)
  have "nat_area_ok ?q" unfolding nat_area_ok_def i(1)
    by (auto simp: small_nat_def NAT_ENTRY_PER_BLOCK_def raw0_def NEW_ADDR_def dest!: set_update_subset_insert [THEN subsetD])
  moreover have "journal_ok ?q" unfolding journal_ok_def i(2,3) by (simp add: small_nat_def NAT_JOURNAL_ENTRIES_def)
  ultimately show ?thesis
    using build_node_manager_ok [OF _ b refl, of 2 1024 0 4 "[0]" small_nat] by (simp add: Let_def)
qed

end
