(* ===== verification/Shadow.thy ===== *)
theory Shadow
  imports Natcache Sit
begin

section \<open>Areas with two copies of every block\<close>

text \<open>
  The NAT and the SIT keep two copies of each of their blocks and a bitmap that tells which copy is
  current. A checkpoint writes changed blocks to the other copy and flips their bits, so that the
  copies the last checkpoint refers to stay as they are until the next one is complete. The
  interface is that of the address functions of \<open>node.h\<close> and \<open>segment.h\<close>.
\<close>

locale shadow_area =
  fixes cur :: "'s \<Rightarrow> nat \<Rightarrow> nat"
    and nxt :: "'s \<Rightarrow> nat \<Rightarrow> nat"
    and flip :: "nat \<Rightarrow> 's \<Rightarrow> 's"
    and cap :: "'s \<Rightarrow> nat"
  assumes cap_flip: "cap (flip b s) = cap s"
    and cur_flip: "b < cap s \<Longrightarrow> c < cap s \<Longrightarrow> cur (flip b s) c = (if c = b then nxt s b else cur s c)"
    and nxt_flip: "b < cap s \<Longrightarrow> c < cap s \<Longrightarrow> nxt (flip b s) c = (if c = b then cur s b else nxt s c)"
    and cur_inj: "b < cap s \<Longrightarrow> c < cap s \<Longrightarrow> cur s b = cur s c \<Longrightarrow> b = c"
    and nxt_not_cur: "b < cap s \<Longrightarrow> c < cap s \<Longrightarrow> nxt s b \<noteq> cur s c"
begin

text \<open>The blocks in \<open>bs\<close> are written to their other copies, each with any contents.\<close>

fun write_shadows :: "(nat \<times> 'b) list \<Rightarrow> 's \<Rightarrow> (nat \<Rightarrow> 'b) \<Rightarrow> 's \<times> (nat \<Rightarrow> 'b)" where
  "write_shadows [] s m = (s, m)"
| "write_shadows ((b, x) # bs) s m = write_shadows bs (flip b s) (m(nxt s b := x))"

lemma write_shadows_keep:
  assumes "write_shadows bs s m = (s', m')" "distinct (map fst bs)" "\<forall>b \<in> set (map fst bs). b < cap t"
    and "cap s = cap t" "\<forall>b \<in> set (map fst bs). nxt s b = nxt t b" "c < cap t"
  shows "m' (cur t c) = m (cur t c)"
  using assms
proof (induction bs s m rule: write_shadows.induct)
  case (2 b x bs s m)
  have b: "b < cap s" "nxt s b = nxt t b" using 2(4,5,6) by simp_all
  have n: "\<forall>d \<in> set (map fst bs). nxt (flip b s) d = nxt t d"
    using 2(3-6) b(1) nxt_flip [of b s] by auto
  have w: "write_shadows bs (flip b s) (m(nxt s b := x)) = (s', m')" using 2(2) by simp
  have "m' (cur t c) = (m(nxt s b := x)) (cur t c)"
    using 2(3-5) cap_flip [of b s] by (intro 2(1) [OF w _ _ _ n 2(7)]) simp_all
  also have "\<dots> = m (cur t c)" using nxt_not_cur [of b t c] b 2(5,7) by simp
  finally show ?case .
qed simp

lemma write_shadows_cur:
  assumes "write_shadows bs s m = (s', m')" "distinct (map fst bs)" "\<forall>b \<in> set (map fst bs). b < cap s" "c < cap s"
  shows "cur s' c = (if c \<in> set (map fst bs) then nxt s c else cur s c)"
  using assms
proof (induction bs s m rule: write_shadows.induct)
  case (2 b x bs s m)
  have b: "b < cap s" "b \<notin> set (map fst bs)" using 2(3,4) by simp_all
  have "cur s' c = (if c \<in> set (map fst bs) then nxt (flip b s) c else cur (flip b s) c)"
    using 2(2-5) cap_flip [of b s] by (intro 2(1)) (simp_all add: fun_upd_def)
  then show ?case using b 2(5) cur_flip [OF b(1), of c] nxt_flip [OF b(1), of c] by auto
qed simp

end

subsection \<open>The NAT area\<close>

definition nat_addr :: "nm_info \<Rightarrow> nat \<Rightarrow> nat" where
  "nat_addr nm b = current_nat_addr nm (b * NAT_ENTRY_PER_BLOCK)"

definition nat_shadow :: "nm_info \<Rightarrow> nat \<Rightarrow> nat" where
  "nat_shadow nm b = next_nat_addr nm (nat_addr nm b)"

definition nat_base :: "nm_info \<Rightarrow> nat \<Rightarrow> nat" where
  "nat_base nm b = (b div 2 ^ nm_log_blocks_per_seg nm) * (2 * 2 ^ nm_log_blocks_per_seg nm) + b mod 2 ^ nm_log_blocks_per_seg nm"

lemma entry_per_block_pos [simp]: "0 < NAT_ENTRY_PER_BLOCK" by (simp add: NAT_ENTRY_PER_BLOCK_def)

lemma NAT_BLOCK_OFFSET_mult [simp]: "NAT_BLOCK_OFFSET (b * NAT_ENTRY_PER_BLOCK) = b" by (simp add: NAT_BLOCK_OFFSET_def)

lemma nat_addr_eq:
  "nat_addr nm b = nat_blkaddr nm + nat_base nm b + (if f2fs_test_bit b (nat_bitmap nm) then 2 ^ nm_log_blocks_per_seg nm else 0)"
  unfolding nat_addr_def current_nat_addr_def Let_def NAT_BLOCK_OFFSET_mult nat_base_def by (simp add: mult.assoc mult.commute [of 2])

text \<open>The block number and the copy are recovered from the offset in the area.\<close>

lemma nat_base_decode:
  fixes K :: nat
  assumes "0 < K" "o' = q * (2 * K) + r + x * K" "r < K" "x < 2"
  shows "o' div (2 * K) = q" "o' div K mod 2 = x" "o' mod K = r"
proof -
  have xk: "r + x * K < 2 * K" using assms(3,4) by (auto dest!: less_2_cases)
  have "o' = (r + x * K) + q * (2 * K)" using assms(2) by simp
  then have "o' div (2 * K) = (r + x * K) div (2 * K) + q" using assms(1) by simp
  then show "o' div (2 * K) = q" using xk by simp
  have o: "o' = r + (2 * q + x) * K" using assms(2) by (simp add: algebra_simps)
  show "o' mod K = r" using assms(3) by (simp add: o)
  have "o' div K = 2 * q + x" using assms(1,3) by (simp add: o)
  then show "o' div K mod 2 = x" using assms(4) by simp
qed

lemma nat_addr_decode:
  assumes "x = (if f2fs_test_bit b (nat_bitmap nm) then 1 else 0)" "K = 2 ^ nm_log_blocks_per_seg nm"
  shows "(nat_addr nm b - nat_blkaddr nm) div (2 * K) = b div K" "(nat_addr nm b - nat_blkaddr nm) mod K = b mod K"
    "(nat_addr nm b - nat_blkaddr nm) div K mod 2 = x" "nat_addr nm b = nat_blkaddr nm + nat_base nm b + x * K"
proof -
  show e: "nat_addr nm b = nat_blkaddr nm + nat_base nm b + x * K" using assms by (simp add: nat_addr_eq)
  have "0 < K" "b mod K < K" "x < 2" using assms by simp_all
  moreover have "nat_addr nm b - nat_blkaddr nm = b div K * (2 * K) + b mod K + x * K" using assms(2) by (simp add: e nat_base_def)
  ultimately show "(nat_addr nm b - nat_blkaddr nm) div (2 * K) = b div K" "(nat_addr nm b - nat_blkaddr nm) mod K = b mod K"
    "(nat_addr nm b - nat_blkaddr nm) div K mod 2 = x"
    using nat_base_decode [of K "nat_addr nm b - nat_blkaddr nm" "b div K" "b mod K" x] by blast+
qed

lemma nat_shadow_eq:
  "nat_shadow nm b = nat_blkaddr nm + nat_base nm b + (if f2fs_test_bit b (nat_bitmap nm) then 0 else 2 ^ nm_log_blocks_per_seg nm)"
proof -
  define x :: nat where "x = (if f2fs_test_bit b (nat_bitmap nm) then 1 else 0)"
  note d = nat_addr_decode [OF x_def refl]
  show ?thesis
    unfolding nat_shadow_def next_nat_addr_def Let_def d(3) by (simp add: nat_addr_eq x_def)
qed

lemma nat_base_inj:
  assumes "nat_base nm b + x * 2 ^ nm_log_blocks_per_seg nm = nat_base nm c + y * 2 ^ nm_log_blocks_per_seg nm" "x < 2" "y < 2"
  shows "b = c \<and> x = y"
proof -
  define K where "K = (2 ^ nm_log_blocks_per_seg nm :: nat)"
  have K: "0 < K" by (simp add: K_def)
  have e: "nat_base nm b = b div K * (2 * K) + b mod K" "nat_base nm c = c div K * (2 * K) + c mod K"
    by (simp_all add: nat_base_def K_def)
  have s: "nat_base nm b + x * K = nat_base nm c + y * K" using assms(1) by (simp add: K_def)
  have p: "nat_base nm b + x * K = b div K * (2 * K) + b mod K + x * K"
    "nat_base nm b + x * K = c div K * (2 * K) + c mod K + y * K" using e s by simp_all
  note p = nat_base_decode [OF K p(1) mod_less_divisor [OF K] assms(2)] nat_base_decode [OF K p(2) mod_less_divisor [OF K] assms(3)]
  have "b div K = c div K" "b mod K = c mod K" "x = y" using p by metis+
  then show ?thesis using div_mult_mod_eq [of b K] div_mult_mod_eq [of c K] by metis
qed

interpretation nata: shadow_area nat_addr nat_shadow "\<lambda>b nm. set_to_next_nat nm (b * NAT_ENTRY_PER_BLOCK)" "\<lambda>nm. 8 * length (nat_bitmap nm)"
proof
  fix b c :: nat and s :: nm_info
  let ?f = "set_to_next_nat s (b * NAT_ENTRY_PER_BLOCK)"
  have f: "nat_bitmap ?f = f2fs_change_bit b (nat_bitmap s)" "nat_blkaddr ?f = nat_blkaddr s" "nat_base ?f = nat_base s"
    "nm_log_blocks_per_seg ?f = nm_log_blocks_per_seg s"
    by (simp_all add: set_to_next_nat_def nat_base_def fun_eq_iff)
  show "8 * length (nat_bitmap ?f) = 8 * length (nat_bitmap s)" by (simp add: f)
  assume b: "b < 8 * length (nat_bitmap s)" and c: "c < 8 * length (nat_bitmap s)"
  show "nat_addr ?f c = (if c = b then nat_shadow s b else nat_addr s c)"
    "nat_shadow ?f c = (if c = b then nat_addr s b else nat_shadow s c)"
    using b c by (simp_all add: nat_addr_eq nat_shadow_eq f f2fs_test_change_bit)
  let ?x = "if f2fs_test_bit b (nat_bitmap s) then 1 else 0 :: nat" and ?y = "if f2fs_test_bit c (nat_bitmap s) then 1 else 0 :: nat"
  show "b = c" if "nat_addr s b = nat_addr s c"
    using nat_base_inj [of s b ?x c ?y] that by (simp add: nat_addr_eq split: if_splits)
  show "nat_shadow s b \<noteq> nat_addr s c"
  proof
    assume "nat_shadow s b = nat_addr s c"
    then have "nat_base s b + (1 - ?x) * 2 ^ nm_log_blocks_per_seg s = nat_base s c + ?y * 2 ^ nm_log_blocks_per_seg s"
      by (simp add: nat_addr_eq nat_shadow_eq split: if_splits)
    from nat_base_inj [OF this] have "b = c \<and> 1 - ?x = ?y" by simp
    then show False by (simp split: if_splits)
  qed
qed

subsection \<open>The SIT area\<close>

definition sit_addr :: "sbi \<Rightarrow> nat \<Rightarrow> nat" where
  "sit_addr s b = snd (current_sit_addr s (b * SIT_ENTRY_PER_BLOCK))"

definition sit_shadow :: "sbi \<Rightarrow> nat \<Rightarrow> nat" where
  "sit_shadow s b = next_sit_addr s (sit_addr s b)"

definition sit_flip :: "nat \<Rightarrow> sbi \<Rightarrow> sbi" where
  "sit_flip b s = s\<lparr>sit_i := set_to_next_sit (sit_i s) (b * SIT_ENTRY_PER_BLOCK)\<rparr>"

lemma SIT_BLOCK_OFFSET_mult [simp]: "SIT_BLOCK_OFFSET (b * SIT_ENTRY_PER_BLOCK) = b"
  by (simp add: SIT_BLOCK_OFFSET_def SIT_ENTRY_PER_BLOCK_def)

lemma sit_addr_eq: "sit_addr s b = sit_base_addr (sit_i s) + b + (if f2fs_test_bit b (sit_bitmap (sit_i s)) then sit_blocks (sit_i s) else 0)"
  by (simp add: sit_addr_def current_sit_addr_def Let_def)

lemma sit_shadow_eq:
  "b < sit_blocks (sit_i s) \<Longrightarrow>
    sit_shadow s b = sit_base_addr (sit_i s) + b + (if f2fs_test_bit b (sit_bitmap (sit_i s)) then 0 else sit_blocks (sit_i s))"
  by (simp add: sit_shadow_def next_sit_addr_def Let_def sit_addr_eq)

interpretation sita: shadow_area sit_addr sit_shadow sit_flip "\<lambda>s. min (sit_blocks (sit_i s)) (8 * length (sit_bitmap (sit_i s)))"
proof
  fix b c :: nat and s :: sbi
  have f: "sit_bitmap (sit_i (sit_flip b s)) = f2fs_change_bit b (sit_bitmap (sit_i s))"
    "sit_base_addr (sit_i (sit_flip b s)) = sit_base_addr (sit_i s)" "sit_blocks (sit_i (sit_flip b s)) = sit_blocks (sit_i s)"
    by (simp_all add: sit_flip_def set_to_next_sit_def)
  show "min (sit_blocks (sit_i (sit_flip b s))) (8 * length (sit_bitmap (sit_i (sit_flip b s)))) =
    min (sit_blocks (sit_i s)) (8 * length (sit_bitmap (sit_i s)))" by (simp add: f)
  assume b: "b < min (sit_blocks (sit_i s)) (8 * length (sit_bitmap (sit_i s)))"
    and c: "c < min (sit_blocks (sit_i s)) (8 * length (sit_bitmap (sit_i s)))"
  show "sit_addr (sit_flip b s) c = (if c = b then sit_shadow s b else sit_addr s c)"
    "sit_shadow (sit_flip b s) c = (if c = b then sit_addr s b else sit_shadow s c)"
    using b c by (simp_all add: sit_addr_eq sit_shadow_eq f f2fs_test_change_bit)
  show "b = c" if "sit_addr s b = sit_addr s c"
    using that b c by (auto simp: sit_addr_eq split: if_splits)
  show "sit_shadow s b \<noteq> sit_addr s c"
    using b c by (auto simp: sit_addr_eq sit_shadow_eq split: if_splits)
qed

end
