(* ===== verification/Nat_Flush.thy ===== *)
theory Nat_Flush
  imports Nid_Lists Shadow
begin

section \<open>The flush of the node address table\<close>

text \<open>
  At a checkpoint \<open>flush_nat_entries_per_core\<close> writes every dirty entry of the cache to the journal
  or to the other copy of its NAT block. Afterwards the cache is clean and the medium holds the NAT
  that the file system sees; the blocks that the last checkpoint refers to are untouched, so that
  an interrupted checkpoint leaves the old NAT. The merging of the sets of all trees by NAT block
  matters here: a block is flipped at most once.
\<close>

subsection \<open>The journal\<close>

definition jkeys :: "nat_journal \<Rightarrow> nat set" where
  "jkeys sm = (\<lambda>i. fst (nat_j sm ! i)) ` {..<n_nats sm}"

lemma journal_get_iff:
  assumes "journal_ok nm"
  shows "journal_get (cursum nm) n = Some e \<longleftrightarrow> (\<exists>i<n_nats (cursum nm). nat_j (cursum nm) ! i = (n, e))"
    "journal_get (cursum nm) n = None \<longleftrightarrow> n \<notin> jkeys (cursum nm)"
proof -
  show "journal_get (cursum nm) n = None \<longleftrightarrow> n \<notin> jkeys (cursum nm)"
    by (auto simp: journal_get_def jkeys_def find_None_iff)
  show "journal_get (cursum nm) n = Some e \<longleftrightarrow> (\<exists>i<n_nats (cursum nm). nat_j (cursum nm) ! i = (n, e))"
  proof
    assume "journal_get (cursum nm) n = Some e"
    then obtain i where "find (\<lambda>i. fst (nat_j (cursum nm) ! i) = n) [0..<n_nats (cursum nm)] = Some i" "snd (nat_j (cursum nm) ! i) = e"
      by (auto simp: journal_get_def)
    then show "\<exists>i<n_nats (cursum nm). nat_j (cursum nm) ! i = (n, e)" by (auto simp: find_Some_iff intro: prod_eqI)
  qed (use journal_at(1) [OF assms] in blast)
qed

definition only_media :: "nm_info \<Rightarrow> nm_info \<Rightarrow> bool" where
  "only_media nm q \<longleftrightarrow> q = nm\<lparr>cursum := cursum q, nat_area := nat_area q\<rparr>"

lemma write_journal_spec:
  assumes "journal_ok nm" "n < max_nid nm" "n \<in> jkeys (cursum nm) \<or> n_nats (cursum nm) < NAT_JOURNAL_ENTRIES"
  shows "only_media nm (write_journal n raw nm)" "nat_area (write_journal n raw nm) = nat_area nm" "journal_ok (write_journal n raw nm)"
    "journal_get (cursum (write_journal n raw nm)) = (journal_get (cursum nm))(n \<mapsto> raw)"
    "n_nats (cursum (write_journal n raw nm)) = n_nats (cursum nm) + (if n \<in> jkeys (cursum nm) then 0 else 1)"
    "jkeys (cursum (write_journal n raw nm)) = insert n (jkeys (cursum nm))"
proof -
  let ?r = "write_journal n raw nm" let ?sm = "cursum nm"
  note g = journal_get_iff [OF assms(1)]
  have sm: "n_nats ?sm \<le> NAT_JOURNAL_ENTRIES" "length (nat_j ?sm) = NAT_JOURNAL_ENTRIES"
    using assms(1) by (simp_all add: journal_ok_def)
  have u: "\<And>i j. i < n_nats ?sm \<Longrightarrow> j < n_nats ?sm \<Longrightarrow> fst (nat_j ?sm ! i) = fst (nat_j ?sm ! j) \<Longrightarrow> i = j"
    "\<And>i. i < n_nats ?sm \<Longrightarrow> fst (nat_j ?sm ! i) < max_nid nm" using assms(1) by (auto simp: journal_ok_def)
  obtain i k where ik: "cursum ?r = ?sm\<lparr>n_nats := k, nat_j := (nat_j ?sm)[i := (n, raw)]\<rparr>" "?r = nm\<lparr>cursum := cursum ?r\<rparr>"
    "i < k" "k \<le> NAT_JOURNAL_ENTRIES" "k = n_nats ?sm + (if n \<in> jkeys ?sm then 0 else 1)"
    "n \<notin> jkeys ?sm \<longrightarrow> i = n_nats ?sm" "n \<in> jkeys ?sm \<longrightarrow> fst (nat_j ?sm ! i) = n"
  proof (cases "find (\<lambda>i. fst (nat_j ?sm ! i) = n) [0..<n_nats ?sm]")
    case None
    then have nk: "n \<notin> jkeys ?sm" by (auto simp: jkeys_def find_None_iff)
    then have "n_nats ?sm < NAT_JOURNAL_ENTRIES" using assms(3) by simp
    moreover have "nat ((int (n_nats ?sm) + 1) mod 65536) = Suc (n_nats ?sm)"
      using calculation by (simp add: NAT_JOURNAL_ENTRIES_def nat_add_distrib)
    ultimately show thesis
      using None nk by (intro that [of "n_nats ?sm" "Suc (n_nats ?sm)"]) (simp_all add: nat_add_distrib write_journal_def lookup_journal_in_cursum_def update_nats_in_cursum_def)
  next
    case (Some i)
    then have i: "i < n_nats ?sm" "fst (nat_j ?sm ! i) = n" by (auto simp: find_Some_iff)
    then have k: "n \<in> jkeys ?sm" by (auto simp: jkeys_def)
    show thesis
      using Some i k sm(1) by (intro that [of i "n_nats ?sm"]) (simp_all add: write_journal_def lookup_journal_in_cursum_def)
  qed
  have nth: "nat_j (cursum ?r) ! j = (if j = i then (n, raw) else nat_j ?sm ! j)" if "j < k" for j
    using that ik(1,3,4) sm(2) by simp
  have nk: "n_nats (cursum ?r) = k" by (simp add: ik(1))
  have other: "j < n_nats ?sm \<and> fst (nat_j ?sm ! j) \<noteq> n" if "j < k" "j \<noteq> i" for j
    using that ik(5,6,7) u(1) [of i j] ik(3) by (cases "n \<in> jkeys ?sm") (auto simp: jkeys_def)
  show "n_nats (cursum ?r) = n_nats ?sm + (if n \<in> jkeys ?sm then 0 else 1)" using nk ik(5) by simp
  have area: "max_nid ?r = max_nid nm" "nat_area ?r = nat_area nm" by (subst ik(2), simp)+
  then show "nat_area ?r = nat_area nm" by simp
  show "only_media nm ?r" unfolding only_media_def area(2) by (subst ik(2)) simp
  have len: "length (nat_j (cursum ?r)) = NAT_JOURNAL_ENTRIES" by (simp add: ik(1) sm(2))
  show ok: "journal_ok ?r"
    unfolding journal_ok_def nk area(1) len
  proof (intro conjI allI impI)
    show "k \<le> NAT_JOURNAL_ENTRIES" by (fact ik(4))
    fix j assume j: "j < k"
    show "fst (nat_j (cursum ?r) ! j) < max_nid nm" using nth [OF j] assms(2) other [OF j] u(2) by auto
    fix l assume "l < k" "fst (nat_j (cursum ?r) ! j) = fst (nat_j (cursum ?r) ! l)"
    then show "j = l" using nth [OF j] nth [of l] other [OF j] other [of l] u(1) [of j l] by (auto split: if_splits)
  qed simp
  show "jkeys (cursum ?r) = insert n (jkeys ?sm)"
  proof -
    have "jkeys (cursum ?r) = (\<lambda>j. if j = i then n else fst (nat_j ?sm ! j)) ` {..<k}"
      unfolding jkeys_def nk using nth by (intro image_cong) auto
    moreover have "jkeys ?sm \<subseteq> insert n ((\<lambda>j. if j = i then n else fst (nat_j ?sm ! j)) ` {..<k})"
    proof
      fix x assume "x \<in> jkeys ?sm"
      then obtain j where j: "j < n_nats ?sm" "x = fst (nat_j ?sm ! j)" by (auto simp: jkeys_def)
      show "x \<in> insert n ((\<lambda>j. if j = i then n else fst (nat_j ?sm ! j)) ` {..<k})"
      proof (cases "j = i")
        case True
        then show ?thesis using j ik(6,7) by auto
      next
        case False
        then show ?thesis using j ik(5) by (intro insertI2 image_eqI [of _ _ j]) simp_all
      qed
    qed
    ultimately show ?thesis using ik(3) other by (auto simp: jkeys_def image_iff)
  qed
  show "journal_get (cursum ?r) = (journal_get ?sm)(n \<mapsto> raw)"
  proof
    fix m
    have "journal_get (cursum ?r) m = Some e \<longleftrightarrow> ((journal_get ?sm)(n \<mapsto> raw)) m = Some e" for e
    proof (cases "m = n")
      case True
      have "journal_get (cursum ?r) n = Some raw" using journal_at(1) [OF ok, of i n raw] nth [OF ik(3)] ik(3) nk by simp
      then show ?thesis using True by auto
    next
      case False
      have "(\<exists>j<k. nat_j (cursum ?r) ! j = (m, e)) \<longleftrightarrow> (\<exists>j<n_nats ?sm. nat_j ?sm ! j = (m, e))"
      proof
        assume "\<exists>j<k. nat_j (cursum ?r) ! j = (m, e)"
        then show "\<exists>j<n_nats ?sm. nat_j ?sm ! j = (m, e)" using nth other False by (metis Pair_inject)
      next
        assume "\<exists>j<n_nats ?sm. nat_j ?sm ! j = (m, e)"
        then obtain j where "j < n_nats ?sm" "nat_j ?sm ! j = (m, e)" by blast
        moreover from this have "j < k" "j \<noteq> i" using ik(5,6,7) False by (auto split: if_splits)
        ultimately show "\<exists>j<k. nat_j (cursum ?r) ! j = (m, e)" using nth by auto
      qed
      then show ?thesis using False g(1) journal_get_iff(1) [OF ok] nk by simp
    qed
    then show "journal_get (cursum ?r) m = ((journal_get ?sm)(n \<mapsto> raw)) m" by (metis option.exhaust)
  qed
qed

subsection \<open>One entry\<close>

lemma nat_addr_cong:
  assumes "nat_blkaddr r = nat_blkaddr nm" "nm_log_blocks_per_seg r = nm_log_blocks_per_seg nm" "nat_bitmap r = nat_bitmap nm"
  shows "nat_addr r = nat_addr nm" "nat_shadow r = nat_shadow nm"
  using assms by (simp_all add: fun_eq_iff nat_addr_eq nat_shadow_eq nat_base_def)

definition dirty_nats :: "nm_info \<Rightarrow> nat set" where
  "dirty_nats nm = {n. \<exists>e. lookup_nat_cache nm n = Some e \<and> dirty_nat e}"

text \<open>
  During the flush the medium may hold an old address of a free node id, so of \<open>nids_free\<close> only the
  part on the NAT is kept.
\<close>

definition nids_unused :: "nm_info \<Rightarrow> bool" where
  "nids_unused nm \<longleftrightarrow> (\<forall>n. nid_map nm n = Some NID_NEW \<longrightarrow> raw_block_addr (nat_view nm n) = NULL_ADDR)"

text \<open>The entries in \<open>S\<close> have been written out.\<close>

definition cleaned :: "nm_info \<Rightarrow> nm_info \<Rightarrow> nat set \<Rightarrow> bool" where
  "cleaned nm r S \<longleftrightarrow> cache_inv r \<and> nid_ok r \<and> nids_unused r \<and> max_nid r = max_nid nm \<and> nat_tree_cnt r = nat_tree_cnt nm \<and>
     (\<forall>n<max_nid nm. nat_view r n = nat_view nm n) \<and>
     (\<forall>n<max_nid nm. on_media r n = (if n \<in> S then nat_view nm n else on_media nm n)) \<and>
     dirty_nats r = dirty_nats nm - S \<and> nm_need_fsck r = nm_need_fsck nm"

lemma cleaned_refl: "cache_inv nm \<Longrightarrow> nid_ok nm \<Longrightarrow> nids_unused nm \<Longrightarrow> cleaned nm nm {}"
  by (simp add: cleaned_def)

lemma cleaned_trans:
  assumes "cleaned nm q S" "cleaned q r T"
  shows "cleaned nm r (S \<union> T)"
  using assms unfolding cleaned_def by auto

lemma clear_nat_cache_dirty_spec:
  assumes "trees_ok nm" "lookup_nat_cache nm nid = Some e" "dirty_nat e"
  shows "trees_ok (clear_nat_cache_dirty nm nid)" "same_media nm (clear_nat_cache_dirty nm nid)"
    "lookup_nat_cache (clear_nat_cache_dirty nm nid) = (lookup_nat_cache nm)(nid \<mapsto> set_nat_flag IS_DIRTY False e)"
    "nm_need_fsck (clear_nat_cache_dirty nm nid) = nm_need_fsck nm"
proof -
  let ?i = "TREE_IDX nid nm" let ?t = "nat_trees nm ! ?i" let ?st = "NAT_BLOCK_OFFSET nid" let ?r = "clear_nat_cache_dirty nm nid"
  note d = trees_okD [OF assms(1)] note lt = TREE_IDX_lt [OF assms(1), of nid]
  have r: "nat_root ?t nid = Some e" using assms(2) by (simp add: lookup_tree)
  then have "nid \<in> tree_dirty ?t" using assms(3) by (auto simp: tree_dirty_def)
  then obtain h where h: "nat_set_root ?t ?st = Some h"
    using tree_okD(6) [OF d(1) [of nid], of ?st] by (cases "nat_set_root ?t ?st") (auto simp: set_ok_def)
  have e: "ni_nid (set_nat_flag IS_DIRTY False e) = ni_nid e" "\<not> dirty_nat (set_nat_flag IS_DIRTY False e)"
    by (simp_all add: get_set_nat_flag)
  define t' where "t' = ?t\<lparr>nat_set_root := (nat_set_root ?t)(?st \<mapsto>
       h\<lparr>entry_list := removeAll nid (entry_list h), entry_cnt := sub32 (entry_cnt h) 1\<rparr>),
     nat_entries := removeAll nid (nat_entries ?t) @ [nid], nat_root := (nat_root ?t)(nid \<mapsto> set_nat_flag IS_DIRTY False e),
     percore_dirty_nat_cnt := sub32 (percore_dirty_nat_cnt ?t) 1\<rparr>"
  have eq: "?r = upd_tree ?i (\<lambda>_. t') nm" using h r by (simp add: clear_nat_cache_dirty_def Let_def upd_tree_def t'_def)
  have ok: "tree_ok (max_nid nm) (nat_tree_cnt nm) ?i t'"
    unfolding t'_def by (rule tree_ok_clear_dirty [OF d(1) r assms(3) e d(2) refl h])
  show "trees_ok ?r" unfolding eq by (rule upd_tree_ok [OF assms(1) lt ok])
  show "same_media nm ?r" "nm_need_fsck ?r = nm_need_fsck nm" by (simp_all add: eq)
  show "lookup_nat_cache ?r = (lookup_nat_cache nm)(nid \<mapsto> set_nat_flag IS_DIRTY False e)"
    unfolding eq by (rule upd_tree_lookup [OF assms(1) refl]) (simp add: t'_def)
qed

lemma only_lists_trees: "only_lists nm r \<Longrightarrow> nat_trees r = nat_trees nm"
  by (cases nm; cases r) (auto simp: only_lists_def)

lemma only_mediaD:
  assumes "only_media nm q"
  shows "nat_trees q = nat_trees nm" "max_nid q = max_nid nm" "lookup_nat_cache q = lookup_nat_cache nm" "nid_map q = nid_map nm"
    "nid_ok q = nid_ok nm" "nm_need_fsck q = nm_need_fsck nm" "trees_ok q = trees_ok nm" "nat_bitmap q = nat_bitmap nm"
    "nat_blkaddr q = nat_blkaddr nm" "nm_log_blocks_per_seg q = nm_log_blocks_per_seg nm" "LIST_IDX n q = LIST_IDX n nm"
proof -
  obtain c a where q: "q = nm\<lparr>cursum := c, nat_area := a\<rparr>" using assms unfolding only_media_def by blast
  show "nat_trees q = nat_trees nm" "max_nid q = max_nid nm" "lookup_nat_cache q = lookup_nat_cache nm" "nid_map q = nid_map nm"
    "nid_ok q = nid_ok nm" "nm_need_fsck q = nm_need_fsck nm" "trees_ok q = trees_ok nm" "nat_bitmap q = nat_bitmap nm"
    "nat_blkaddr q = nat_blkaddr nm" "nm_log_blocks_per_seg q = nm_log_blocks_per_seg nm" "LIST_IDX n q = LIST_IDX n nm"
    by (simp_all add: q lookup_nat_cache_def TREE_IDX_def fun_eq_iff nid_map_def lookup_free_nid_list_def LIST_IDX_def nid_ok_def trees_ok_def)
qed

text \<open>After the entry of \<open>nid\<close> has been written to the medium, which gives \<open>q\<close>, it is marked clean.\<close>

definition finish_entry :: "nat \<Rightarrow> nat \<Rightarrow> nm_info \<Rightarrow> nm_info" where
  "finish_entry blk nid q =
     (let q = clear_nat_cache_dirty (upd_entry nid nat_reset_flag q) nid
      in if blk = NULL_ADDR then fst (add_free_nid q nid False) else q)"

lemma finish_entry_cleaned:
  assumes "cache_inv nm" "nid_ok nm" "nids_unused nm" "lookup_nat_cache nm nid = Some e" "dirty_nat e" "only_media nm q"
    and "\<forall>n<max_nid nm. on_media q n = (if n = nid then raw_nat_from_node_info e else on_media nm n)"
  shows "cleaned nm (finish_entry (ni_blk_addr e) nid q) {nid}" "cursum (finish_entry (ni_blk_addr e) nid q) = cursum q"
    "nat_area (finish_entry (ni_blk_addr e) nid q) = nat_area q" "nat_bitmap (finish_entry (ni_blk_addr e) nid q) = nat_bitmap q"
    "nat_addr (finish_entry (ni_blk_addr e) nid q) = nat_addr q" "nat_shadow (finish_entry (ni_blk_addr e) nid q) = nat_shadow q"
proof -
  note m = only_mediaD [OF assms(6)]
  have inv: "trees_ok nm" "coherent nm" using assms(1) by (simp_all add: cache_inv_def)
  let ?u = "upd_entry nid nat_reset_flag q"
  have u: "trees_ok ?u" "lookup_nat_cache ?u = (lookup_nat_cache nm)(nid \<mapsto> nat_reset_flag e)"
    using upd_entry_spec [of q nid nat_reset_flag] inv(1) m(3,7) assms(4) by simp_all
  let ?c = "clear_nat_cache_dirty ?u nid" let ?e = "set_nat_flag IS_DIRTY False (nat_reset_flag e)"
  have lu: "lookup_nat_cache ?u nid = Some (nat_reset_flag e)" "dirty_nat (nat_reset_flag e)" using assms(5) by (simp_all add: u(2))
  note c = clear_nat_cache_dirty_spec [OF u(1) lu]
  have lc: "lookup_nat_cache ?c = (lookup_nat_cache nm)(nid \<mapsto> ?e)" unfolding c(3) u(2) by simp
  have mc: "same_media q ?c" using same_media_trans [OF upd_tree_media(3) c(2)] .
  have nid: "nid < max_nid nm" using trees_okD(4) [OF inv(1) assms(4)] .
  have view: "nat_view nm nid = raw_nat_from_node_info e" using assms(4) by (simp add: nat_view_def)
  have md: "on_media ?c n = (if n = nid then nat_view nm nid else on_media nm n)" if "n < max_nid nm" for n
    using same_mediaD(1) [OF mc] assms(7) that view by simp
  have lists: "free_nid_root ?c = free_nid_root q" "free_nid_list ?c = free_nid_list q" "percore_fcnt ?c = percore_fcnt q" "nid_chunk ?c = nid_chunk q"
    by (simp_all add: clear_nat_cache_dirty_def upd_entry_def upd_tree_def Let_def)
  have mx: "max_nid ?c = max_nid nm" "nat_tree_cnt ?c = nat_tree_cnt nm" using same_mediaD(2,3) [OF mc] m(1,2) by simp_all
  have nok: "nid_ok ?c" using assms(2) m(5) unfolding nid_ok_def lists mx m(2) by simp
  have "nid_map ?c = nid_map q"
    using m(2) mx(1) by (simp add: nid_map_def fun_eq_iff lookup_free_nid_list_def LIST_IDX_def lists)
  then have nmap: "nid_map ?c = nid_map nm" using m(4) by simp
  have coh: "coherent ?c"
    unfolding coherent_def lc
  proof (intro allI impI)
    fix n x assume x: "((lookup_nat_cache nm)(nid \<mapsto> ?e)) n = Some x" "\<not> dirty_nat x"
    show "raw_nat_from_node_info x = on_media ?c n"
    proof (cases "n = nid")
      case True
      then show ?thesis using x(1) md [OF nid] view by auto
    next
      case False
      then show ?thesis using x inv(2) md [of n] trees_okD(4) [OF inv(1)] by (auto simp: coherent_def)
    qed
  qed
  have vc: "nat_view ?c n = nat_view nm n" if "n < max_nid nm" for n
    using md [OF that] view by (cases "n = nid") (auto simp: nat_view_def lc assms(4) split: option.split)
  have dc: "dirty_nats ?c = dirty_nats nm - {nid}" by (auto simp: dirty_nats_def lc get_set_nat_flag)
  have fr: "nids_unused ?c"
    unfolding nids_unused_def nmap
  proof (intro allI impI)
    fix n assume n: "nid_map nm n = Some NID_NEW"
    have lt: "n < max_nid nm" using fcnt_pos(4) [OF assms(2) n refl] .
    show "raw_block_addr (nat_view ?c n) = NULL_ADDR" using assms(3) n unfolding vc [OF lt] nids_unused_def by auto
  qed
  have nf: "nm_need_fsck ?c = nm_need_fsck nm" using c(4) m(6) by (simp add: upd_entry_def)
  have cl: "cleaned nm ?c {nid}"
    using c(1) coh nok fr mx vc md dc nf by (auto simp: cleaned_def cache_inv_def)
  obtain a x where a: "add_free_nid ?c nid False = (a, x)" by fastforce
  have nlt: "nid < max_nid ?c" using nid mx(1) by simp
  note s = add_free_nid_spec [OF nok nlt a] note k = only_listsD [OF s(2)] only_lists_media [OF s(2)]
  have fa: "nids_unused a" if "ni_blk_addr e = NULL_ADDR"
  proof (cases "a = ?c")
    case False
    then have "nid_map a = (nid_map ?c)(nid \<mapsto> NID_NEW)" using s(3) by simp
    then show ?thesis
      using fr vc [OF nid] view that by (auto simp: nids_unused_def k raw_nat_from_node_info_def)
  qed (use fr in simp)
  have "cleaned nm a {nid}" if "ni_blk_addr e = NULL_ADDR"
    using cl fa [OF that] s(1) k only_lists_trees [OF s(2)] unfolding cleaned_def dirty_nats_def by simp
  moreover have fin: "finish_entry (ni_blk_addr e) nid q = (if ni_blk_addr e = NULL_ADDR then a else ?c)"
    by (simp add: finish_entry_def Let_def a)
  ultimately show "cleaned nm (finish_entry (ni_blk_addr e) nid q) {nid}" using cl by simp
  have am: "cursum a = cursum ?c" "nat_area a = nat_area ?c" "nat_bitmap a = nat_bitmap ?c" "nat_blkaddr a = nat_blkaddr ?c"
    "nm_log_blocks_per_seg a = nm_log_blocks_per_seg ?c"
    using s(2) by (cases a; cases ?c; simp add: only_lists_def)+
  let ?f = "finish_entry (ni_blk_addr e) nid q"
  have fm: "cursum ?f = cursum q" "nat_area ?f = nat_area q" "nat_bitmap ?f = nat_bitmap q" "nat_blkaddr ?f = nat_blkaddr q"
    "nm_log_blocks_per_seg ?f = nm_log_blocks_per_seg q"
    using mc by (simp_all add: fin am same_media_def)
  show "cursum ?f = cursum q" "nat_area ?f = nat_area q" "nat_bitmap ?f = nat_bitmap q" "nat_addr ?f = nat_addr q" "nat_shadow ?f = nat_shadow q"
    using nat_addr_cong [OF fm(4,5,3)] fm by simp_all
qed

lemma flush_nat_entry_eq:
  assumes "lookup_nat_cache nm nid = Some e" "ni_blk_addr e \<noteq> NEW_ADDR"
  shows "flush_nat_entry page start nid nm = finish_entry (ni_blk_addr e) nid
    (case page of None \<Rightarrow> write_journal nid (raw_nat_from_node_info e) nm
     | Some addr \<Rightarrow> write_nat_block addr (nid - start) (raw_nat_from_node_info e) nm)"
  using assms by (simp add: flush_nat_entry_def finish_entry_def Let_def)

subsection \<open>A list of entries\<close>

definition media_ok :: "nm_info \<Rightarrow> bool" where
  "media_ok nm \<longleftrightarrow> journal_ok nm \<and> (\<forall>a. length (nat_area nm a) = NAT_ENTRY_PER_BLOCK) \<and>
     (\<forall>n<max_nid nm. NAT_BLOCK_OFFSET n < 8 * length (nat_bitmap nm))"

definition no_new :: "nm_info \<Rightarrow> bool" where
  "no_new nm \<longleftrightarrow> (\<forall>n \<in> dirty_nats nm. raw_block_addr (nat_view nm n) \<noteq> NEW_ADDR)"

definition wrote :: "nat option \<Rightarrow> nm_info \<Rightarrow> nm_info \<Rightarrow> nat set \<Rightarrow> bool" where
  "wrote page nm r S \<longleftrightarrow> cleaned nm r S \<and> media_ok r \<and> nat_bitmap r = nat_bitmap nm \<and> nat_addr r = nat_addr nm \<and>
     nat_shadow r = nat_shadow nm \<and>
     (case page of
        None \<Rightarrow> nat_area r = nat_area nm \<and> n_nats (cursum r) \<le> n_nats (cursum nm) + card S \<and> jkeys (cursum r) \<subseteq> jkeys (cursum nm) \<union> S
      | Some a \<Rightarrow> cursum r = cursum nm \<and> (\<forall>x. x \<noteq> a \<longrightarrow> nat_area r x = nat_area nm x))"

lemma wrote_refl: "cache_inv nm \<Longrightarrow> nid_ok nm \<Longrightarrow> nids_unused nm \<Longrightarrow> media_ok nm \<Longrightarrow> wrote page nm nm {}"
  by (simp add: wrote_def cleaned_refl split: option.split)

lemma wrote_trans:
  assumes "wrote page nm q S" "wrote page q r T" "S \<inter> T = {}" "finite S" "finite T"
  shows "wrote page nm r (S \<union> T)"
proof -
  have "cleaned nm r (S \<union> T)" using assms(1,2) cleaned_trans by (auto simp: wrote_def)
  then show ?thesis using assms by (auto simp: wrote_def card_Un_disjoint split: option.splits)
qed

lemma nat_in_page_eq: "nat_in_page nm n = nat_area nm (nat_addr nm (NAT_BLOCK_OFFSET n)) ! (n mod NAT_ENTRY_PER_BLOCK)"
  by (simp add: nat_in_page_def get_current_nat_page_def nat_addr_def START_NID_def NAT_BLOCK_OFFSET_def minus_div_mult_eq_mod)

lemma write_nat_block_media:
  assumes "media_ok nm" "n < max_nid nm" "nid < max_nid nm" "a = nat_addr nm (NAT_BLOCK_OFFSET nid)" "nid \<notin> jkeys (cursum nm)"
  shows "on_media (write_nat_block a (nid mod NAT_ENTRY_PER_BLOCK) raw nm) n = (if n = nid then raw else on_media nm n)"
proof -
  let ?q = "write_nat_block a (nid mod NAT_ENTRY_PER_BLOCK) raw nm"
  have q: "cursum ?q = cursum nm" "nat_addr ?q = nat_addr nm" "nat_area ?q = (nat_area nm)(a := (nat_area nm a)[nid mod NAT_ENTRY_PER_BLOCK := raw])"
    by (simp_all add: write_nat_block_def nat_addr_def current_nat_addr_def fun_eq_iff)
  have len: "length (nat_area nm a) = NAT_ENTRY_PER_BLOCK" using assms(1) by (simp add: media_ok_def)
  have caps: "NAT_BLOCK_OFFSET n < 8 * length (nat_bitmap nm)" "NAT_BLOCK_OFFSET nid < 8 * length (nat_bitmap nm)"
    using assms(1-3) by (simp_all add: media_ok_def)
  have "nat_in_page ?q n = (if n = nid then raw else nat_in_page nm n)"
  proof (cases "NAT_BLOCK_OFFSET n = NAT_BLOCK_OFFSET nid")
    case True
    then have "n mod NAT_ENTRY_PER_BLOCK = nid mod NAT_ENTRY_PER_BLOCK \<longleftrightarrow> n = nid"
      by (metis NAT_BLOCK_OFFSET_def div_mult_mod_eq)
    then show ?thesis unfolding nat_in_page_eq q True assms(4) [symmetric] using len by (auto simp: nth_list_update)
  next
    case False
    then have "nat_addr nm (NAT_BLOCK_OFFSET n) \<noteq> a" using nata.cur_inj [OF caps] assms(4) by auto
    then show ?thesis unfolding nat_in_page_eq q using False by auto
  qed
  moreover have "journal_get (cursum nm) nid = None" using journal_get_iff(2) assms(1,5) by (simp add: media_ok_def)
  ultimately show ?thesis by (auto simp: on_media_def q split: option.split)
qed

lemma dirty_lookup:
  assumes "trees_ok nm" "n \<in> dirty_nats nm"
  obtains e where "lookup_nat_cache nm n = Some e" "dirty_nat e" "nat_view nm n = raw_nat_from_node_info e" "n < max_nid nm"
  using assms trees_okD(4) [OF assms(1)] by (auto simp: dirty_nats_def nat_view_def)

lemma flush_entry_wrote:
  assumes "cache_inv nm" "nid_ok nm" "nids_unused nm" "media_ok nm" "no_new nm" "nid \<in> dirty_nats nm" "start = START_NID nid"
    and "case page of None \<Rightarrow> n_nats (cursum nm) < NAT_JOURNAL_ENTRIES
       | Some a \<Rightarrow> a = nat_addr nm (NAT_BLOCK_OFFSET nid) \<and> nid \<notin> jkeys (cursum nm)"
  shows "wrote page nm (flush_nat_entry page start nid nm) {nid}"
proof -
  have t: "trees_ok nm" using assms(1) by (simp add: cache_inv_def)
  obtain e where e: "lookup_nat_cache nm nid = Some e" "dirty_nat e" "nat_view nm nid = raw_nat_from_node_info e" "nid < max_nid nm"
    using dirty_lookup [OF t assms(6)] .
  have "ni_blk_addr e \<noteq> NEW_ADDR" using assms(5,6) e(3) by (auto simp: no_new_def raw_nat_from_node_info_def)
  note fl = flush_nat_entry_eq [OF e(1) this, of page start]
  have jok: "journal_ok nm" using assms(4) by (simp add: media_ok_def)
  show ?thesis
  proof (cases page)
    case None
    note j = write_journal_spec [OF jok e(4), of "raw_nat_from_node_info e"]
    have sp: "nid \<in> jkeys (cursum nm) \<or> n_nats (cursum nm) < NAT_JOURNAL_ENTRIES" using assms(8) None by simp
    let ?q = "write_journal nid (raw_nat_from_node_info e) nm"
    note om = only_mediaD [OF j(1) [OF sp]]
    have addr: "nat_addr ?q = nat_addr nm" "nat_shadow ?q = nat_shadow nm"
      using nat_addr_cong [OF om(9,10,8)] by simp_all
    have "on_media ?q n = (if n = nid then raw_nat_from_node_info e else on_media nm n)" for n
      using addr by (simp add: on_media_def j(4) [OF sp] nat_in_page_eq j(2) [OF sp] split: option.split)
    then have "\<forall>n<max_nid nm. on_media ?q n = (if n = nid then raw_nat_from_node_info e else on_media nm n)" by blast
    note f = finish_entry_cleaned [OF assms(1-3) e(1,2) j(1) [OF sp] this]
    let ?r = "finish_entry (ni_blk_addr e) nid ?q"
    have mx: "max_nid ?r = max_nid nm" using f(1) by (simp add: cleaned_def)
    have "journal_ok ?r" using j(3) [OF sp] om(2) mx unfolding journal_ok_def f(2) by simp
    then have "media_ok ?r" using assms(4) mx om(8) unfolding media_ok_def f(3,4) j(2) [OF sp] by simp
    moreover have "flush_nat_entry page start nid nm = ?r" using fl None by simp
    ultimately show ?thesis
      using f(1) om(8) addr j(5,6) [OF sp] None by (simp add: wrote_def f(2-6) j(2) [OF sp])
  next
    case (Some a)
    have a: "a = nat_addr nm (NAT_BLOCK_OFFSET nid)" "nid \<notin> jkeys (cursum nm)" using assms(8) Some by simp_all
    have idx: "nid - start = nid mod NAT_ENTRY_PER_BLOCK" using assms(7) by (simp add: START_NID_def minus_div_mult_eq_mod)
    let ?q = "write_nat_block a (nid - start) (raw_nat_from_node_info e) nm"
    have om1: "only_media nm ?q" "cursum ?q = cursum nm" "nat_bitmap ?q = nat_bitmap nm" "nat_blkaddr ?q = nat_blkaddr nm"
      "nm_log_blocks_per_seg ?q = nm_log_blocks_per_seg nm"
      by (simp_all add: only_media_def write_nat_block_def)
    note om = om1(1) nat_addr_cong(1) [OF om1(4,5,3)] om1(2,3) nat_addr_cong(2) [OF om1(4,5,3)]
    have "\<forall>n<max_nid nm. on_media ?q n = (if n = nid then raw_nat_from_node_info e else on_media nm n)"
      unfolding idx using write_nat_block_media [OF assms(4) _ e(4) a] by blast
    note f = finish_entry_cleaned [OF assms(1-3) e(1,2) om(1) this]
    let ?r = "finish_entry (ni_blk_addr e) nid ?q"
    have mx: "max_nid ?r = max_nid nm" using f(1) by (simp add: cleaned_def)
    have area: "nat_area ?q = (nat_area nm)(a := (nat_area nm a)[nid - start := raw_nat_from_node_info e])" by (simp add: write_nat_block_def)
    have "journal_ok ?r" using jok mx unfolding journal_ok_def f(2) om(3) by simp
    then have "media_ok ?r" using assms(4) mx unfolding media_ok_def f(3,4) area om(4) by simp
    moreover have "flush_nat_entry page start nid nm = ?r" using fl Some by simp
    ultimately show ?thesis using f(1) Some by (simp add: wrote_def f(2-6) om(2-5) area)
  qed
qed

lemma no_new_cleaned:
  assumes "no_new nm" "cleaned nm r S" "trees_ok nm"
  shows "no_new r"
proof -
  have "dirty_nats r \<subseteq> dirty_nats nm" "\<forall>n<max_nid nm. nat_view r n = nat_view nm n" using assms(2) by (auto simp: cleaned_def)
  moreover have "n < max_nid nm" if "n \<in> dirty_nats nm" for n using dirty_lookup [OF assms(3) that] by blast
  ultimately show ?thesis using assms(1) unfolding no_new_def by (metis in_mono)
qed

lemma flush_list_wrote:
  assumes "cache_inv nm" "nid_ok nm" "nids_unused nm" "media_ok nm" "no_new nm" "distinct l" "set l \<subseteq> dirty_nats nm"
    and "\<forall>n \<in> set l. NAT_BLOCK_OFFSET n = b" "start = b * NAT_ENTRY_PER_BLOCK"
    and "case page of None \<Rightarrow> n_nats (cursum nm) + length l \<le> NAT_JOURNAL_ENTRIES
       | Some a \<Rightarrow> a = nat_addr nm b \<and> (\<forall>n \<in> set l. n \<notin> jkeys (cursum nm))"
  shows "wrote page nm (fold (flush_nat_entry page start) l nm) (set l)"
  using assms
proof (induction l arbitrary: nm)
  case Nil
  then show ?case by (simp add: wrote_refl)
next
  case (Cons n l)
  let ?q = "flush_nat_entry page start n nm"
  have w: "wrote page nm ?q {n}"
    using Cons.prems by (intro flush_entry_wrote) (auto simp: START_NID_def NAT_BLOCK_OFFSET_def split: option.splits)
  then have q: "cache_inv ?q" "nid_ok ?q" "nids_unused ?q" "media_ok ?q" "dirty_nats ?q = dirty_nats nm - {n}" "cleaned nm ?q {n}"
    by (simp_all add: wrote_def cleaned_def)
  have nn: "no_new ?q" using no_new_cleaned [OF Cons.prems(5) q(6)] Cons.prems(1) by (simp add: cache_inv_def)
  have "wrote page ?q (fold (flush_nat_entry page start) l ?q) (set l)"
    using Cons.prems w q nn by (intro Cons.IH) (auto simp: wrote_def split: option.splits)
  from wrote_trans [OF w this] show ?case using Cons.prems(6) by simp
qed

subsection \<open>One NAT block\<close>

abbreviation dirty_in :: "nm_info \<Rightarrow> nat \<Rightarrow> nat set" where
  "dirty_in nm b \<equiv> {n \<in> dirty_nats nm. NAT_BLOCK_OFFSET n = b}"

lemma tree_dirty_eq:
  assumes "trees_ok nm" "i < nat_tree_cnt nm"
  shows "tree_dirty (nat_trees nm ! i) = {n \<in> dirty_nats nm. TREE_IDX n nm = i}"
proof -
  have t: "tree_ok (max_nid nm) (nat_tree_cnt nm) i (nat_trees nm ! i)" using assms by (simp add: trees_ok_def)
  show ?thesis using tree_okD(2) [OF t] by (auto simp: tree_dirty_def dirty_nats_def lookup_nat_cache_def TREE_IDX_def)
qed

lemma finite_dirty:
  assumes "trees_ok nm"
  shows "finite (dirty_nats nm)"
proof -
  have "n < max_nid nm" if "n \<in> dirty_nats nm" for n using dirty_lookup [OF assms that] by blast
  then have "dirty_nats nm \<subseteq> {..<max_nid nm}" by auto
  then show ?thesis using finite_subset by blast
qed

definition flush_set :: "nat option \<Rightarrow> nat \<Rightarrow> nat \<Rightarrow> nm_info \<Rightarrow> nm_info" where
  "flush_set page b i nm =
     (case nat_set_root (nat_trees nm ! i) b of None \<Rightarrow> nm
      | Some nes \<Rightarrow> fold (flush_nat_entry page (b * NAT_ENTRY_PER_BLOCK)) (entry_list nes) nm)"

lemma set_entries:
  assumes "trees_ok nm" "i < nat_tree_cnt nm"
  shows "case nat_set_root (nat_trees nm ! i) b of None \<Rightarrow> {n \<in> dirty_in nm b. TREE_IDX n nm = i} = {}
    | Some nes \<Rightarrow> distinct (entry_list nes) \<and> set (entry_list nes) = {n \<in> dirty_in nm b. TREE_IDX n nm = i}"
proof -
  have t: "tree_ok (max_nid nm) (nat_tree_cnt nm) i (nat_trees nm ! i)" using assms by (simp add: trees_ok_def)
  show ?thesis
    using tree_okD(6) [OF t, of b] unfolding tree_dirty_eq [OF assms] set_ok_def by (auto split: option.splits)
qed

definition ready :: "nm_info \<Rightarrow> bool" where
  "ready nm \<longleftrightarrow> cache_inv nm \<and> nid_ok nm \<and> nids_unused nm \<and> media_ok nm \<and> no_new nm"

lemma wrote_ready: "wrote page nm r S \<Longrightarrow> ready nm \<Longrightarrow> ready r"
  using no_new_cleaned [of nm r S] by (auto simp: ready_def wrote_def cleaned_def cache_inv_def)

lemma flush_set_wrote:
  assumes "ready nm" "i < nat_tree_cnt nm"
    and "case page of None \<Rightarrow> n_nats (cursum nm) + card {n \<in> dirty_in nm b. TREE_IDX n nm = i} \<le> NAT_JOURNAL_ENTRIES
       | Some a \<Rightarrow> a = nat_addr nm b \<and> (\<forall>n \<in> jkeys (cursum nm). NAT_BLOCK_OFFSET n \<noteq> b)"
  shows "wrote page nm (flush_set page b i nm) {n \<in> dirty_in nm b. TREE_IDX n nm = i}"
proof -
  have r: "cache_inv nm" "nid_ok nm" "nids_unused nm" "media_ok nm" "no_new nm" using assms(1) by (simp_all add: ready_def)
  have e: "case nat_set_root (nat_trees nm ! i) b of None \<Rightarrow> {n \<in> dirty_in nm b. TREE_IDX n nm = i} = {}
    | Some nes \<Rightarrow> distinct (entry_list nes) \<and> set (entry_list nes) = {n \<in> dirty_in nm b. TREE_IDX n nm = i}"
    using set_entries [OF _ assms(2)] r(1) by (simp add: cache_inv_def)
  show ?thesis
  proof (cases "nat_set_root (nat_trees nm ! i) b")
    case None
    then have none: "{n \<in> dirty_in nm b. TREE_IDX n nm = i} = {}" using e by (simp only: option.case)
    show ?thesis unfolding none using None wrote_refl [OF r(1-4)] by (simp add: flush_set_def)
  next
    case (Some nes)
    then have nes: "distinct (entry_list nes)" "set (entry_list nes) = {n \<in> dirty_in nm b. TREE_IDX n nm = i}"
      using e by (simp_all only: option.case)
    have "wrote page nm (fold (flush_nat_entry page (b * NAT_ENTRY_PER_BLOCK)) (entry_list nes) nm) (set (entry_list nes))"
    proof (rule flush_list_wrote [OF r nes(1) _ _ refl])
      show "set (entry_list nes) \<subseteq> dirty_nats nm" "\<forall>n\<in>set (entry_list nes). NAT_BLOCK_OFFSET n = b" using nes(2) by auto
      show "case page of None \<Rightarrow> n_nats (cursum nm) + length (entry_list nes) \<le> NAT_JOURNAL_ENTRIES
        | Some a \<Rightarrow> a = nat_addr nm b \<and> (\<forall>n\<in>set (entry_list nes). n \<notin> jkeys (cursum nm))"
        using assms(3) nes distinct_card [OF nes(1)] by (auto split: option.splits)
    qed
    then show ?thesis unfolding nes(2) using Some by (simp add: flush_set_def)
  qed
qed

lemma flush_sets_wrote:
  assumes "ready nm" "distinct is" "\<forall>i \<in> set is. i < nat_tree_cnt nm"
    and "case page of None \<Rightarrow> n_nats (cursum nm) + card {n \<in> dirty_in nm b. TREE_IDX n nm \<in> set is} \<le> NAT_JOURNAL_ENTRIES
       | Some a \<Rightarrow> a = nat_addr nm b \<and> (\<forall>n \<in> jkeys (cursum nm). NAT_BLOCK_OFFSET n \<noteq> b)"
  shows "wrote page nm (fold (flush_set page b) is nm) {n \<in> dirty_in nm b. TREE_IDX n nm \<in> set is}"
  using assms
proof (induction "is" arbitrary: nm)
  case Nil
  then show ?case by (simp add: wrote_refl ready_def)
next
  case (Cons i "is")
  have t: "trees_ok nm" using Cons.prems(1) by (simp add: ready_def cache_inv_def)
  have fin: "finite {n \<in> dirty_in nm b. P n}" for P using finite_dirty [OF t] by simp
  let ?S = "{n \<in> dirty_in nm b. TREE_IDX n nm = i}" and ?T = "{n \<in> dirty_in nm b. TREE_IDX n nm \<in> set is}"
  have un: "{n \<in> dirty_in nm b. TREE_IDX n nm \<in> set (i # is)} = ?S \<union> ?T" "?S \<inter> ?T = {}" using Cons.prems(2) by auto
  have cu: "card (?S \<union> ?T) = card ?S + card ?T" by (rule card_Un_disjoint [OF fin fin un(2)])
  let ?q = "flush_set page b i nm"
  have w: "wrote page nm ?q ?S"
    using Cons.prems cu unfolding un(1) by (intro flush_set_wrote) (auto split: option.splits)
  have q: "nat_tree_cnt ?q = nat_tree_cnt nm" "dirty_nats ?q = dirty_nats nm - ?S" using w by (auto simp: wrote_def cleaned_def)
  have idx: "TREE_IDX n ?q = TREE_IDX n nm" for n by (simp add: TREE_IDX_def q(1))
  have T: "{n \<in> dirty_in ?q b. TREE_IDX n ?q \<in> set is} = ?T" using Cons.prems(2) by (auto simp: q(2) idx)
  have "wrote page ?q (fold (flush_set page b) is ?q) ?T"
    unfolding T [symmetric]
  proof (rule Cons.IH)
    show "ready ?q" using wrote_ready [OF w Cons.prems(1)] .
    show "distinct is" "\<forall>i\<in>set is. i < nat_tree_cnt ?q" using Cons.prems(2,3) q(1) by simp_all
    show "case page of None \<Rightarrow> n_nats (cursum ?q) + card {n \<in> dirty_in ?q b. TREE_IDX n ?q \<in> set is} \<le> NAT_JOURNAL_ENTRIES
      | Some a \<Rightarrow> a = nat_addr ?q b \<and> (\<forall>n\<in>jkeys (cursum ?q). NAT_BLOCK_OFFSET n \<noteq> b)"
      unfolding T using Cons.prems(4) w cu unfolding un(1) by (auto simp: wrote_def split: option.splits)
  qed
  from wrote_trans [OF w this un(2) fin fin] show ?case unfolding un(1) by simp
qed

text \<open>The sets of the block are dropped from all trees.\<close>

definition drop_set :: "nat \<Rightarrow> nat \<Rightarrow> nm_info \<Rightarrow> nm_info" where
  "drop_set b i = upd_tree i (\<lambda>t. t\<lparr>nat_set_root := (nat_set_root t)(b := None)\<rparr>)"

lemma drop_sets_wrote:
  assumes "ready nm" "dirty_in nm b = {}"
  shows "wrote page nm (fold (drop_set b) is nm) {}"
proof -
  let ?f = "drop_set b"
  have step: "wrote page q (?f i q) {}" if "ready q" "dirty_in q b = {}" for i q
  proof -
    have t: "trees_ok q" using that(1) by (simp add: ready_def cache_inv_def)
    have ok: "trees_ok (?f i q)"
    proof (cases "i < nat_tree_cnt q")
      case True
      have k: "tree_ok (max_nid q) (nat_tree_cnt q) i (nat_trees q ! i)" using t True by (simp add: trees_ok_def)
      have "{n \<in> tree_dirty (nat_trees q ! i). NAT_BLOCK_OFFSET n = b} = {}" using that(2) unfolding tree_dirty_eq [OF t True] by auto
      from upd_tree_ok [OF t True, of "\<lambda>t. t\<lparr>nat_set_root := (nat_set_root t)(b := None)\<rparr>", OF tree_ok_drop_set [OF k this]]
      show ?thesis unfolding drop_set_def .
    next
      case False
      then show ?thesis using t by (simp add: drop_set_def upd_tree_def list_update_beyond trees_ok_def)
    qed
    have look: "lookup_nat_cache (?f i q) = lookup_nat_cache q"
    proof
      fix n show "lookup_nat_cache (?f i q) n = lookup_nat_cache q n"
        using TREE_IDX_lt [OF t, of n] by (cases "TREE_IDX n q = i") (simp_all add: drop_set_def lookup_nat_cache_def upd_tree_def TREE_IDX_def)
    qed
    have "same_media q (?f i q)" by (simp add: drop_set_def)
    note m = same_mediaD [OF this]
    have "nat_view (?f i q) = nat_view q" by (simp add: nat_view_def fun_eq_iff look m split: option.split)
    moreover have "nid_map (?f i q) = nid_map q" "nid_ok (?f i q) = nid_ok q" "journal_ok (?f i q) = journal_ok q" 
      by (simp_all add: drop_set_def upd_tree_def nid_map_def fun_eq_iff lookup_free_nid_list_def LIST_IDX_def nid_ok_def journal_ok_def nat_addr_def current_nat_addr_def)
    moreover have "nat_bitmap (?f i q) = nat_bitmap q" "nat_area (?f i q) = nat_area q" "cursum (?f i q) = cursum q" "nm_need_fsck (?f i q) = nm_need_fsck q"
      by (simp_all add: drop_set_def upd_tree_def)
    moreover have "nat_addr (?f i q) = nat_addr q" "nat_shadow (?f i q) = nat_shadow q"
      by (rule nat_addr_cong; simp add: drop_set_def upd_tree_def)+
    ultimately show ?thesis
      using that(1) ok by (auto simp: wrote_def cleaned_def cache_inv_def coherent_def look m ready_def nids_unused_def media_ok_def dirty_nats_def
          split: option.split)
  qed
  show ?thesis
    using assms
  proof (induction "is" arbitrary: nm)
    case Nil
    then show ?case by (simp add: wrote_refl ready_def)
  next
    case (Cons i "is")
    note w = step [OF Cons.prems, of i]
    have "dirty_nats (?f i nm) = dirty_nats nm" using w by (simp add: wrote_def cleaned_def)
    then have "dirty_in (?f i nm) b = {}" using Cons.prems(2) by simp
    note this = Cons.IH [OF wrote_ready [OF w Cons.prems(1)] this]
    from wrote_trans [OF w this] show ?case by simp
  qed
qed

text \<open>Moving a block to its other copy.\<close>

lemma get_next_nat_page_spec:
  assumes "ready nm" "b < 8 * length (nat_bitmap nm)" "get_next_nat_page nm (b * NAT_ENTRY_PER_BLOCK) = (q, a)"
  shows "a = nat_shadow nm b" "ready q" "dirty_nats q = dirty_nats nm" "TREE_IDX n q = TREE_IDX n nm" "cursum q = cursum nm"
    "max_nid q = max_nid nm" "nat_tree_cnt q = nat_tree_cnt nm" "length (nat_bitmap q) = length (nat_bitmap nm)" "nm_need_fsck q = nm_need_fsck nm"
    "\<forall>n<max_nid nm. nat_view q n = nat_view nm n"
    "c < 8 * length (nat_bitmap nm) \<Longrightarrow> nat_addr q c = (if c = b then nat_shadow nm b else nat_addr nm c)"
    "c < 8 * length (nat_bitmap nm) \<Longrightarrow> c \<noteq> b \<Longrightarrow> nat_shadow q c = nat_shadow nm c"
    "\<forall>x. x \<noteq> nat_shadow nm b \<longrightarrow> nat_area q x = nat_area nm x"
proof -
  let ?m = "nm\<lparr>nat_area := (nat_area nm)(nat_shadow nm b := nat_area nm (nat_addr nm b))\<rparr>"
  have q: "q = set_to_next_nat ?m (b * NAT_ENTRY_PER_BLOCK)" "a = nat_shadow nm b"
    using assms(3) by (auto simp: get_next_nat_page_def Let_def nat_addr_def nat_shadow_def)
  show "a = nat_shadow nm b" by (fact q(2))
  have m: "nat_addr ?m = nat_addr nm" "nat_shadow ?m = nat_shadow nm"
    by (rule nat_addr_cong; simp)+
  have bm: "b < 8 * length (nat_bitmap ?m)" using assms(2) by simp
  have addr: "nat_addr q c = (if c = b then nat_shadow nm b else nat_addr nm c)" if "c < 8 * length (nat_bitmap nm)" for c
    using nata.cur_flip [OF bm, of c] that by (simp add: q m)
  then show "c < 8 * length (nat_bitmap nm) \<Longrightarrow> nat_addr q c = (if c = b then nat_shadow nm b else nat_addr nm c)" .
  show "c < 8 * length (nat_bitmap nm) \<Longrightarrow> c \<noteq> b \<Longrightarrow> nat_shadow q c = nat_shadow nm c"
    using nata.nxt_flip [OF bm, of c] by (simp add: q m)
  have f: "cursum q = cursum nm" "max_nid q = max_nid nm" "nat_trees q = nat_trees nm" "nm_need_fsck q = nm_need_fsck nm"
    "nat_area q = (nat_area nm)(nat_shadow nm b := nat_area nm (nat_addr nm b))" "length (nat_bitmap q) = length (nat_bitmap nm)"
    "nid_map q = nid_map nm" "nid_ok q = nid_ok nm" "lookup_nat_cache q = lookup_nat_cache nm" "trees_ok q = trees_ok nm"
    "journal_ok q = journal_ok nm"
    by (simp_all add: q set_to_next_nat_def nid_map_def fun_eq_iff lookup_free_nid_list_def LIST_IDX_def nid_ok_def lookup_nat_cache_def
        TREE_IDX_def trees_ok_def journal_ok_def)
  have ready: "cache_inv nm" "nid_ok nm" "nids_unused nm" "media_ok nm" "no_new nm" using assms(1) by (simp_all add: ready_def)
  have page: "nat_in_page q n = nat_in_page nm n" if "n < max_nid nm" for n
  proof -
    have c: "NAT_BLOCK_OFFSET n < 8 * length (nat_bitmap nm)" using ready(4) that by (simp add: media_ok_def)
    show ?thesis
      using nata.nxt_not_cur [OF assms(2) c] unfolding nat_in_page_eq addr [OF c] f(5) by simp
  qed
  have media: "on_media q n = on_media nm n" if "n < max_nid nm" for n using page [OF that] by (simp add: on_media_def f(1) split: option.split)
  show view: "\<forall>n<max_nid nm. nat_view q n = nat_view nm n" using media by (auto simp: nat_view_def f(9) split: option.split)
  have lt: "n < max_nid nm" if "lookup_nat_cache nm n = Some e" for n e
    using trees_okD(4) [OF _ that] ready(1) by (simp add: cache_inv_def)
  have "coherent q" using ready(1) media lt by (fastforce simp: cache_inv_def coherent_def f(9))
  moreover have "nids_unused q"
    unfolding nids_unused_def f(7)
  proof (intro allI impI)
    fix n assume n: "nid_map nm n = Some NID_NEW"
    show "raw_block_addr (nat_view q n) = NULL_ADDR"
      using fcnt_pos(4) [OF ready(2) n refl] view ready(3) n by (simp add: nids_unused_def)
  qed
  moreover show d: "dirty_nats q = dirty_nats nm" by (simp add: dirty_nats_def f(9))
  moreover have "no_new q" using ready(5) view lt unfolding no_new_def d by (auto simp: dirty_nats_def)
  moreover have "media_ok q" using ready(4) by (simp add: media_ok_def f)
  ultimately show "ready q" using ready by (simp add: ready_def cache_inv_def f)
  show "TREE_IDX n q = TREE_IDX n nm" "nat_tree_cnt q = nat_tree_cnt nm" by (simp_all add: TREE_IDX_def f)
  show "cursum q = cursum nm" "max_nid q = max_nid nm" "length (nat_bitmap q) = length (nat_bitmap nm)" "nm_need_fsck q = nm_need_fsck nm"
    "\<forall>x. x \<noteq> nat_shadow nm b \<longrightarrow> nat_area q x = nat_area nm x" by (simp_all add: f)
qed

text \<open>The effect of flushing the sets of block \<open>b\<close>.\<close>

definition flushed :: "nm_info \<Rightarrow> nm_info \<Rightarrow> nat \<Rightarrow> bool" where
  "flushed nm r b \<longleftrightarrow> ready r \<and> max_nid r = max_nid nm \<and> nat_tree_cnt r = nat_tree_cnt nm \<and>
     length (nat_bitmap r) = length (nat_bitmap nm) \<and> nm_need_fsck r = nm_need_fsck nm \<and>
     dirty_nats r = dirty_nats nm - dirty_in nm b \<and> (\<forall>n<max_nid nm. nat_view r n = nat_view nm n) \<and>
     (\<forall>c<8 * length (nat_bitmap nm). c \<noteq> b \<longrightarrow> nat_shadow r c = nat_shadow nm c) \<and>
     (\<forall>x. x \<noteq> nat_shadow nm b \<or> 8 * length (nat_bitmap nm) \<le> b \<longrightarrow> nat_area r x = nat_area nm x) \<and>
     n_nats (cursum r) \<le> n_nats (cursum nm) + card (dirty_in nm b) \<and> jkeys (cursum r) \<subseteq> jkeys (cursum nm) \<union> dirty_in nm b"

definition pack_ok :: "nm_info \<Rightarrow> per_core_sets_pack \<Rightarrow> bool" where
  "pack_ok nm p \<longleftrightarrow> distinct (set_trees p) \<and> (\<forall>i \<in> set (set_trees p). i < nat_tree_cnt nm) \<and>
     (\<forall>n \<in> dirty_in nm (set_id p). TREE_IDX n nm \<in> set (set_trees p)) \<and> pack_entry_cnt p = card (dirty_in nm (set_id p))"

lemma flush_pack_eq:
  "flush_nat_entry_set_per_core p nm =
     (let (q, page) = (if has_cursum_space (cursum nm) (pack_entry_cnt p) then (nm, None)
                       else let (q, a) = get_next_nat_page nm (set_id p * NAT_ENTRY_PER_BLOCK) in (q, Some a));
          q = fold (flush_set page (set_id p)) (set_trees p) q
      in fold (drop_set (set_id p)) [0..<nat_tree_cnt q] q)"
proof -
  have "flush_set page (set_id p) = (\<lambda>i nm. case nat_set_root (nat_trees nm ! i) (set_id p) of None \<Rightarrow> nm
      | Some nes \<Rightarrow> fold (flush_nat_entry page (set_id p * NAT_ENTRY_PER_BLOCK)) (entry_list nes) nm)" for page
    by (simp add: flush_set_def fun_eq_iff)
  moreover have "drop_set (set_id p) = (\<lambda>i. upd_tree i (\<lambda>t. t\<lparr>nat_set_root := (nat_set_root t)(set_id p := None)\<rparr>))"
    by (simp add: drop_set_def fun_eq_iff)
  ultimately show ?thesis by (simp only: flush_nat_entry_set_per_core_def Let_def)
qed

lemma flush_pack_flushed:
  assumes "ready nm" "pack_ok nm p"
    and "has_cursum_space (cursum nm) (pack_entry_cnt p) \<or> (\<forall>n \<in> jkeys (cursum nm). NAT_BLOCK_OFFSET n \<noteq> set_id p)"
  shows "flushed nm (flush_nat_entry_set_per_core p nm) (set_id p)"
proof -
  let ?b = "set_id p"
  have p: "distinct (set_trees p)" "\<forall>i \<in> set (set_trees p). i < nat_tree_cnt nm"
    "\<forall>n \<in> dirty_in nm ?b. TREE_IDX n nm \<in> set (set_trees p)" "pack_entry_cnt p = card (dirty_in nm ?b)"
    using assms(2) by (simp_all add: pack_ok_def)
  have all: "{n \<in> dirty_in nm ?b. TREE_IDX n nm \<in> set (set_trees p)} = dirty_in nm ?b" using p(3) by auto
  have fin: "wrote page q (fold (drop_set ?b) [0..<nat_tree_cnt s] s) (dirty_in nm ?b)"
    if "ready q" "dirty_nats q = dirty_nats nm" "wrote page q s (dirty_in nm ?b)" for page q s
  proof -
    have "dirty_in s ?b = {}" using that by (auto simp: wrote_def cleaned_def)
    from wrote_trans [OF that(3) drop_sets_wrote [OF wrote_ready [OF that(3,1)] this]]
    show ?thesis using finite_dirty [of nm] assms(1) by (simp add: ready_def cache_inv_def)
  qed
  show ?thesis
  proof (cases "has_cursum_space (cursum nm) (pack_entry_cnt p)")
    case True
    have "n_nats (cursum nm) \<le> NAT_JOURNAL_ENTRIES" using assms(1) by (simp add: ready_def media_ok_def journal_ok_def)
    then have "n_nats (cursum nm) + card (dirty_in nm ?b) \<le> NAT_JOURNAL_ENTRIES"
      using True p(4) by (simp add: has_cursum_space_def MAX_NAT_JENTRIES_def)
    then have "wrote None nm (fold (flush_set None ?b) (set_trees p) nm) (dirty_in nm ?b)"
      using flush_sets_wrote [OF assms(1) p(1,2), where page = None and b = ?b] unfolding all by simp
    note w = fin [OF assms(1) refl this]
    then show ?thesis
      using wrote_ready [OF w assms(1)] True
      by (simp add: flushed_def flush_pack_eq wrote_def cleaned_def Let_def)
  next
    case False
    then have jk: "\<forall>n \<in> jkeys (cursum nm). NAT_BLOCK_OFFSET n \<noteq> ?b" using assms(3) by simp
    have "card (dirty_in nm ?b) \<noteq> 0" using False p(4) unfolding has_cursum_space_def by linarith
    then have "dirty_in nm ?b \<noteq> {}" by (metis card.empty)
    then obtain n where dn: "n \<in> dirty_nats nm" "NAT_BLOCK_OFFSET n = ?b" by auto
    have t: "trees_ok nm" using assms(1) by (simp add: ready_def cache_inv_def)
    have "n < max_nid nm" using dirty_lookup [OF t dn(1)] .
    then have b: "?b < 8 * length (nat_bitmap nm)" using assms(1) dn(2) by (auto simp: ready_def media_ok_def)
    obtain q a where g: "get_next_nat_page nm (?b * NAT_ENTRY_PER_BLOCK) = (q, a)" by fastforce
    note n = get_next_nat_page_spec [OF assms(1) b g]
    have alq: "{n \<in> dirty_in q ?b. TREE_IDX n q \<in> set (set_trees p)} = dirty_in nm ?b" unfolding n(3,4) by (fact all)
    have "wrote (Some a) q (fold (flush_set (Some a) ?b) (set_trees p) q) (dirty_in nm ?b)"
      using flush_sets_wrote [OF n(2) p(1), where page = "Some a" and b = ?b] p(2) n(11) [OF b] jk unfolding alq n(1,5,7) by simp
    note w = fin [OF n(2,3) this]
    let ?r = "fold (drop_set ?b) [0..<nat_tree_cnt (fold (flush_set (Some a) ?b) (set_trees p) q)] (fold (flush_set (Some a) ?b) (set_trees p) q)"
    have r: "flush_nat_entry_set_per_core p nm = ?r" using False by (simp add: flush_pack_eq g Let_def)
    have "ready ?r" using wrote_ready [OF w n(2)] .
    moreover have "max_nid ?r = max_nid nm" "nat_tree_cnt ?r = nat_tree_cnt nm" "length (nat_bitmap ?r) = length (nat_bitmap nm)"
      "nm_need_fsck ?r = nm_need_fsck nm" "dirty_nats ?r = dirty_nats nm - dirty_in nm ?b" "cursum ?r = cursum nm"
      using w n by (simp_all add: wrote_def cleaned_def)
    moreover have "\<forall>n<max_nid nm. nat_view ?r n = nat_view nm n" using w n(6,10) by (simp add: wrote_def cleaned_def)
    moreover have "\<forall>c<8 * length (nat_bitmap nm). c \<noteq> ?b \<longrightarrow> nat_shadow ?r c = nat_shadow nm c"
      using w n(12) by (simp add: wrote_def)
    moreover have "\<forall>x. x \<noteq> nat_shadow nm ?b \<longrightarrow> nat_area ?r x = nat_area nm x" using w n(1,13) by (simp add: wrote_def)
    ultimately show ?thesis using b by (simp add: flushed_def r)
  qed
qed

end
