(* ===== verification/Nat_Checkpoint.thy ===== *)
theory Nat_Checkpoint
  imports Nat_Flush "HOL-Library.Multiset"
begin

section \<open>The checkpoint of the node address table\<close>

text \<open>
  The packs that \<open>flush_nat_entries_per_core\<close> builds hold, for every NAT block with dirty entries,
  the trees that have a set for the block and the number of entries; the main result follows by
  flushing them one after the other.
\<close>

subsection \<open>Collecting the packs\<close>

definition pack_of :: "per_core_sets_pack list \<Rightarrow> nat \<Rightarrow> per_core_sets_pack option" where
  "pack_of packs st = find (\<lambda>p. set_id p = st) packs"

lemma pack_of_iff:
  assumes "distinct (map set_id packs)"
  shows "pack_of packs st = Some p \<longleftrightarrow> p \<in> set packs \<and> set_id p = st"
  using assms
proof (induction packs)
  case (Cons q packs)
  then show ?case by (auto simp: pack_of_def)
qed (simp add: pack_of_def)

lemma pack_of_None: "pack_of packs st = None \<longleftrightarrow> st \<notin> set_id ` set packs"
  by (auto simp: pack_of_def find_None_iff)

lemma mset_insert_pack: "mset (insert_pack p qs) = add_mset p (mset qs)"
  by (induction p qs rule: insert_pack.induct) simp_all

lemma pack_of_cong:
  assumes "mset ps = mset qs" "distinct (map set_id qs)"
  shows "distinct (map set_id ps)" "pack_of ps = pack_of qs"
proof -
  have "mset (map set_id ps) = mset (map set_id qs)" using assms(1) by (metis mset_map)
  then show d: "distinct (map set_id ps)" using assms(2) mset_eq_imp_distinct_iff by blast
  have s: "set ps = set qs" using assms(1) mset_eq_setD by blast
  show "pack_of ps = pack_of qs"
  proof
    fix st
    have "pack_of ps st = Some p \<longleftrightarrow> pack_of qs st = Some p" for p using pack_of_iff [OF d] pack_of_iff [OF assms(2)] s by simp
    then show "pack_of ps st = pack_of qs st" by (metis option.exhaust)
  qed
qed

lemma pack_of_mid: "set_id x \<notin> set_id ` set b \<Longrightarrow> pack_of (b @ x # r) = (pack_of (b @ r))(set_id x \<mapsto> x)"
  by (induction b) (auto simp: pack_of_def fun_eq_iff)

lemma adjust_pack_of:
  assumes "distinct (map set_id packs)"
  shows "distinct (map set_id (adjust_nat_entry_set_per_core t st nes mx packs))"
    "pack_of (adjust_nat_entry_set_per_core t st nes mx packs) = (pack_of packs)(st \<mapsto>
       (case pack_of packs st of
          None \<Rightarrow> \<lparr>set_trees = [t], set_id = st, pack_entry_cnt = entry_cnt nes\<rparr>
        | Some cur \<Rightarrow> cur\<lparr>set_trees := set_trees cur @ [t], pack_entry_cnt := add32 (pack_entry_cnt cur) (entry_cnt nes)\<rparr>))"
proof -
  let ?r = "adjust_nat_entry_set_per_core t st nes mx packs"
  let ?v = "case pack_of packs st of
          None \<Rightarrow> \<lparr>set_trees = [t], set_id = st, pack_entry_cnt = entry_cnt nes\<rparr>
        | Some cur \<Rightarrow> cur\<lparr>set_trees := set_trees cur @ [t], pack_entry_cnt := add32 (pack_entry_cnt cur) (entry_cnt nes)\<rparr>"
  have "distinct (map set_id ?r) \<and> pack_of ?r = (pack_of packs)(st \<mapsto> ?v)"
  proof (cases "dropWhile (\<lambda>p. set_id p \<noteq> st) packs")
    case Nil
    then have none: "st \<notin> set_id ` set packs" by (auto simp: dropWhile_eq_Nil_conv)
    then have pn: "pack_of packs st = None" by (simp add: pack_of_None)
    let ?p = "\<lparr>set_trees = [t], set_id = st, pack_entry_cnt = entry_cnt nes\<rparr>"
    have m: "mset ?r = mset (?p # packs)"
      unfolding adjust_nat_entry_set_per_core_def Nil list.case Let_def by (simp add: mset_insert_pack)
    have d: "distinct (map set_id (?p # packs))" using assms none by simp
    have "pack_of (?p # packs) = (pack_of packs)(st \<mapsto> ?p)" by (auto simp: pack_of_def fun_eq_iff)
    then show ?thesis using pack_of_cong [OF m d] pn by simp
  next
    case (Cons cur rest)
    let ?b = "takeWhile (\<lambda>p. set_id p \<noteq> st) packs"
    have id: "set_id cur = st" using Cons by (metis (mono_tags, lifting) dropWhile_eq_Cons_conv)
    have pk: "packs = ?b @ cur # rest" using takeWhile_dropWhile_id [of "\<lambda>p. set_id p \<noteq> st" packs] Cons by simp
    have d0: "distinct (map set_id (?b @ cur # rest))" using assms pk by simp
    let ?c = "cur\<lparr>set_trees := set_trees cur @ [t], pack_entry_cnt := add32 (pack_entry_cnt cur) (entry_cnt nes)\<rparr>"
    have m: "mset ?r = mset (?b @ ?c # rest)"
      unfolding adjust_nat_entry_set_per_core_def Cons list.case Let_def by simp
    have d: "distinct (map set_id (?b @ ?c # rest))" using d0 by simp
    have cur: "pack_of packs st = Some cur" using pack_of_iff [OF assms] pk id by (metis in_set_conv_decomp)
    have nb: "st \<notin> set_id ` set ?b" using set_takeWhileD by fastforce
    have "pack_of (?b @ ?c # rest) = (pack_of (?b @ cur # rest))(st \<mapsto> ?c)"
      using pack_of_mid [of ?c ?b rest] pack_of_mid [of cur ?b rest] nb id by simp
    then show ?thesis using pack_of_cong [OF m d] cur pk by simp
  qed
  then show "distinct (map set_id ?r)" "pack_of ?r = (pack_of packs)(st \<mapsto> ?v)" by blast+
qed

text \<open>The sets met so far, as triples of tree, block and set, against the packs built from them.\<close>

definition packs_for :: "(nat \<times> nat \<times> nat_entry_set) list \<Rightarrow> per_core_sets_pack list \<Rightarrow> bool" where
  "packs_for L packs \<longleftrightarrow> distinct (map set_id packs) \<and>
     (\<forall>st. let F = filter (\<lambda>(i, s, nes). s = st) L
       in pack_of packs st = (if F = [] then None
          else Some \<lparr>set_trees = map fst F, set_id = st, pack_entry_cnt = sum_list (map (\<lambda>(i, s, nes). entry_cnt nes) F) mod 2 ^ 32\<rparr>))"

lemma packs_for_step:
  assumes "packs_for L packs" "entry_cnt nes < 2 ^ 32"
  shows "packs_for (L @ [(i, st, nes)]) (adjust_nat_entry_set_per_core i st nes mx packs)"
proof -
  have d: "distinct (map set_id packs)" using assms(1) by (simp add: packs_for_def)
  note a = adjust_pack_of [OF d, of i st nes mx]
  show ?thesis
    unfolding packs_for_def Let_def
  proof (intro conjI allI)
    show "distinct (map set_id (adjust_nat_entry_set_per_core i st nes mx packs))" by (fact a(1))
    fix s
    let ?F = "filter (\<lambda>(i, s', nes). s' = s) L"
    have p: "pack_of packs s = (if ?F = [] then None
        else Some \<lparr>set_trees = map fst ?F, set_id = s, pack_entry_cnt = sum_list (map (\<lambda>(i, s, nes). entry_cnt nes) ?F) mod 2 ^ 32\<rparr>)"
      using assms(1) by (simp add: packs_for_def Let_def)
    show "pack_of (adjust_nat_entry_set_per_core i st nes mx packs) s =
      (if filter (\<lambda>(i, s', nes). s' = s) (L @ [(i, st, nes)]) = [] then None
       else Some \<lparr>set_trees = map fst (filter (\<lambda>(i, s', nes). s' = s) (L @ [(i, st, nes)])), set_id = s,
          pack_entry_cnt = sum_list (map (\<lambda>(i, s, nes). entry_cnt nes) (filter (\<lambda>(i, s', nes). s' = s) (L @ [(i, st, nes)]))) mod 2 ^ 32\<rparr>)"
      unfolding a(2) using p assms(2) by (auto simp: add32_def mod_add_left_eq)
  qed
qed

definition all_sets :: "nm_info \<Rightarrow> (nat \<times> nat \<times> nat_entry_set) list" where
  "all_sets nm = concat (map (\<lambda>i. map (\<lambda>(st, nes). (i, st, nes)) (gang_lookup_nat_set nm i)) [0..<nat_tree_cnt nm])"

lemma fold_triples:
  "fold (\<lambda>i. fold (\<lambda>(st, nes). f i st nes) (g i)) is = fold (\<lambda>(i, st, nes). f i st nes) (concat (map (\<lambda>i. map (\<lambda>(st, nes). (i, st, nes)) (g i)) is))"
  by (induction "is") (simp_all add: fold_map comp_def case_prod_unfold)

lemma fold_packs_for:
  "\<forall>(i, st, nes) \<in> set L. entry_cnt nes < 2 ^ 32 \<Longrightarrow> packs_for L (fold (\<lambda>(i, st, nes). adjust_nat_entry_set_per_core i st nes mx) L [])"
proof (induction L rule: rev_induct)
  case Nil
  show ?case by (simp add: packs_for_def pack_of_def)
next
  case (snoc x L)
  obtain i st nes where x: "x = (i, st, nes)" by (cases x) auto
  show ?case using packs_for_step [OF snoc.IH] snoc.prems by (auto simp: x)
qed

lemma collect_packs_for:
  assumes "\<forall>(i, st, nes) \<in> set (all_sets nm). entry_cnt nes < 2 ^ 32"
  shows "packs_for (all_sets nm) (collect_packs nm)"
  unfolding collect_packs_def fold_triples all_sets_def [symmetric] by (rule fold_packs_for [OF assms])

text \<open>What the sets of a block amount to.\<close>

lemma filter_concat_triples:
  "filter (\<lambda>(i, s, nes). s = st) (concat (map (\<lambda>i. map (\<lambda>(st, nes). (i, st, nes)) (g i)) is)) =
     concat (map (\<lambda>i. map (\<lambda>(st, nes). (i, st, nes)) (filter (\<lambda>(s, nes). s = st) (g i))) is)"
  by (induction "is") (simp_all add: filter_map comp_def case_prod_unfold)

lemma gang_filter:
  "filter (\<lambda>(s, nes). s = st) (gang_lookup_nat_set nm i) =
     (if st \<le> NAT_BLOCK_OFFSET (max_nid nm)
      then (case nat_set_root (nat_trees nm ! i) st of None \<Rightarrow> [] | Some nes \<Rightarrow> [(st, nes)]) else [])"
proof -
  let ?f = "\<lambda>st. map_option (Pair st) (nat_set_root (nat_trees nm ! i) st)"
  have "filter (\<lambda>(s, nes). s = st) (List.map_filter ?f [0..<k]) =
      (if st < k then (case nat_set_root (nat_trees nm ! i) st of None \<Rightarrow> [] | Some nes \<Rightarrow> [(st, nes)]) else [])" for k
  proof (induction k)
    case (Suc k)
    have m: "List.map_filter ?f (xs @ [x]) = List.map_filter ?f xs @ (case nat_set_root (nat_trees nm ! i) x of None \<Rightarrow> [] | Some nes \<Rightarrow> [(x, nes)])" for xs x
      by (simp add: map_filter_def split: option.split)
    show ?case
      using Suc by (cases "st = k"; cases "nat_set_root (nat_trees nm ! i) k") (auto simp: m less_Suc_eq split: option.split)
  qed (simp add: map_filter_def)
  then show ?thesis by (simp add: gang_lookup_nat_set_def less_Suc_eq_le del: upt_Suc)
qed

lemma sets_of_block:
  assumes "st \<le> NAT_BLOCK_OFFSET (max_nid nm)"
  shows "filter (\<lambda>(i, s, nes). s = st) (all_sets nm) =
      concat (map (\<lambda>i. case nat_set_root (nat_trees nm ! i) st of None \<Rightarrow> [] | Some nes \<Rightarrow> [(i, st, nes)]) [0..<nat_tree_cnt nm])"
  unfolding all_sets_def filter_concat_triples gang_filter using assms
  by (intro arg_cong [of _ _ concat] map_cong refl) (simp split: option.split)

lemma triples_simps:
  "map fst (concat (map (\<lambda>i. case g i of None \<Rightarrow> [] | Some x \<Rightarrow> [(i, st, x)]) is)) = filter (\<lambda>i. g i \<noteq> None) is"
  "sum_list (map (\<lambda>(i, s, x). h x) (concat (map (\<lambda>i. case g i of None \<Rightarrow> [] | Some x \<Rightarrow> [(i, st, x)]) is))) =
     sum_list (map (\<lambda>i. case g i of None \<Rightarrow> 0 | Some x \<Rightarrow> h x) is)"
  by (induction "is") (auto split: option.split)

lemma entry_cnt_card:
  assumes "trees_ok nm" "i < nat_tree_cnt nm"
  shows "(case nat_set_root (nat_trees nm ! i) st of None \<Rightarrow> 0 | Some nes \<Rightarrow> entry_cnt nes) = card {n \<in> dirty_in nm st. TREE_IDX n nm = i}"
proof -
  have t: "tree_ok (max_nid nm) (nat_tree_cnt nm) i (nat_trees nm ! i)" using assms by (simp add: trees_ok_def)
  have e: "{n \<in> tree_dirty (nat_trees nm ! i). NAT_BLOCK_OFFSET n = st} = {n \<in> dirty_in nm st. TREE_IDX n nm = i}"
    unfolding tree_dirty_eq [OF assms] by auto
  show ?thesis
    using tree_okD(6) [OF t, of st] unfolding set_ok_def e
    by (cases "nat_set_root (nat_trees nm ! i) st") (auto simp: distinct_card [symmetric] simp del: Collect_empty_eq)
qed

lemma block_card:
  assumes "trees_ok nm"
  shows "sum_list (map (\<lambda>i. case nat_set_root (nat_trees nm ! i) st of None \<Rightarrow> 0 | Some nes \<Rightarrow> entry_cnt nes) [0..<nat_tree_cnt nm]) =
    card (dirty_in nm st)"
proof -
  have fin: "finite {n \<in> dirty_in nm st. TREE_IDX n nm = i}" for i using finite_dirty [OF assms] by simp
  have "sum_list (map (\<lambda>i. case nat_set_root (nat_trees nm ! i) st of None \<Rightarrow> 0 | Some nes \<Rightarrow> entry_cnt nes) [0..<nat_tree_cnt nm]) =
      (\<Sum>i<nat_tree_cnt nm. card {n \<in> dirty_in nm st. TREE_IDX n nm = i})"
    using entry_cnt_card [OF assms] by (subst sum_list_distinct_conv_sum_set) (auto simp: atLeast0LessThan intro!: sum.cong)
  also have "\<dots> = card (\<Union>i<nat_tree_cnt nm. {n \<in> dirty_in nm st. TREE_IDX n nm = i})"
    using fin by (subst card_UN_disjoint) auto
  also have "(\<Union>i<nat_tree_cnt nm. {n \<in> dirty_in nm st. TREE_IDX n nm = i}) = dirty_in nm st"
    using TREE_IDX_lt [OF assms] by auto
  finally show ?thesis .
qed

lemma dirty_card_lt:
  assumes "trees_ok nm"
  shows "card (dirty_in nm st) < 2 ^ 32" "card (dirty_nats nm) < 2 ^ 32"
proof -
  have "n < max_nid nm" if "n \<in> dirty_nats nm" for n using dirty_lookup [OF assms that] .
  then have "card (dirty_nats nm) \<le> max_nid nm" using card_mono [of "{..<max_nid nm}" "dirty_nats nm"] by auto
  then show l: "card (dirty_nats nm) < 2 ^ 32" using trees_okD(2) [OF assms] by simp
  have "card (dirty_in nm st) \<le> card (dirty_nats nm)" using finite_dirty [OF assms] by (intro card_mono) auto
  then show "card (dirty_in nm st) < 2 ^ 32" using l by simp
qed

lemma collect_packs_ok:
  assumes "trees_ok nm"
  shows "distinct (map set_id (collect_packs nm))" "\<forall>p \<in> set (collect_packs nm). pack_ok nm p"
    "\<forall>n \<in> dirty_nats nm. NAT_BLOCK_OFFSET n \<in> set_id ` set (collect_packs nm)"
proof -
  have small: "\<forall>(i, st, nes) \<in> set (all_sets nm). entry_cnt nes < 2 ^ 32 \<and> st \<le> NAT_BLOCK_OFFSET (max_nid nm)"
  proof (clarify, intro conjI)
    fix i st nes assume "(i, st, nes) \<in> set (all_sets nm)"
    then have i: "i < nat_tree_cnt nm" "(st, nes) \<in> set (gang_lookup_nat_set nm i)" by (auto simp: all_sets_def)
    then have "(st, nes) \<in> set (filter (\<lambda>(s, nes). s = st) (gang_lookup_nat_set nm i))" by simp
    then have s: "st \<le> NAT_BLOCK_OFFSET (max_nid nm)" "nat_set_root (nat_trees nm ! i) st = Some nes"
      unfolding gang_filter by (cases "st \<le> NAT_BLOCK_OFFSET (max_nid nm)"; cases "nat_set_root (nat_trees nm ! i) st"; simp)+
    show "st \<le> NAT_BLOCK_OFFSET (max_nid nm)" by (fact s(1))
    have "entry_cnt nes = card {n \<in> dirty_in nm st. TREE_IDX n nm = i}" using entry_cnt_card [OF assms i(1), of st] s(2) by simp
    also have "\<dots> \<le> card (dirty_in nm st)" using finite_dirty [OF assms] by (intro card_mono) auto
    finally show "entry_cnt nes < 2 ^ 32" using dirty_card_lt(1) [OF assms, of st] by simp
  qed
  then have pf: "packs_for (all_sets nm) (collect_packs nm)" by (intro collect_packs_for) auto
  then show d: "distinct (map set_id (collect_packs nm))" by (simp add: packs_for_def)
  let ?g = "\<lambda>st i. nat_set_root (nat_trees nm ! i) st"
  let ?trees = "\<lambda>st. filter (\<lambda>i. ?g st i \<noteq> None) [0..<nat_tree_cnt nm]"
  have pk: "pack_of (collect_packs nm) st = (if ?trees st = [] then None
      else Some \<lparr>set_trees = ?trees st, set_id = st, pack_entry_cnt = card (dirty_in nm st)\<rparr>)" if "st \<le> NAT_BLOCK_OFFSET (max_nid nm)" for st
  proof -
    let ?F = "concat (map (\<lambda>i. case ?g st i of None \<Rightarrow> [] | Some nes \<Rightarrow> [(i, st, nes)]) [0..<nat_tree_cnt nm])"
    have "pack_of (collect_packs nm) st = (if ?F = [] then None
      else Some \<lparr>set_trees = map fst ?F, set_id = st, pack_entry_cnt = sum_list (map (\<lambda>(i, s, nes). entry_cnt nes) ?F) mod 2 ^ 32\<rparr>)"
      using pf unfolding packs_for_def Let_def sets_of_block [OF that, symmetric] by blast
    moreover have "?F = [] \<longleftrightarrow> ?trees st = []" unfolding triples_simps(1) [where g = "?g st" and st = st, symmetric] by simp
    ultimately show ?thesis
      unfolding triples_simps block_card [OF assms] using dirty_card_lt(1) [OF assms, of st] by (simp only: mod_less)
  qed
  have in_trees: "TREE_IDX n nm \<in> set (?trees (NAT_BLOCK_OFFSET n))" if "n \<in> dirty_nats nm" for n
  proof -
    have "?g (NAT_BLOCK_OFFSET n) (TREE_IDX n nm) \<noteq> None"
      using set_entries [OF assms TREE_IDX_lt [OF assms, of n], of "NAT_BLOCK_OFFSET n"] that by (auto split: option.splits)
    then show ?thesis using TREE_IDX_lt [OF assms] by simp
  qed
  have le: "NAT_BLOCK_OFFSET n \<le> NAT_BLOCK_OFFSET (max_nid nm)" if "n \<in> dirty_nats nm" for n
    using dirty_lookup [OF assms that] by (metis NAT_BLOCK_OFFSET_def div_le_mono less_imp_le)
  show "\<forall>p \<in> set (collect_packs nm). pack_ok nm p"
  proof
    fix p assume "p \<in> set (collect_packs nm)"
    then have po: "pack_of (collect_packs nm) (set_id p) = Some p" using pack_of_iff [OF d] by simp
    have "filter (\<lambda>(i, s, nes). s = set_id p) (all_sets nm) \<noteq> []"
    proof
      assume "filter (\<lambda>(i, s, nes). s = set_id p) (all_sets nm) = []"
      then have "pack_of (collect_packs nm) (set_id p) = None" using pf unfolding packs_for_def Let_def by simp
      with po show False by simp
    qed
    then obtain i nes where "(i, set_id p, nes) \<in> set (all_sets nm)" by (auto simp: filter_empty_conv)
    with small have "set_id p \<le> NAT_BLOCK_OFFSET (max_nid nm)" by fast
    note eq = pk [OF this, unfolded po]
    have ne: "?trees (set_id p) \<noteq> []"
    proof
      assume "?trees (set_id p) = []"
      then show False using eq by (simp only: refl if_True option.distinct simp_thms)
    qed
    from eq ne have "p = \<lparr>set_trees = ?trees (set_id p), set_id = set_id p, pack_entry_cnt = card (dirty_in nm (set_id p))\<rparr>"
      by (simp only: if_False option.inject)
    from arg_cong [OF this, of set_trees] arg_cong [OF this, of pack_entry_cnt]
    have "set_trees p = ?trees (set_id p)" "pack_entry_cnt p = card (dirty_in nm (set_id p))" by (simp_all only: per_core_sets_pack.simps)
    moreover have "TREE_IDX n nm \<in> set (?trees (set_id p))" if "n \<in> dirty_in nm (set_id p)" for n using in_trees [of n] that by simp
    ultimately show "pack_ok nm p" by (simp add: pack_ok_def)
  qed
  show "\<forall>n \<in> dirty_nats nm. NAT_BLOCK_OFFSET n \<in> set_id ` set (collect_packs nm)"
  proof
    fix n assume n: "n \<in> dirty_nats nm"
    have "?trees (NAT_BLOCK_OFFSET n) \<noteq> []" using in_trees [OF n] by (metis empty_iff empty_set)
    then show "NAT_BLOCK_OFFSET n \<in> set_id ` set (collect_packs nm)"
      using pk [OF le [OF n]] pack_of_None [of "collect_packs nm" "NAT_BLOCK_OFFSET n"] by auto
  qed
qed

subsection \<open>Flushing the packs\<close>

abbreviation nat_blocks :: "nm_info \<Rightarrow> nat" where
  "nat_blocks nm \<equiv> 8 * length (nat_bitmap nm)"

definition keeps_nat :: "nm_info \<Rightarrow> nm_info \<Rightarrow> bool" where
  "keeps_nat nm r \<longleftrightarrow> max_nid r = max_nid nm \<and> nat_tree_cnt r = nat_tree_cnt nm \<and> length (nat_bitmap r) = length (nat_bitmap nm) \<and>
     nm_need_fsck r = nm_need_fsck nm \<and> (\<forall>n<max_nid nm. nat_view r n = nat_view nm n) \<and>
     (\<forall>c<nat_blocks nm. nat_area r (nat_addr nm c) = nat_area nm (nat_addr nm c))"

definition flush_inv :: "nm_info \<Rightarrow> nm_info \<Rightarrow> per_core_sets_pack list \<Rightarrow> bool" where
  "flush_inv nm0 nm ps \<longleftrightarrow> ready nm \<and> keeps_nat nm0 nm \<and>
     distinct (map set_id ps) \<and> (\<forall>p \<in> set ps. pack_ok nm p) \<and> (\<forall>n \<in> dirty_nats nm. NAT_BLOCK_OFFSET n \<in> set_id ` set ps) \<and>
     (n_nats (cursum nm) + card (dirty_nats nm) \<le> NAT_JOURNAL_ENTRIES \<or> (\<forall>n \<in> jkeys (cursum nm). NAT_BLOCK_OFFSET n \<notin> set_id ` set ps)) \<and>
     (\<forall>p \<in> set ps. set_id p < nat_blocks nm0 \<longrightarrow> nat_shadow nm (set_id p) = nat_shadow nm0 (set_id p))"

lemma flush_inv_step:
  assumes "flush_inv nm0 nm (p # ps)"
  shows "flush_inv nm0 (flush_nat_entry_set_per_core p nm) ps"
proof -
  let ?r = "flush_nat_entry_set_per_core p nm" let ?b = "set_id p"
  have i: "ready nm" "keeps_nat nm0 nm" "pack_ok nm p" "\<forall>q \<in> set ps. pack_ok nm q" "distinct (map set_id ps)" "?b \<notin> set_id ` set ps"
    "\<forall>n \<in> dirty_nats nm. NAT_BLOCK_OFFSET n \<in> insert ?b (set_id ` set ps)"
    "n_nats (cursum nm) + card (dirty_nats nm) \<le> NAT_JOURNAL_ENTRIES \<or> (\<forall>n \<in> jkeys (cursum nm). NAT_BLOCK_OFFSET n \<notin> insert ?b (set_id ` set ps))"
    "\<forall>q \<in> set (p # ps). set_id q < nat_blocks nm0 \<longrightarrow> nat_shadow nm (set_id q) = nat_shadow nm0 (set_id q)"
    using assms by (simp_all add: flush_inv_def)
  have fin: "finite (dirty_nats nm)" using finite_dirty i(1) by (simp add: ready_def cache_inv_def)
  have sub: "dirty_in nm ?b \<subseteq> dirty_nats nm" by auto
  have cd: "card (dirty_in nm ?b) + card (dirty_nats nm - dirty_in nm ?b) = card (dirty_nats nm)"
    using card_Un_disjoint [of "dirty_in nm ?b" "dirty_nats nm - dirty_in nm ?b"] fin sub by (simp add: Un_absorb1)
  have "has_cursum_space (cursum nm) (pack_entry_cnt p) \<or> (\<forall>n \<in> jkeys (cursum nm). NAT_BLOCK_OFFSET n \<noteq> ?b)"
  proof (cases "n_nats (cursum nm) + card (dirty_nats nm) \<le> NAT_JOURNAL_ENTRIES")
    case True
    then have "card (dirty_in nm ?b) \<le> NAT_JOURNAL_ENTRIES - n_nats (cursum nm)" using cd by linarith
    then show ?thesis using i(3) by (simp add: pack_ok_def has_cursum_space_def MAX_NAT_JENTRIES_def)
  qed (use i(8) in auto)
  note f = flush_pack_flushed [OF i(1,3) this]
  have r: "ready ?r" "max_nid ?r = max_nid nm" "nat_tree_cnt ?r = nat_tree_cnt nm" "length (nat_bitmap ?r) = length (nat_bitmap nm)"
    "nm_need_fsck ?r = nm_need_fsck nm" "dirty_nats ?r = dirty_nats nm - dirty_in nm ?b" "\<forall>n<max_nid nm. nat_view ?r n = nat_view nm n"
    "\<forall>c<nat_blocks nm. c \<noteq> ?b \<longrightarrow> nat_shadow ?r c = nat_shadow nm c"
    "\<forall>x. x \<noteq> nat_shadow nm ?b \<or> nat_blocks nm \<le> ?b \<longrightarrow> nat_area ?r x = nat_area nm x"
    "n_nats (cursum ?r) \<le> n_nats (cursum nm) + card (dirty_in nm ?b)" "jkeys (cursum ?r) \<subseteq> jkeys (cursum nm) \<union> dirty_in nm ?b"
    using f by (simp_all add: flushed_def)
  have k: "max_nid nm = max_nid nm0" "nat_tree_cnt nm = nat_tree_cnt nm0" "length (nat_bitmap nm) = length (nat_bitmap nm0)"
    "nm_need_fsck nm = nm_need_fsck nm0" "\<forall>n<max_nid nm0. nat_view nm n = nat_view nm0 n"
    "\<forall>c<nat_blocks nm0. nat_area nm (nat_addr nm0 c) = nat_area nm0 (nat_addr nm0 c)"
    using i(2) by (simp_all add: keeps_nat_def)
  have "nat_area ?r (nat_addr nm0 c) = nat_area nm0 (nat_addr nm0 c)" if c: "c < nat_blocks nm0" for c
  proof (cases "?b < nat_blocks nm0")
    case True
    then have "nat_shadow nm ?b \<noteq> nat_addr nm0 c" using i(9) nata.nxt_not_cur [OF True c] by simp
    then show ?thesis using r(9) k(6) c by auto
  next
    case False
    then show ?thesis using r(9) k(3,6) c by simp
  qed
  then have "keeps_nat nm0 ?r" using r k by (simp add: keeps_nat_def)
  moreover have "\<forall>n \<in> dirty_nats ?r. NAT_BLOCK_OFFSET n \<in> set_id ` set ps" using i(7) r(6) by auto
  moreover have "n_nats (cursum ?r) + card (dirty_nats ?r) \<le> NAT_JOURNAL_ENTRIES \<or> (\<forall>n \<in> jkeys (cursum ?r). NAT_BLOCK_OFFSET n \<notin> set_id ` set ps)"
    using i(8)
  proof
    assume "n_nats (cursum nm) + card (dirty_nats nm) \<le> NAT_JOURNAL_ENTRIES"
    then show ?thesis using r(10) cd unfolding r(6) by linarith
  next
    assume a: "\<forall>n \<in> jkeys (cursum nm). NAT_BLOCK_OFFSET n \<notin> insert ?b (set_id ` set ps)"
    have "NAT_BLOCK_OFFSET n \<notin> set_id ` set ps" if "n \<in> jkeys (cursum ?r)" for n
      using subsetD [OF r(11) that] a i(6) by auto
    then show ?thesis by blast
  qed
  moreover have "pack_ok ?r q" if "q \<in> set ps" for q
  proof -
    have "set_id q \<noteq> ?b" using i(6) that by (metis imageI)
    then have "dirty_in ?r (set_id q) = dirty_in nm (set_id q)" unfolding r(6) by auto
    then show ?thesis using i(4) that r(3) by (simp add: pack_ok_def TREE_IDX_def)
  qed
  moreover have "nat_shadow ?r (set_id q) = nat_shadow nm0 (set_id q)" if "q \<in> set ps" "set_id q < nat_blocks nm0" for q
  proof -
    have "set_id q \<noteq> ?b" using i(6) that(1) by (metis imageI)
    then show ?thesis using r(8) i(9) that k(3) by simp
  qed
  ultimately show ?thesis using r(1) i(5) by (simp add: flush_inv_def)
qed

lemma flush_inv_fold: "flush_inv nm0 nm ps \<Longrightarrow> flush_inv nm0 (fold flush_nat_entry_set_per_core ps nm) []"
  by (induction ps arbitrary: nm) (simp_all add: flush_inv_step)

subsection \<open>Emptying the journal\<close>

text \<open>The first \<open>i\<close> entries of the journal are in the cache, dirty.\<close>

definition pulled :: "nm_info \<Rightarrow> nat \<Rightarrow> nm_info \<Rightarrow> bool" where
  "pulled nm i q \<longleftrightarrow> cache_inv q \<and> same_media nm q \<and> nat_view q = nat_view nm \<and> nm_need_fsck q = nm_need_fsck nm \<and>
     nid_map q = nid_map nm \<and> nid_ok q \<and>
     dirty_nats q = dirty_nats nm \<union> (\<lambda>j. fst (nat_j (cursum nm) ! j)) ` {..<i}"

lemma set_dirty_keeps:
  assumes "cache_inv nm" "lookup_nat_cache nm n = Some e"
  shows "cache_inv (set_nat_cache_dirty nm n)" "nat_view (set_nat_cache_dirty nm n) = nat_view nm"
    "dirty_nats (set_nat_cache_dirty nm n) = insert n (dirty_nats nm)"
proof -
  have inv: "trees_ok nm" "coherent nm" using assms(1) by (simp_all add: cache_inv_def)
  note s = set_nat_cache_dirty_spec [OF inv(1) assms(2)]
  let ?e = "if dirty_nat e then e else set_nat_flag IS_DIRTY True e"
  have e: "dirty_nat ?e" "raw_nat_from_node_info ?e = raw_nat_from_node_info e" by (simp_all add: get_set_nat_flag)
  have d: "dirty_nat x \<or> raw_nat_from_node_info x = on_media nm n" if "Some ?e = Some x" for x using that e(1) by (metis option.inject)
  have v: "(case Some ?e of Some e \<Rightarrow> raw_nat_from_node_info e | None \<Rightarrow> on_media nm n) = nat_view nm n"
    using assms(2) e(2) by (simp add: nat_view_def)
  note c = coherent_upd [where nid = n and r = "set_nat_cache_dirty nm n", OF inv(2) s(2,3) d]
  show "cache_inv (set_nat_cache_dirty nm n)" using s(1) c(1) by (simp add: cache_inv_def)
  show "nat_view (set_nat_cache_dirty nm n) = nat_view nm" using c(2) unfolding v by simp
  show "dirty_nats (set_nat_cache_dirty nm n) = insert n (dirty_nats nm)" unfolding dirty_nats_def s(3) using e(1) by auto
qed

lemma cache_entry_dirty:
  assumes "cache_inv nm" "n < max_nid nm"
  shows "dirty_nats (cache_nat_entry nm n (on_media nm n)) = dirty_nats nm" "lookup_nat_cache (cache_nat_entry nm n (on_media nm n)) n \<noteq> None"
proof -
  have t: "trees_ok nm" using assms(1) by (simp add: cache_inv_def)
  have "dirty_nats (cache_nat_entry nm n (on_media nm n)) = dirty_nats nm \<and> lookup_nat_cache (cache_nat_entry nm n (on_media nm n)) n \<noteq> None"
  proof (cases "lookup_nat_cache nm n")
    case None
    obtain e where g: "trees_ok (grab_nat_entry nm n)" "lookup_nat_cache (grab_nat_entry nm n) = (lookup_nat_cache nm)(n \<mapsto> e)" "\<not> dirty_nat e" "ni_nid e = n"
      using grab_nat_entry_spec [OF t None assms(2)] by blast
    let ?f = "node_info_from_raw_nat (on_media nm n)"
    have f: "ni_nid (?f e) = ni_nid e" "dirty_nat (?f e) = dirty_nat e" by (simp_all add: node_info_from_raw_nat_def get_nat_flag_def)
    have "lookup_nat_cache (upd_entry n ?f (grab_nat_entry nm n)) = (lookup_nat_cache nm)(n \<mapsto> ?f e)"
      using upd_entry_spec(2) [OF g(1), of n ?f] f g(2) by simp
    then show ?thesis using None f(2) g(3) by (auto simp: cache_nat_entry_def dirty_nats_def)
  qed (simp add: cache_nat_entry_def)
  then show "dirty_nats (cache_nat_entry nm n (on_media nm n)) = dirty_nats nm" "lookup_nat_cache (cache_nat_entry nm n (on_media nm n)) n \<noteq> None"
    by blast+
qed

lemma tree_ops_lists:
  "free_nid_root (set_nat_cache_dirty nm n) = free_nid_root nm" "free_nid_list (set_nat_cache_dirty nm n) = free_nid_list nm"
  "percore_fcnt (set_nat_cache_dirty nm n) = percore_fcnt nm" "nid_chunk (set_nat_cache_dirty nm n) = nid_chunk nm" "max_nid (set_nat_cache_dirty nm n) = max_nid nm"
  "free_nid_root (cache_nat_entry nm n ne) = free_nid_root nm" "free_nid_list (cache_nat_entry nm n ne) = free_nid_list nm"
  "percore_fcnt (cache_nat_entry nm n ne) = percore_fcnt nm" "nid_chunk (cache_nat_entry nm n ne) = nid_chunk nm" "max_nid (cache_nat_entry nm n ne) = max_nid nm"
  by (simp_all add: set_nat_cache_dirty_def cache_nat_entry_def grab_nat_entry_def upd_entry_def upd_tree_def Let_def split: option.split)

lemma pulled_step:
  assumes "pulled nm i q" "journal_ok nm" "i < n_nats (cursum nm)"
  shows "pulled nm (Suc i) (remove_nat_in_journal i q)"
proof -
  have q: "cache_inv q" "same_media nm q" "nat_view q = nat_view nm" "nm_need_fsck q = nm_need_fsck nm" "nid_map q = nid_map nm" "nid_ok q"
    "dirty_nats q = dirty_nats nm \<union> (\<lambda>j. fst (nat_j (cursum nm) ! j)) ` {..<i}"
    using assms(1) by (simp_all add: pulled_def)
  obtain n ne where j: "nat_j (cursum nm) ! i = (n, ne)" by fastforce
  note m = journal_at [OF assms(2,3) j] note sm = same_mediaD [OF q(2)]
  have cs: "cursum q = cursum nm" using q(2) by (simp add: same_media_def)
  have ne: "ne = on_media q n" "n < max_nid q" using m(2,3) sm(1,2) by simp_all
  let ?c = "cache_nat_entry q n (on_media q n)"
  note c = cache_nat_entry_spec [OF q(1) ne(2)] note cd = cache_entry_dirty [OF q(1) ne(2)]
  obtain e where e: "lookup_nat_cache ?c n = Some e" using cd(2) by blast
  note d = set_dirty_keeps [OF c(1) e]
  have t: "trees_ok ?c" using c(1) by (simp add: cache_inv_def)
  note s = set_nat_cache_dirty_spec [OF t e]
  have r: "remove_nat_in_journal i q = set_nat_cache_dirty ?c n"
    by (simp add: remove_nat_in_journal_def cs j cache_nat_entry_def Let_def flip: ne(1))
  have "same_media nm (set_nat_cache_dirty ?c n)" using same_media_trans [OF same_media_trans [OF q(2) c(3)] s(2)] .
  moreover have "nid_map (set_nat_cache_dirty ?c n) = nid_map q" "nid_ok (set_nat_cache_dirty ?c n) = nid_ok q"
    by (simp_all add: nid_map_def fun_eq_iff lookup_free_nid_list_def LIST_IDX_def nid_ok_def tree_ops_lists)
  moreover have "dirty_nats (set_nat_cache_dirty ?c n) = dirty_nats nm \<union> (\<lambda>j. fst (nat_j (cursum nm) ! j)) ` {..<Suc i}"
    unfolding d(3) cd(1) q(7) using j by (auto simp: lessThan_Suc)
  ultimately show ?thesis using d(1,2) c(2,4) s(4) q unfolding pulled_def r by simp
qed

text \<open>The checkpoint waits until every node has an address, so that no entry says that a node is yet to be written.\<close>

definition settled :: "nm_info \<Rightarrow> bool" where
  "settled nm \<longleftrightarrow> (\<forall>n<max_nid nm. raw_block_addr (nat_view nm n) \<noteq> NEW_ADDR)"

lemma settled_ready:
  assumes "cache_inv nm" "nid_ok nm" "nids_unused nm" "media_ok nm" "settled nm"
  shows "ready nm"
proof -
  have t: "trees_ok nm" using assms(1) by (simp add: cache_inv_def)
  have "n < max_nid nm" if "n \<in> dirty_nats nm" for n using dirty_lookup [OF t that] .
  then show ?thesis using assms by (auto simp: ready_def no_new_def settled_def)
qed

lemma remove_nats_in_journal_spec:
  assumes "cache_inv nm" "nid_ok nm" "nids_unused nm" "media_ok nm" "settled nm"
  shows "ready (remove_nats_in_journal nm)" "keeps_nat nm (remove_nats_in_journal nm)" "jkeys (cursum (remove_nats_in_journal nm)) = {}"
    "nat_shadow (remove_nats_in_journal nm) = nat_shadow nm"
proof -
  let ?n = "n_nats (cursum nm)" let ?q = "fold remove_nat_in_journal [0..<?n] nm" let ?r = "remove_nats_in_journal nm"
  have jok: "journal_ok nm" using assms(4) by (simp add: media_ok_def)
  have "pulled nm 0 nm" using assms(1,2) by (simp add: pulled_def)
  then have "i \<le> ?n \<Longrightarrow> pulled nm i (fold remove_nat_in_journal [0..<i] nm)" for i
    by (induction i) (simp_all add: pulled_step [OF _ jok])
  then have p: "pulled nm ?n ?q" by simp
  have q: "cache_inv ?q" "same_media nm ?q" "nat_view ?q = nat_view nm" "nm_need_fsck ?q = nm_need_fsck nm" "nid_map ?q = nid_map nm" "nid_ok ?q"
    "dirty_nats ?q = dirty_nats nm \<union> jkeys (cursum nm)"
    using p by (simp_all add: pulled_def jkeys_def)
  have r: "?r = ?q\<lparr>cursum := (cursum ?q)\<lparr>n_nats := 0\<rparr>\<rparr>"
    using q(2) by (simp add: remove_nats_in_journal_def Let_def update_nats_in_cursum_def same_media_def)
  have f: "lookup_nat_cache ?r = lookup_nat_cache ?q" "nid_map ?r = nid_map nm" "nid_ok ?r" "max_nid ?r = max_nid nm" "trees_ok ?r"
    "nat_bitmap ?r = nat_bitmap nm" "nat_area ?r = nat_area nm" "nm_need_fsck ?r = nm_need_fsck nm" "nat_tree_cnt ?r = nat_tree_cnt nm"
    "nat_blkaddr ?r = nat_blkaddr nm" "nm_log_blocks_per_seg ?r = nm_log_blocks_per_seg nm"
  proof -
    have "nid_map ?r = nid_map ?q" "nid_ok ?r = nid_ok ?q" "trees_ok ?r = trees_ok ?q"
      by (simp_all add: r fun_eq_iff nid_map_def lookup_free_nid_list_def LIST_IDX_def nid_ok_def trees_ok_def)
    then show "nid_map ?r = nid_map nm" "nid_ok ?r" "trees_ok ?r" using q(1,5,6) by (simp_all add: cache_inv_def)
    show "lookup_nat_cache ?r = lookup_nat_cache ?q" by (simp add: r lookup_nat_cache_def TREE_IDX_def fun_eq_iff)
    show "max_nid ?r = max_nid nm" "nat_bitmap ?r = nat_bitmap nm" "nat_area ?r = nat_area nm" "nm_need_fsck ?r = nm_need_fsck nm"
      "nat_tree_cnt ?r = nat_tree_cnt nm" "nat_blkaddr ?r = nat_blkaddr nm" "nm_log_blocks_per_seg ?r = nm_log_blocks_per_seg nm"
      using q(2,4) by (simp_all add: r same_media_def)
  qed
  show "jkeys (cursum ?r) = {}" by (simp add: r jkeys_def)
  show "nat_shadow ?r = nat_shadow nm" by (rule nat_addr_cong(2) [OF f(10,11,6)])
  have jg: "journal_get (cursum ?r) n = None" for n by (simp add: r journal_get_def)
  have md: "on_media ?r n = on_media nm n" if "n \<notin> jkeys (cursum nm)" for n
  proof -
    have "journal_get (cursum nm) n = None" using journal_get_iff(2) [OF jok] that by simp
    moreover have "nat_in_page ?r n = nat_in_page nm n"
      unfolding nat_in_page_eq using nat_addr_cong(1) [OF f(10,11,6)] f(7) by simp
    ultimately show ?thesis using jg by (simp add: on_media_def)
  qed
  have mq: "on_media ?q = on_media nm" using same_mediaD(1) [OF q(2)] .
  have coh: "coherent ?r"
    unfolding coherent_def f(1)
  proof (intro allI impI)
    fix n e assume e: "lookup_nat_cache ?q n = Some e" "\<not> dirty_nat e"
    then have "n \<notin> dirty_nats ?q" by (simp add: dirty_nats_def)
    then have "n \<notin> jkeys (cursum nm)" using q(7) by simp
    then show "raw_nat_from_node_info e = on_media ?r n" using md e q(1) mq by (simp add: cache_inv_def coherent_def)
  qed
  have view: "nat_view ?r n = nat_view nm n" for n
  proof (cases "lookup_nat_cache ?q n")
    case None
    then have "n \<notin> dirty_nats ?q" by (simp add: dirty_nats_def)
    then have "n \<notin> jkeys (cursum nm)" using q(7) by simp
    then show ?thesis using None q(3) [symmetric] by (simp add: nat_view_def f(1) md mq)
  next
    case (Some e)
    then show ?thesis using q(3) [symmetric] by (simp add: nat_view_def f(1))
  qed
  have "length (nat_j (cursum ?r)) = length (nat_j (cursum nm))" "n_nats (cursum ?r) = 0" using q(2) by (simp_all add: r same_media_def)
  then have "journal_ok ?r" using jok by (simp add: journal_ok_def)
  then have "media_ok ?r" using assms(4) by (simp add: media_ok_def f)
  then show "ready ?r"
    using coh f(2,3,5) assms(3,5) view by (intro settled_ready) (simp_all add: cache_inv_def nids_unused_def settled_def f(4))
  show "keeps_nat nm ?r" using view by (simp add: keeps_nat_def f)
qed

lemma remove_nats_media:
  "nat_area (remove_nats_in_journal nm) = nat_area nm" "nat_addr (remove_nats_in_journal nm) = nat_addr nm"
proof -
  have step: "nat_area (remove_nat_in_journal i q) = nat_area q \<and> nat_bitmap (remove_nat_in_journal i q) = nat_bitmap q \<and>
      nat_blkaddr (remove_nat_in_journal i q) = nat_blkaddr q \<and> nm_log_blocks_per_seg (remove_nat_in_journal i q) = nm_log_blocks_per_seg q" for i q
    by (auto simp: remove_nat_in_journal_def set_nat_cache_dirty_def grab_nat_entry_def upd_entry_def upd_tree_def Let_def split: option.split prod.split)
  have f: "nat_area (fold remove_nat_in_journal is q) = nat_area q \<and> nat_bitmap (fold remove_nat_in_journal is q) = nat_bitmap q \<and>
      nat_blkaddr (fold remove_nat_in_journal is q) = nat_blkaddr q \<and>
      nm_log_blocks_per_seg (fold remove_nat_in_journal is q) = nm_log_blocks_per_seg q" for "is" q
    by (induction "is" arbitrary: q) (simp_all add: step)
  show "nat_area (remove_nats_in_journal nm) = nat_area nm" using f by (simp add: remove_nats_in_journal_def Let_def)
  show "nat_addr (remove_nats_in_journal nm) = nat_addr nm" by (rule nat_addr_cong(1)) (simp_all add: remove_nats_in_journal_def Let_def f)
qed

subsection \<open>The checkpoint\<close>

lemma dirty_count:
  assumes "trees_ok nm"
  shows "sum_list (map percore_dirty_nat_cnt (nat_trees nm)) mod 2 ^ 32 = card (dirty_nats nm)"
proof -
  have t: "percore_dirty_nat_cnt (nat_trees nm ! i) = card {n \<in> dirty_nats nm. TREE_IDX n nm = i}" if "i < nat_tree_cnt nm" for i
    using tree_okD(8) [of "max_nid nm" "nat_tree_cnt nm" i "nat_trees nm ! i"] assms that tree_dirty_eq [OF assms that] by (simp add: trees_ok_def)
  have fin: "finite {n \<in> dirty_nats nm. TREE_IDX n nm = i}" for i using finite_dirty [OF assms] by simp
  have "sum_list (map percore_dirty_nat_cnt (nat_trees nm)) = (\<Sum>i<nat_tree_cnt nm. card {n \<in> dirty_nats nm. TREE_IDX n nm = i})"
    using t by (simp add: sum_list_sum_nth atLeast0LessThan)
  also have "\<dots> = card (\<Union>i<nat_tree_cnt nm. {n \<in> dirty_nats nm. TREE_IDX n nm = i})" using fin by (subst card_UN_disjoint) auto
  also have "(\<Union>i<nat_tree_cnt nm. {n \<in> dirty_nats nm. TREE_IDX n nm = i}) = dirty_nats nm" using TREE_IDX_lt [OF assms] by auto
  finally show ?thesis using dirty_card_lt(2) [OF assms] by simp
qed

lemma nids_unused_clean:
  assumes "nids_unused nm" "\<forall>n<max_nid nm. on_media nm n = nat_view nm n"
  shows "nids_free nm"
  unfolding nids_free_def
proof (intro allI impI)
  fix n assume n: "nid_map nm n = Some NID_NEW"
  then have "n < max_nid nm" by (auto simp: nid_map_def split: if_splits)
  then show "raw_block_addr (nat_view nm n) = NULL_ADDR \<and> raw_block_addr (on_media nm n) = NULL_ADDR"
    using assms n by (simp add: nids_unused_def)
qed

lemma clean_on_media:
  assumes "cache_inv nm" "dirty_nats nm = {}"
  shows "on_media nm n = nat_view nm n"
  using assms by (auto simp: nat_view_def cache_inv_def coherent_def dirty_nats_def split: option.split)

lemma keeps_nat_trans: "keeps_nat nm q \<Longrightarrow> nat_addr q = nat_addr nm \<Longrightarrow> nat_area q = nat_area nm \<Longrightarrow> keeps_nat q r \<Longrightarrow> keeps_nat nm r"
  by (auto simp: keeps_nat_def)

lemma flush_packs:
  assumes "ready nm" "n_nats (cursum nm) + card (dirty_nats nm) \<le> NAT_JOURNAL_ENTRIES \<or> jkeys (cursum nm) = {}"
  shows "flush_inv nm (fold flush_nat_entry_set_per_core (collect_packs nm) nm) []"
proof (rule flush_inv_fold)
  have t: "trees_ok nm" using assms(1) by (simp add: ready_def cache_inv_def)
  show "flush_inv nm nm (collect_packs nm)"
    using assms collect_packs_ok [OF t] by (auto simp: flush_inv_def keeps_nat_def)
qed

text \<open>
  C3: the flush at a checkpoint. When every node has an address, the flush leaves the file system's
  NAT as it was and brings the medium, that is the NAT area read through the bitmap, overlaid with
  the journal, to it: no dirty entry is left. The blocks of the NAT area that the bitmap selected
  before the flush are untouched, so that until the new checkpoint is complete the old one can be
  read back. The invariants of the cache, the journal and the free lists are kept, and nothing is
  reported as inconsistent.
\<close>
theorem flush_nat_entries_per_core_correct:
  assumes "cache_inv nm" "nid_ok nm" "nids_free nm" "media_ok nm" "settled nm"
    and "r = flush_nat_entries_per_core nm"
  shows "cache_inv r \<and> nid_ok r \<and> nids_free r \<and> media_ok r \<and> nm_need_fsck r = nm_need_fsck nm \<and> dirty_nats r = {}
    \<and> (\<forall>n<max_nid nm. nat_view r n = nat_view nm n \<and> on_media r n = nat_view nm n)
    \<and> (\<forall>b<8 * length (nat_bitmap nm). nat_area r (nat_addr nm b) = nat_area nm (nat_addr nm b))"
proof -
  have t: "trees_ok nm" using assms(1) by (simp add: cache_inv_def)
  have un: "nids_unused nm" using assms(3) by (simp add: nids_unused_def nids_free_def)
  have rd: "ready nm" using settled_ready [OF assms(1,2) un assms(4,5)] .
  have fin: "finite (dirty_nats nm)" using finite_dirty [OF t] .
  show ?thesis
  proof (cases "dirty_nats nm = {}")
    case True
    then have "r = nm" using assms(6) dirty_count [OF t] by (simp add: flush_nat_entries_per_core_def)
    then show ?thesis using assms clean_on_media [OF assms(1) True] True by simp
  next
    case False
    define q where "q = (if \<not> has_cursum_space (cursum nm) (card (dirty_nats nm)) then remove_nats_in_journal nm else nm)"
    define s where "s = fold flush_nat_entry_set_per_core (collect_packs q) q"
    have r: "r = nm_bug_on (\<exists>t \<in> set (nat_trees s). percore_dirty_nat_cnt t \<noteq> 0) s"
      using assms(6) dirty_count [OF t] False fin by (simp add: flush_nat_entries_per_core_def Let_def q_def s_def)
    have q: "ready q" "keeps_nat nm q" "nat_addr q = nat_addr nm" "nat_area q = nat_area nm"
      "n_nats (cursum q) + card (dirty_nats q) \<le> NAT_JOURNAL_ENTRIES \<or> jkeys (cursum q) = {}"
    proof -
      note m = remove_nats_in_journal_spec [OF assms(1,2) un assms(4,5)]
      have a: "nat_addr (remove_nats_in_journal nm) = nat_addr nm \<and> nat_area (remove_nats_in_journal nm) = nat_area nm"
        using remove_nats_media [of nm] by simp
      have "n_nats (cursum nm) \<le> NAT_JOURNAL_ENTRIES" using assms(4) by (simp add: media_ok_def journal_ok_def)
      then show "ready q" "keeps_nat nm q" "nat_addr q = nat_addr nm" "nat_area q = nat_area nm"
        "n_nats (cursum q) + card (dirty_nats q) \<le> NAT_JOURNAL_ENTRIES \<or> jkeys (cursum q) = {}"
        using m a rd by (auto simp: q_def keeps_nat_def has_cursum_space_def MAX_NAT_JENTRIES_def)
    qed
    have fi: "flush_inv q s []" using flush_packs [OF q(1,5)] by (simp add: s_def)
    then have s: "ready s" "dirty_nats s = {}" "keeps_nat q s" by (auto simp: flush_inv_def)
    have k: "keeps_nat nm s" using keeps_nat_trans [OF q(2,3,4) s(3)] .
    have ts: "trees_ok s" using s(1) by (simp add: ready_def cache_inv_def)
    have "percore_dirty_nat_cnt t = 0" if "t \<in> set (nat_trees s)" for t
    proof -
      obtain i where i: "i < nat_tree_cnt s" "t = nat_trees s ! i" using \<open>t \<in> set (nat_trees s)\<close> by (metis in_set_conv_nth)
      have "tree_ok (max_nid s) (nat_tree_cnt s) i t" using ts i by (simp add: trees_ok_def)
      from tree_okD(8) [OF this] show ?thesis using tree_dirty_eq [OF ts i(1)] i(2) s(2) by simp
    qed
    then have "r = s" unfolding r by (simp add: nm_bug_on_def)
    moreover have "cache_inv s" "nid_ok s" "nids_unused s" "media_ok s" using s(1) by (simp_all add: ready_def)
    moreover have "\<forall>n<max_nid s. on_media s n = nat_view s n" using clean_on_media [OF _ s(2)] calculation(2) by blast
    moreover have "nids_free s" using nids_unused_clean [OF calculation(4,6)] .
    ultimately show ?thesis using s(2) k by (simp add: keeps_nat_def)
  qed
qed

text \<open>The small volume with a dirty entry.\<close>

definition dirty_nat4 :: nm_info where
  "dirty_nat4 = set_nat_cache_dirty small_nat 4"

lemma small_nat_settled: "settled small_nat" "media_ok small_nat"
proof -
  have page: "raw_block_addr (nat_in_page small_nat n) \<noteq> NEW_ADDR" for n
  proof -
    have "nat_area small_nat a = (replicate 455 raw0)[4 := \<lparr>raw_version = 1, raw_ino = 4, raw_block_addr = 5004\<rparr>]" for a by (simp add: small_nat_def)
    moreover have "n mod NAT_ENTRY_PER_BLOCK < 455" using mod_less_divisor [of 455 n] by (simp add: NAT_ENTRY_PER_BLOCK_def)
    ultimately show ?thesis by (simp add: nat_in_page_eq nth_list_update raw0_def NEW_ADDR_def)
  qed
  have "raw_block_addr (on_media small_nat n) \<noteq> NEW_ADDR" for n
  proof (cases "journal_get (cursum small_nat) n")
    case None
    then show ?thesis using page by (simp add: on_media_def)
  next
    case (Some e)
    then have "e = \<lparr>raw_version = 1, raw_ino = 5, raw_block_addr = 5005\<rparr>" by (auto simp: journal_get_def small_nat_def split: if_splits)
    then show ?thesis using Some by (simp add: on_media_def NEW_ADDR_def)
  qed
  moreover have "ni_blk_addr e \<noteq> NEW_ADDR" if "lookup_nat_cache small_nat n = Some e" for n e
    using that by (auto simp: lookup_nat_cache_def small_nat_def small_tree_def TREE_IDX_def NEW_ADDR_def nth_Cons' split: if_splits)
  ultimately show "settled small_nat" by (simp add: settled_def nat_view_def raw_nat_from_node_info_def split: option.split)
  have "journal_ok small_nat" using small_nat_ready(1) by (simp add: alloc_ready_def)
  moreover have "NAT_BLOCK_OFFSET n < 8" if "n < 910" for n using that by (simp add: NAT_BLOCK_OFFSET_def NAT_ENTRY_PER_BLOCK_def less_mult_imp_div_less)
  ultimately show "media_ok small_nat" by (simp add: media_ok_def) (simp add: small_nat_def NAT_ENTRY_PER_BLOCK_def)
qed

theorem flush_nat_entries_per_core_correct_witness:
  "\<exists>r. r = flush_nat_entries_per_core dirty_nat4 \<and> 4 \<in> dirty_nats dirty_nat4 \<and> dirty_nats r = {} \<and> cache_inv r
    \<and> on_media r 4 = nat_view small_nat 4"
proof -
  have l: "lookup_nat_cache small_nat 4 = Some \<lparr>ni_nid = 4, ni_ino = 4, ni_blk_addr = 5004, ni_version = 1, ni_flag = 5\<rparr>"
    by (simp add: lookup_nat_cache_def small_nat_def small_tree_def TREE_IDX_def flip: numeral_2_eq_2)
  note d = set_dirty_keeps [OF small_nat_inv l, folded dirty_nat4_def]
  have ready: "nid_ok small_nat" "nids_free small_nat" "journal_ok small_nat" using small_nat_ready(1) by (simp_all add: alloc_ready_def)
  have t: "trees_ok small_nat" using small_nat_inv by (simp add: cache_inv_def)
  note sm = set_nat_cache_dirty_spec(2) [OF t l, folded dirty_nat4_def] note m = same_mediaD [OF sm]
  have n: "nid_ok dirty_nat4" "nid_map dirty_nat4 = nid_map small_nat"
    using ready(1) by (simp_all add: dirty_nat4_def nid_map_def fun_eq_iff lookup_free_nid_list_def LIST_IDX_def nid_ok_def tree_ops_lists)
  have "nids_free dirty_nat4" using ready(2) by (simp add: nids_free_def n(2) d(2) m(1))
  moreover have "media_ok dirty_nat4" using small_nat_settled(2) sm by (simp add: media_ok_def journal_ok_def same_media_def)
  moreover have "settled dirty_nat4" using small_nat_settled(1) by (simp add: settled_def d(2) m(2))
  moreover have "4 < max_nid dirty_nat4" using m(2) by (simp add: small_nat_def)
  ultimately show ?thesis
    using flush_nat_entries_per_core_correct [OF d(1) n(1) _ _ _ refl] d(2,3) by simp
qed

end
