(* ===== verification/Nodepath.thy ===== *)
theory Nodepath
  imports Segstate
begin

section \<open>Node blocks and the index of a file\<close>

text \<open>
  A file is indexed by a tree of node blocks: the inode with direct addresses, two direct nodes, two
  indirect nodes and one double indirect node. \<open>get_node_path\<close> of \<open>node.c\<close> turns a block index into
  the path from the inode; \<open>start_bidx_of_node\<close> of \<open>gc.c\<close> goes back from a node to the first block
  index it covers; the footer of a node block records its node offset. The theory models these, the
  footer and the union of views of a node block (\<open>node.h\<close>, \<open>f2fs.h\<close>), and \<open>max_file_size\<close> of
  \<open>super.c\<close>, and shows that path and start index are inverse on every index a file may have.
  Block indices are below $2^{63}$, so the \<open>long\<close> arithmetic of the code does not overflow.
\<close>

subsection \<open>Sizes\<close>

definition F2FS_INLINE_XATTR_ADDRS :: nat where "F2FS_INLINE_XATTR_ADDRS = 50"
definition DEF_ADDRS_PER_INODE :: nat where "DEF_ADDRS_PER_INODE = 923"
definition DEF_NIDS_PER_INODE :: nat where "DEF_NIDS_PER_INODE = 5"
definition ADDRS_PER_BLOCK :: nat where "ADDRS_PER_BLOCK = 1018"
definition NIDS_PER_BLOCK :: nat where "NIDS_PER_BLOCK = 1018"
definition NODE_DIR1_BLOCK :: nat where "NODE_DIR1_BLOCK = DEF_ADDRS_PER_INODE + 1"
definition NODE_DIR2_BLOCK :: nat where "NODE_DIR2_BLOCK = DEF_ADDRS_PER_INODE + 2"
definition NODE_IND1_BLOCK :: nat where "NODE_IND1_BLOCK = DEF_ADDRS_PER_INODE + 3"
definition NODE_IND2_BLOCK :: nat where "NODE_IND2_BLOCK = DEF_ADDRS_PER_INODE + 4"
definition NODE_DIND_BLOCK :: nat where "NODE_DIND_BLOCK = DEF_ADDRS_PER_INODE + 5"

lemmas node_sizes = F2FS_INLINE_XATTR_ADDRS_def DEF_ADDRS_PER_INODE_def DEF_NIDS_PER_INODE_def ADDRS_PER_BLOCK_def
  NIDS_PER_BLOCK_def NODE_DIR1_BLOCK_def NODE_DIR2_BLOCK_def NODE_IND1_BLOCK_def NODE_IND2_BLOCK_def NODE_DIND_BLOCK_def

text \<open>The only property of an inode that matters here is whether it keeps attributes in itself.\<close>

definition addrs_per_inode :: "bool \<Rightarrow> nat" where
  "addrs_per_inode inline_xattr =
     (if inline_xattr then DEF_ADDRS_PER_INODE - F2FS_INLINE_XATTR_ADDRS else DEF_ADDRS_PER_INODE)"

definition PGOFS_OF_NEXT_DNODE :: "nat \<Rightarrow> bool \<Rightarrow> nat" where
  "PGOFS_OF_NEXT_DNODE pgofs fi =
     (if pgofs < addrs_per_inode fi then addrs_per_inode fi
      else (pgofs - addrs_per_inode fi + ADDRS_PER_BLOCK) div ADDRS_PER_BLOCK * ADDRS_PER_BLOCK + addrs_per_inode fi)"

definition max_file_size :: "nat \<Rightarrow> nat" where
  "max_file_size bits =
     (let result = DEF_ADDRS_PER_INODE - F2FS_INLINE_XATTR_ADDRS;
          leaf_count = ADDRS_PER_BLOCK;
          result = result + leaf_count * 2;
          leaf_count = leaf_count * NIDS_PER_BLOCK;
          result = result + leaf_count * 2;
          leaf_count = leaf_count * NIDS_PER_BLOCK;
          result = result + leaf_count
      in push_bit bits result)"

subsection \<open>Paths\<close>

text \<open>
  The level is one less than the length of the lists, which hold the used part of the arrays
  \<open>offset\<close> and \<open>noffset\<close>; \<open>None\<close> is the \<open>BUG()\<close>.
\<close>

definition get_node_path :: "bool \<Rightarrow> nat \<Rightarrow> (nat list \<times> nat list) option" where
  "get_node_path fi block =
     (let direct_index = addrs_per_inode fi; direct_blks = ADDRS_PER_BLOCK; dptrs_per_blk = NIDS_PER_BLOCK;
          indirect_blks = ADDRS_PER_BLOCK * NIDS_PER_BLOCK; dindirect_blks = indirect_blks * NIDS_PER_BLOCK
      in if block < direct_index then Some ([block], [0])
         else let block = block - direct_index
         in if block < direct_blks then Some ([NODE_DIR1_BLOCK, block], [0, 1])
         else let block = block - direct_blks
         in if block < direct_blks then Some ([NODE_DIR2_BLOCK, block], [0, 2])
         else let block = block - direct_blks
         in if block < indirect_blks
            then let o1 = block div direct_blks
                 in Some ([NODE_IND1_BLOCK, o1, block mod direct_blks], [0, 3, 4 + o1])
         else let block = block - indirect_blks
         in if block < indirect_blks
            then let o1 = block div direct_blks
                 in Some ([NODE_IND2_BLOCK, o1, block mod direct_blks], [0, 4 + dptrs_per_blk, 5 + dptrs_per_blk + o1])
         else let block = block - indirect_blks
         in if block < dindirect_blks
            then let o1 = block div indirect_blks; o2 = block div direct_blks mod dptrs_per_blk
                 in Some ([NODE_DIND_BLOCK, o1, o2, block mod direct_blks],
                      [0, 5 + dptrs_per_blk * 2, 6 + dptrs_per_blk * 2 + o1 * (dptrs_per_blk + 1),
                       7 + dptrs_per_blk * 2 + o1 * (dptrs_per_blk + 1) + o2])
         else None)"

definition start_bidx_of_node :: "nat \<Rightarrow> bool \<Rightarrow> nat" where
  "start_bidx_of_node node_ofs fi =
     (let indirect_blks = 2 * NIDS_PER_BLOCK + 4
      in if node_ofs = 0 then 0
         else let bidx =
                (if node_ofs \<le> 2 then node_ofs - 1
                 else if node_ofs \<le> indirect_blks
                 then let dec = sub32 node_ofs 4 div (NIDS_PER_BLOCK + 1) in sub32 (node_ofs - 2) dec
                 else let dec = sub32 node_ofs (indirect_blks + 3) div (NIDS_PER_BLOCK + 1) in sub32 (node_ofs - 5) dec)
              in (bidx * ADDRS_PER_BLOCK + addrs_per_inode fi) mod 2 ^ 32)"

subsection \<open>Node blocks\<close>

text \<open>
  The 1018 words before the footer are a union: the addresses of a direct node, the node ids of an
  indirect node, or an inode, whose first 90 words are attributes, then 923 addresses and 5 node ids.
\<close>

definition COLD_BIT_SHIFT :: nat where "COLD_BIT_SHIFT = 0"
definition FSYNC_BIT_SHIFT :: nat where "FSYNC_BIT_SHIFT = 1"
definition DENT_BIT_SHIFT :: nat where "DENT_BIT_SHIFT = 2"
definition OFFSET_BIT_SHIFT :: nat where "OFFSET_BIT_SHIFT = 3"
definition OFFSET_BIT_MASK :: u32 where "OFFSET_BIT_MASK = 0x07"

lemmas shift_defs = COLD_BIT_SHIFT_def FSYNC_BIT_SHIFT_def DENT_BIT_SHIFT_def OFFSET_BIT_SHIFT_def

record node_footer =
  footer_nid :: nat
  footer_ino :: nat
  footer_flag :: u32
  footer_cp_ver :: u64
  footer_next_blkaddr :: nat

record f2fs_node = node_footer +
  node_words :: "nat \<Rightarrow> nat"

definition zero_node :: f2fs_node where
  "zero_node = \<lparr>footer_nid = 0, footer_ino = 0, footer_flag = 0, footer_cp_ver = 0, footer_next_blkaddr = 0,
     node_words = (\<lambda>_. 0)\<rparr>"

definition i_addr_word :: "nat \<Rightarrow> nat" where "i_addr_word k = 90 + k"
definition i_nid_word :: "nat \<Rightarrow> nat" where "i_nid_word k = 90 + DEF_ADDRS_PER_INODE + k"

definition fill_node_footer :: "f2fs_node \<Rightarrow> nat \<Rightarrow> nat \<Rightarrow> u32 \<Rightarrow> bool \<Rightarrow> f2fs_node" where
  "fill_node_footer rn nid ino ofs reset =
     (let old_flag = (if reset then 0 else footer_flag rn); rn = (if reset then zero_node else rn)
      in rn\<lparr>footer_nid := nid, footer_ino := ino,
            footer_flag := push_bit OFFSET_BIT_SHIFT ofs OR (old_flag AND OFFSET_BIT_MASK)\<rparr>)"

definition copy_node_footer :: "f2fs_node \<Rightarrow> f2fs_node \<Rightarrow> f2fs_node" where
  "copy_node_footer dst src =
     dst\<lparr>footer_nid := footer_nid src, footer_ino := footer_ino src, footer_flag := footer_flag src,
         footer_cp_ver := footer_cp_ver src, footer_next_blkaddr := footer_next_blkaddr src\<rparr>"

definition fill_node_footer_blkaddr :: "u64 \<Rightarrow> f2fs_node \<Rightarrow> nat \<Rightarrow> f2fs_node" where
  "fill_node_footer_blkaddr checkpoint_ver rn blkaddr =
     rn\<lparr>footer_cp_ver := checkpoint_ver, footer_next_blkaddr := blkaddr\<rparr>"

definition ofs_of_node :: "f2fs_node \<Rightarrow> nat" where
  "ofs_of_node rn = unat (drop_bit OFFSET_BIT_SHIFT (footer_flag rn))"

definition XATTR_NODE_OFFSET :: nat where
  "XATTR_NODE_OFFSET = unat (drop_bit OFFSET_BIT_SHIFT (push_bit OFFSET_BIT_SHIFT (- 1 :: u32)))"

definition f2fs_has_xattr_block :: "nat \<Rightarrow> bool" where
  "f2fs_has_xattr_block ofs = (ofs = XATTR_NODE_OFFSET)"

definition IS_DNODE :: "f2fs_node \<Rightarrow> bool" where
  "IS_DNODE rn =
     (let ofs = ofs_of_node rn
      in if f2fs_has_xattr_block ofs then False
         else if ofs = 3 \<or> ofs = 4 + NIDS_PER_BLOCK \<or> ofs = 5 + 2 * NIDS_PER_BLOCK then False
         else if ofs \<ge> 6 + 2 * NIDS_PER_BLOCK
         then (ofs - (6 + 2 * NIDS_PER_BLOCK)) mod (NIDS_PER_BLOCK + 1) \<noteq> 0
         else True)"

definition RAW_IS_INODE :: "f2fs_node \<Rightarrow> bool" where
  "RAW_IS_INODE p = (footer_nid p = footer_ino p)"

definition ADDRS_PER_PAGE :: "f2fs_node \<Rightarrow> bool \<Rightarrow> nat" where
  "ADDRS_PER_PAGE page fi = (if RAW_IS_INODE page then addrs_per_inode fi else ADDRS_PER_BLOCK)"

definition blkaddr_in_node :: "f2fs_node \<Rightarrow> nat \<Rightarrow> nat" where
  "blkaddr_in_node rn k = (if RAW_IS_INODE rn then i_addr_word k else k)"

definition datablock_addr :: "f2fs_node \<Rightarrow> nat \<Rightarrow> nat" where
  "datablock_addr rn offset = node_words rn (blkaddr_in_node rn offset)"

definition put_word :: "nat \<Rightarrow> nat \<Rightarrow> f2fs_node \<Rightarrow> f2fs_node" where
  "put_word k v rn = rn\<lparr>node_words := (node_words rn)(k := v)\<rparr>"

definition set_nid :: "f2fs_node \<Rightarrow> nat \<Rightarrow> nat \<Rightarrow> bool \<Rightarrow> f2fs_node" where
  "set_nid rn off nid i = put_word (if i then i_nid_word (off - NODE_DIR1_BLOCK) else off) nid rn"

definition get_nid :: "f2fs_node \<Rightarrow> nat \<Rightarrow> bool \<Rightarrow> nat" where
  "get_nid rn off i = node_words rn (if i then i_nid_word (off - NODE_DIR1_BLOCK) else off)"

definition is_node :: "f2fs_node \<Rightarrow> nat \<Rightarrow> bool" where
  "is_node rn type = (footer_flag rn AND push_bit type 1 \<noteq> 0)"

definition set_cold_node :: "bool \<Rightarrow> f2fs_node \<Rightarrow> f2fs_node" where
  "set_cold_node is_dir rn =
     (let flag = footer_flag rn
      in rn\<lparr>footer_flag := (if is_dir then flag AND NOT (push_bit COLD_BIT_SHIFT 1) else flag OR push_bit COLD_BIT_SHIFT 1)\<rparr>)"

definition set_mark :: "f2fs_node \<Rightarrow> bool \<Rightarrow> nat \<Rightarrow> f2fs_node" where
  "set_mark rn mark type =
     (let flag = footer_flag rn
      in rn\<lparr>footer_flag := (if mark then flag OR push_bit type 1 else flag AND NOT (push_bit type 1))\<rparr>)"

subsection \<open>The footer\<close>

lemma ofs_of_node_fill:
  assumes "ofs < 2 ^ 29"
  shows "ofs_of_node (fill_node_footer rn nid ino (of_nat ofs) reset) = ofs"
proof -
  let ?w = "word_of_nat ofs :: u32"
  have high: "bit ?w n \<Longrightarrow> n < 29" for n using bit_small_nat assms by blast
  have "(7 :: u32) = mask 3" by (simp add: mask_eq_exp_minus_1)
  then have low: "bit (f AND 7) n \<Longrightarrow> n < 3" for f :: u32 and n by (simp only: bit_and_iff bit_mask_iff)
  have "drop_bit 3 (push_bit 3 ?w OR (f AND 7)) = ?w" for f :: u32
    by (rule bit_word_eqI) (use high low in \<open>auto simp: bit_drop_bit_eq bit_or_iff bit_push_bit_iff dest: low\<close>)
  then show ?thesis
    using assms by (simp add: ofs_of_node_def fill_node_footer_def shift_defs OFFSET_BIT_MASK_def Let_def unat_of_nat)
qed

lemma is_node_bit: "is_node rn type \<longleftrightarrow> bit (footer_flag rn) type"
  by (simp add: is_node_def bit_iff_and_push_bit_not_eq_0)

lemma set_mark_bits:
  "type < 3 \<Longrightarrow> is_node (set_mark rn m type) k \<longleftrightarrow> (if k = type then m else is_node rn k)"
  by (auto simp: is_node_bit set_mark_def Let_def bit_or_iff bit_and_iff bit_not_iff bit_exp_iff
      dest: bit_imp_le_length)

lemma ofs_of_node_set_mark [simp]: "type < 3 \<Longrightarrow> ofs_of_node (set_mark rn m type) = ofs_of_node rn"
proof -
  assume t: "type < 3"
  have "drop_bit 3 (footer_flag (set_mark rn m type)) = drop_bit 3 (footer_flag rn)"
    by (rule bit_word_eqI) (use t set_mark_bits [OF t, of rn m] in \<open>auto simp: bit_drop_bit_eq is_node_bit\<close>)
  then show ?thesis by (simp add: ofs_of_node_def shift_defs)
qed

lemma set_cold_node_mark: "set_cold_node d rn = set_mark rn (\<not> d) COLD_BIT_SHIFT"
  by (simp add: set_cold_node_def set_mark_def Let_def)

lemma ofs_of_node_set_cold [simp]: "ofs_of_node (set_cold_node d rn) = ofs_of_node rn"
  by (simp add: set_cold_node_mark shift_defs)

subsection \<open>Paths and start indices are inverse\<close>

text \<open>Node offsets of leaves, as \<open>IS_DNODE\<close> sees them.\<close>

definition leaf_ofs :: "nat \<Rightarrow> bool" where
  "leaf_ofs ofs \<longleftrightarrow> ofs \<noteq> 3 \<and> ofs \<noteq> 1022 \<and> ofs \<noteq> 2041 \<and> (ofs \<ge> 2042 \<longrightarrow> (ofs - 2042) mod 1019 \<noteq> 0)"

lemma XATTR_NODE_OFFSET_eq: "XATTR_NODE_OFFSET = 2 ^ 29 - 1"
proof -
  have "drop_bit 3 (push_bit 3 (- 1 :: u32)) = mask 29"
    by (rule bit_word_eqI) (auto simp: bit_simps)
  then show ?thesis unfolding XATTR_NODE_OFFSET_def shift_defs by (simp only:) (simp add: mask_eq_exp_minus_1)
qed

lemma IS_DNODE_leaf: "ofs_of_node rn < 2 ^ 29 - 1 \<Longrightarrow> IS_DNODE rn = leaf_ofs (ofs_of_node rn)"
  by (auto simp: IS_DNODE_def leaf_ofs_def f2fs_has_xattr_block_def XATTR_NODE_OFFSET_eq Let_def node_sizes)

lemma addrs_per_inode_le: "addrs_per_inode fi \<le> 923" "873 \<le> addrs_per_inode fi"
  by (simp_all add: addrs_per_inode_def node_sizes)

lemma start_bidx_cases:
  "start_bidx_of_node 0 fi = 0"
  "start_bidx_of_node 1 fi = addrs_per_inode fi"
  "start_bidx_of_node 2 fi = 1018 + addrs_per_inode fi"
  "o1 < 1018 \<Longrightarrow> start_bidx_of_node (4 + o1) fi = (2 + o1) * 1018 + addrs_per_inode fi"
  "o1 < 1018 \<Longrightarrow> start_bidx_of_node (1023 + o1) fi = (1020 + o1) * 1018 + addrs_per_inode fi"
  "o1 < 1018 \<Longrightarrow> o2 < 1018 \<Longrightarrow>
     start_bidx_of_node (2043 + o1 * 1019 + o2) fi = (2038 + o1 * 1018 + o2) * 1018 + addrs_per_inode fi"
proof -
  note a = addrs_per_inode_le [of fi]
  show "start_bidx_of_node 0 fi = 0" by (simp add: start_bidx_of_node_def)
  show "start_bidx_of_node 1 fi = addrs_per_inode fi" "start_bidx_of_node 2 fi = 1018 + addrs_per_inode fi"
    using a by (simp_all add: start_bidx_of_node_def node_sizes Let_def)
  show "start_bidx_of_node (4 + o1) fi = (2 + o1) * 1018 + addrs_per_inode fi" if "o1 < 1018"
    using that a by (simp add: start_bidx_of_node_def node_sizes Let_def)
  show "start_bidx_of_node (1023 + o1) fi = (1020 + o1) * 1018 + addrs_per_inode fi" if "o1 < 1018"
  proof -
    have "(1019 + o1) div 1019 = 1" using that by (simp add: div_add_self1)
    then show ?thesis using that a by (simp add: start_bidx_of_node_def node_sizes Let_def)
  qed
  show "start_bidx_of_node (2043 + o1 * 1019 + o2) fi = (2038 + o1 * 1018 + o2) * 1018 + addrs_per_inode fi"
    if "o1 < 1018" "o2 < 1018"
  proof -
    have "(o1 * 1019 + o2) div 1019 = o1" using that by simp
    then show ?thesis using that a by (simp add: start_bidx_of_node_def node_sizes Let_def)
  qed
qed

lemma leaf_ofs_cases:
  "leaf_ofs 0" "leaf_ofs 1" "leaf_ofs 2" "o1 < 1018 \<Longrightarrow> leaf_ofs (4 + o1)" "o1 < 1018 \<Longrightarrow> leaf_ofs (1023 + o1)"
  "o2 < 1018 \<Longrightarrow> leaf_ofs (2043 + o1 * 1019 + o2)"
  "\<not> leaf_ofs 3" "\<not> leaf_ofs 1022" "\<not> leaf_ofs 2041" "\<not> leaf_ofs (2042 + o1 * 1019)"
proof -
  show "leaf_ofs (2043 + o1 * 1019 + o2)" if "o2 < 1018"
  proof -
    have "(Suc o2 + o1 * 1019) mod 1019 = Suc o2" using that by (simp only: mod_mult_self1) simp
    then have "(2043 + o1 * 1019 + o2 - 2042) mod 1019 = Suc o2" by (simp add: add.commute)
    then show ?thesis by (simp add: leaf_ofs_def)
  qed
qed (simp_all add: leaf_ofs_def)

text \<open>The six regions of a file, from the start of the region.\<close>

definition path_of :: "bool \<Rightarrow> nat \<Rightarrow> nat list \<Rightarrow> nat list \<Rightarrow> bool" where
  "path_of fi block offs noffs \<longleftrightarrow>
     block < addrs_per_inode fi \<and> offs = [block] \<and> noffs = [0]
   \<or> (\<exists>r<1018. block = addrs_per_inode fi + r \<and> offs = [924, r] \<and> noffs = [0, 1])
   \<or> (\<exists>r<1018. block = addrs_per_inode fi + 1018 + r \<and> offs = [925, r] \<and> noffs = [0, 2])
   \<or> (\<exists>o1<1018. \<exists>r<1018. block = addrs_per_inode fi + 2 * 1018 + o1 * 1018 + r \<and> offs = [926, o1, r] \<and> noffs = [0, 3, 4 + o1])
   \<or> (\<exists>o1<1018. \<exists>r<1018. block = addrs_per_inode fi + 2 * 1018 + 1018 * 1018 + o1 * 1018 + r
        \<and> offs = [927, o1, r] \<and> noffs = [0, 1022, 1023 + o1])
   \<or> (\<exists>o1<1018. \<exists>o2<1018. \<exists>r<1018. block = addrs_per_inode fi + 2 * 1018 + 2 * (1018 * 1018) + o1 * (1018 * 1018) + o2 * 1018 + r
        \<and> offs = [928, o1, o2, r] \<and> noffs = [0, 2041, 2042 + o1 * 1019, 2043 + o1 * 1019 + o2])"

definition file_blocks :: "bool \<Rightarrow> nat" where
  "file_blocks fi = addrs_per_inode fi + 2 * 1018 + 2 * (1018 * 1018) + 1018 * (1018 * 1018)"

lemma split_index:
  fixes b :: nat
  assumes "b < 1018 * 1018"
  shows "\<exists>r<1018. b = b div 1018 * 1018 + r \<and> b mod 1018 = r" "b div 1018 < 1018"
  using assms by (auto intro!: exI [of _ "b mod 1018"])

lemma split_index2:
  fixes b :: nat
  assumes "b < 1018 * (1018 * 1018)"
  shows "b div (1018 * 1018) < 1018" "b div 1018 mod 1018 < 1018"
    "b = b div (1018 * 1018) * (1018 * 1018) + b div 1018 mod 1018 * 1018 + b mod 1018"
proof -
  show "b div (1018 * 1018) < 1018" using assms by (simp add: less_mult_imp_div_less)
  show "b div 1018 mod 1018 < 1018" by simp
  have "b div 1018 = b div (1018 * 1018) * 1018 + b div 1018 mod 1018" by (simp only: div_mult2_eq div_mult_mod_eq)
  then show "b = b div (1018 * 1018) * (1018 * 1018) + b div 1018 mod 1018 * 1018 + b mod 1018"
    using div_mult_mod_eq [of b 1018] by (metis add_mult_distrib mult.assoc)
qed

lemma get_node_path_beyond: "block \<ge> file_blocks fi \<Longrightarrow> get_node_path fi block = None"
  by (simp add: get_node_path_def file_blocks_def node_sizes Let_def) (intro conjI impI; linarith)

lemma get_node_path_of:
  assumes "block < file_blocks fi"
  shows "\<exists>offs noffs. get_node_path fi block = Some (offs, noffs) \<and> path_of fi block offs noffs"
proof -
  let ?A = "addrs_per_inode fi"
  consider (inode) "block < ?A" | (dir1) r where "block = ?A + r" "r < 1018"
    | (dir2) r where "block = ?A + 1018 + r" "r < 1018"
    | (ind1) b where "block = ?A + 2 * 1018 + b" "b < 1018 * 1018"
    | (ind2) b where "block = ?A + 2 * 1018 + 1018 * 1018 + b" "b < 1018 * 1018"
    | (dind) b where "block = ?A + 2 * 1018 + 2 * (1018 * 1018) + b" "b < 1018 * (1018 * 1018)"
  proof -
    have "block < ?A \<or> block - ?A < 1018 \<and> block \<ge> ?A \<or> block - ?A - 1018 < 1018 \<and> block \<ge> ?A + 1018
      \<or> block - (?A + 2 * 1018) < 1018 * 1018 \<and> block \<ge> ?A + 2 * 1018
      \<or> block - (?A + 2 * 1018 + 1018 * 1018) < 1018 * 1018 \<and> block \<ge> ?A + 2 * 1018 + 1018 * 1018
      \<or> block - (?A + 2 * 1018 + 2 * (1018 * 1018)) < 1018 * (1018 * 1018) \<and> block \<ge> ?A + 2 * 1018 + 2 * (1018 * 1018)"
      using assms unfolding file_blocks_def by arith
    then show thesis
      using inode dir1 [of "block - ?A"] dir2 [of "block - ?A - 1018"] ind1 [of "block - (?A + 2 * 1018)"]
        ind2 [of "block - (?A + 2 * 1018 + 1018 * 1018)"] dind [of "block - (?A + 2 * 1018 + 2 * (1018 * 1018))"]
      by (elim disjE conjE) simp_all
  qed
  then show ?thesis
  proof cases
    case inode
    then show ?thesis by (simp add: get_node_path_def path_of_def Let_def)
  next
    case dir1
    then show ?thesis by (simp add: get_node_path_def path_of_def Let_def node_sizes)
  next
    case dir2
    then show ?thesis by (simp add: get_node_path_def path_of_def Let_def node_sizes)
  next
    case ind1
    have "get_node_path fi block = Some ([926, b div 1018, b mod 1018], [0, 3, 4 + b div 1018])"
      using ind1 by (simp add: get_node_path_def Let_def node_sizes)
    moreover have "path_of fi block [926, b div 1018, b mod 1018] [0, 3, 4 + b div 1018]"
      using ind1(1) split_index [OF ind1(2)] by (simp add: path_of_def)
    ultimately show ?thesis by blast
  next
    case ind2
    have "get_node_path fi block = Some ([927, b div 1018, b mod 1018], [0, 1022, 1023 + b div 1018])"
      using ind2 by (simp add: get_node_path_def Let_def node_sizes)
    moreover have "path_of fi block [927, b div 1018, b mod 1018] [0, 1022, 1023 + b div 1018]"
      using ind2(1) split_index [OF ind2(2)] by (simp add: path_of_def)
    ultimately show ?thesis by blast
  next
    case dind
    let ?o1 = "b div (1018 * 1018)" and ?o2 = "b div 1018 mod 1018"
    have "get_node_path fi block = Some ([928, ?o1, ?o2, b mod 1018], [0, 2041, 2042 + ?o1 * 1019, 2043 + ?o1 * 1019 + ?o2])"
      using dind by (simp add: get_node_path_def Let_def node_sizes)
    moreover have "path_of fi block [928, ?o1, ?o2, b mod 1018] [0, 2041, 2042 + ?o1 * 1019, 2043 + ?o1 * 1019 + ?o2]"
      using dind(1) split_index2 [OF dind(2)] unfolding path_of_def by (auto simp del: mult_numeral_left)
    ultimately show ?thesis by blast
  qed
qed

lemma get_node_path_Some:
  "get_node_path fi block = Some (offs, noffs) \<Longrightarrow> path_of fi block offs noffs \<and> block < file_blocks fi"
  using get_node_path_of [of block fi] get_node_path_beyond [of fi block] by (cases "block < file_blocks fi") auto

lemma pgofs_of_next:
  assumes "r < 1018"
  shows "PGOFS_OF_NEXT_DNODE (addrs_per_inode fi + q * 1018 + r) fi = (q + 1) * 1018 + addrs_per_inode fi"
proof -
  have "addrs_per_inode fi + q * 1018 + r - addrs_per_inode fi + 1018 = r + (q + 1) * 1018" by simp
  moreover have "(r + (q + 1) * 1018) div 1018 = q + 1" using assms by (subst div_mult_self1) auto
  ultimately show ?thesis unfolding PGOFS_OF_NEXT_DNODE_def ADDRS_PER_BLOCK_def by (simp only:) simp
qed

text \<open>A leaf covers the indices from \<open>start\<close>, \<open>n\<close> of them, up to the start of the next leaf.\<close>

definition leaf_at :: "bool \<Rightarrow> nat \<Rightarrow> nat \<Rightarrow> nat \<Rightarrow> nat \<Rightarrow> bool" where
  "leaf_at fi block ofs off n \<longleftrightarrow>
     off < n \<and> start_bidx_of_node ofs fi + off = block \<and> PGOFS_OF_NEXT_DNODE block fi = start_bidx_of_node ofs fi + n"

lemma leaf_at_dnode:
  assumes "r < 1018" "start_bidx_of_node ofs fi = q * 1018 + addrs_per_inode fi" "block = addrs_per_inode fi + q * 1018 + r"
  shows "leaf_at fi block ofs r 1018"
  using assms pgofs_of_next [OF assms(1), of fi q] by (simp add: leaf_at_def)

lemma path_leaf:
  assumes "path_of fi block offs noffs"
  shows "leaf_at fi block (last noffs) (last offs) (if length offs = 1 then addrs_per_inode fi else 1018)"
  using assms unfolding path_of_def
proof (elim disjE exE conjE, goal_cases)
  case 1
  then show ?case by (simp add: leaf_at_def start_bidx_cases PGOFS_OF_NEXT_DNODE_def)
next
  case (2 r)
  then show ?case using leaf_at_dnode [of r 1 fi 0] by (simp add: start_bidx_cases del: One_nat_def)
next
  case (3 r)
  then show ?case using leaf_at_dnode [of r 2 fi 1] by (simp add: start_bidx_cases)
next
  case (4 o1 r)
  then show ?case using leaf_at_dnode [of r "4 + o1" fi "2 + o1"] by (simp add: start_bidx_cases add.assoc)
next
  case (5 o1 r)
  then show ?case using leaf_at_dnode [of r "1023 + o1" fi "1020 + o1"] by (simp add: start_bidx_cases add.assoc)
next
  case (6 o1 o2 r)
  then show ?case using leaf_at_dnode [OF 6(3) start_bidx_cases(6) [OF 6(1,2)], of block] by simp
qed

lemma path_nodes:
  assumes "path_of fi block offs noffs"
  shows "length noffs = length offs" "length offs \<le> 4" "offs \<noteq> []" "distinct noffs"
  using assms unfolding path_of_def by (auto simp del: One_nat_def)

lemma path_offsets:
  assumes "path_of fi block offs noffs"
  shows "\<forall>i < length noffs. noffs ! i < 2 ^ 29 - 1 \<and> (leaf_ofs (noffs ! i) \<longleftrightarrow> i = 0 \<or> Suc i = length noffs)"
  using assms unfolding path_of_def
proof (elim disjE exE conjE, goal_cases)
  case (6 o1 o2 r)
  then show ?case by (simp add: All_less_Suc2 leaf_ofs_cases)
qed (simp_all add: All_less_Suc2 leaf_ofs_cases del: One_nat_def)

lemma path_bounds:
  assumes "path_of fi block offs noffs"
  shows "\<forall>i < length offs. 0 < i \<and> Suc i < length offs \<longrightarrow> offs ! i < NIDS_PER_BLOCK"
  using assms unfolding path_of_def NIDS_PER_BLOCK_def
  by (elim disjE exE conjE) (simp_all add: All_less_Suc2 del: One_nat_def)



text \<open>
  C29: Every byte offset below \<open>max_file_size\<close> has a path, for inodes with and without inline
  attributes, so the \<open>BUG()\<close> is not reached from within a file; past the last index of the double
  indirect node it is.
\<close>

theorem max_file_size_has_path:
  "(get_node_path fi block \<noteq> None \<longleftrightarrow> block < file_blocks fi)
   \<and> max_file_size bits div 2 ^ bits = file_blocks True
   \<and> (pos < max_file_size bits \<longrightarrow> get_node_path fi (pos div 2 ^ bits) \<noteq> None)"
proof -
  have m: "max_file_size bits = file_blocks True * 2 ^ bits"
    by (simp add: max_file_size_def file_blocks_def addrs_per_inode_def node_sizes Let_def push_bit_eq_mult)
  have iff: "get_node_path fi b \<noteq> None \<longleftrightarrow> b < file_blocks fi" for b
    using get_node_path_of [of b fi] get_node_path_beyond [of fi b] by fastforce
  have "file_blocks True \<le> file_blocks fi" by (simp add: file_blocks_def addrs_per_inode_def node_sizes)
  moreover have "pos div 2 ^ bits < file_blocks True" if "pos < max_file_size bits"
    using that by (simp add: m less_mult_imp_div_less)
  ultimately show ?thesis using iff [of block] iff [of "pos div 2 ^ bits"] by (auto simp: m)
qed

theorem max_file_size_has_path_witness:
  "(4320000000000 :: nat) < max_file_size 12 \<and> get_node_path False (4320000000000 div 2 ^ 12) \<noteq> None"
proof -
  have "(4320000000000 :: nat) < max_file_size 12" by (simp add: max_file_size_def node_sizes push_bit_eq_mult)
  with max_file_size_has_path [of False 0 12 4320000000000] show ?thesis by blast
qed

end
