(* ===== verification/Extent.thy ===== *)
theory Extent
  imports Segstate "HOL-Library.Tree" "HOL-Library.AList"
begin

section \<open>The extent cache\<close>

text \<open>
  An extent says that a run of file blocks lies in consecutive blocks of the volume. An inode keeps
  one extent, and with the mount option \<open>extent_cache\<close> every inode has a tree of extents, ordered by
  file offset, with the extent last used and a list of all extents for the shrinker. Modelled:
  \<open>data.c\<close> from \<open>lookup_extent_info\<close> to \<open>f2fs_lookup_extent_cache\<close> and the helpers of \<open>f2fs.h\<close>.
  The descent in the tree, the merges and the place where a node is linked are those of the code.
  The rebalancing is the kernel's red-black tree library; it is a parameter \<open>rb\<close>, of which the laws
  \<open>rb_laws\<close> are used. An extent node is a heap object; its address is \<open>en_id\<close>, and
  \<open>ext_mem_ok\<close> says which of the allocations from atomic memory succeed. Reference counts are
  zero between operations.
\<close>

subsection \<open>Extents\<close>

definition F2FS_MIN_EXTENT_LEN :: nat where "F2FS_MIN_EXTENT_LEN = 64"

record extent_info =
  fofs :: nat
  blk :: nat
  len :: nat

definition set_extent_info :: "nat \<Rightarrow> nat \<Rightarrow> nat \<Rightarrow> extent_info" where
  "set_extent_info f b l = \<lparr>fofs = f, blk = b, len = l\<rparr>"

definition is_extent_same :: "extent_info \<Rightarrow> extent_info \<Rightarrow> bool" where
  "is_extent_same ei1 ei2 = (fofs ei1 = fofs ei2 \<and> blk ei1 = blk ei2 \<and> len ei1 = len ei2)"

definition is_extent_mergeable :: "extent_info \<Rightarrow> extent_info \<Rightarrow> bool" where
  "is_extent_mergeable back front =
     (add32 (fofs back) (len back) = fofs front \<and> add32 (blk back) (len back) = blk front)"

definition is_back_mergeable :: "extent_info \<Rightarrow> extent_info \<Rightarrow> bool" where
  "is_back_mergeable cur back = is_extent_mergeable back cur"

definition is_front_mergeable :: "extent_info \<Rightarrow> extent_info \<Rightarrow> bool" where
  "is_front_mergeable cur front = is_extent_mergeable cur front"

subsection \<open>The single extent of an inode\<close>

record ext_inode =
  ext :: extent_info
  FI_NO_EXTENT :: bool

definition lookup_extent_info :: "ext_inode \<Rightarrow> nat \<Rightarrow> extent_info option" where
  "lookup_extent_info fi pgofs =
     (if len (ext fi) = 0 then None
      else let start_fofs = fofs (ext fi); end_fofs = sub32 (add32 (fofs (ext fi)) (len (ext fi))) 1
           in if pgofs \<ge> start_fofs \<and> pgofs \<le> end_fofs then Some (ext fi) else None)"

definition drop_if_small :: "bool \<Rightarrow> ext_inode \<Rightarrow> ext_inode \<times> bool" where
  "drop_if_small need_update fi =
     (if len (ext fi) < F2FS_MIN_EXTENT_LEN
      then (fi\<lparr>ext := (ext fi)\<lparr>len := 0\<rparr>, FI_NO_EXTENT := True\<rparr>, True) else (fi, need_update))"

definition update_extent_info :: "ext_inode \<Rightarrow> nat \<Rightarrow> nat \<Rightarrow> ext_inode \<times> bool" where
  "update_extent_info fi f blkaddr =
     (let start_fofs = fofs (ext fi); end_fofs = sub32 (add32 (fofs (ext fi)) (len (ext fi))) 1;
          start_blkaddr = blk (ext fi); end_blkaddr = sub32 (add32 (blk (ext fi)) (len (ext fi))) 1;
          e = (if len (ext fi) = 1 \<and> f = start_fofs then (ext fi)\<lparr>len := 0\<rparr> else ext fi)
      in if len e = 0
         then (fi\<lparr>ext := if blkaddr \<noteq> NULL_ADDR then \<lparr>fofs = f, blk = blkaddr, len = 1\<rparr> else e\<rparr>, True)
         else if f + 1 = start_fofs \<and> blkaddr = sub32 start_blkaddr 1
         then (fi\<lparr>ext := \<lparr>fofs = fofs e - 1, blk = sub32 (blk e) 1, len = add32 (len e) 1\<rparr>\<rparr>, True)
         else if f = end_fofs + 1 \<and> blkaddr = add32 end_blkaddr 1
         then (fi\<lparr>ext := e\<lparr>len := add32 (len e) 1\<rparr>\<rparr>, True)
         else if len e > 1 \<and> f \<ge> start_fofs \<and> f \<le> end_fofs
         then drop_if_small True (fi\<lparr>ext :=
                if end_fofs - f < len e div 2 then e\<lparr>len := f - start_fofs\<rparr>
                else \<lparr>fofs = f + 1, blk = add32 start_blkaddr (f - start_fofs + 1), len = len e - (f - start_fofs + 1)\<rparr>\<rparr>)
         else drop_if_small False (fi\<lparr>ext := e\<rparr>))"

subsection \<open>The extent tree of an inode\<close>

record extent_node =
  en_id :: nat
  en_ei :: extent_info

record extent_tree =
  et_root :: "extent_node tree"
  cached_en :: "nat option"
  et_count :: nat

record ext_cache =
  extent_tree_root :: "(nat \<times> extent_tree) list"
  extent_list :: "nat list"
  total_ext_tree :: nat
  total_ext_node :: nat
  next_en :: nat
  ext_mem_ok :: "nat \<Rightarrow> bool"
  opt_EXTENT_CACHE :: bool
  ext_need_fsck :: bool

text \<open>The red-black tree library: recolouring after a node was linked, and removal of a node.\<close>

record rb_ops =
  rb_insert_color :: "extent_node tree \<Rightarrow> extent_node tree"
  rb_erase :: "nat \<Rightarrow> extent_node tree \<Rightarrow> extent_node tree"

definition rb_laws :: "rb_ops \<Rightarrow> bool" where
  "rb_laws rb \<longleftrightarrow> (\<forall>t. inorder (rb_insert_color rb t) = inorder t)
     \<and> (\<forall>i t. inorder (rb_erase rb i t) = filter (\<lambda>en. en_id en \<noteq> i) (inorder t))"

definition empty_extent_tree :: extent_tree where
  "empty_extent_tree = \<lparr>et_root = Leaf, cached_en = None, et_count = 0\<rparr>"

definition find_en :: "nat \<Rightarrow> extent_node tree \<Rightarrow> extent_node option" where
  "find_en i t = find (\<lambda>en. en_id en = i) (inorder t)"

definition upd_en :: "nat \<Rightarrow> (extent_info \<Rightarrow> extent_info) \<Rightarrow> extent_tree \<Rightarrow> extent_tree" where
  "upd_en i f et = et\<lparr>et_root := map_tree (\<lambda>en. if en_id en = i then en\<lparr>en_ei := f (en_ei en)\<rparr> else en) (et_root et)\<rparr>"

definition rb_prev :: "nat \<Rightarrow> extent_node tree \<Rightarrow> extent_node option" where
  "rb_prev i t = (case rev (takeWhile (\<lambda>en. en_id en \<noteq> i) (inorder t)) of [] \<Rightarrow> None | en # _ \<Rightarrow> Some en)"

definition rb_next :: "nat \<Rightarrow> extent_node tree \<Rightarrow> extent_node option" where
  "rb_next i t = (case dropWhile (\<lambda>en. en_id en \<noteq> i) (inorder t) of _ # en # _ \<Rightarrow> Some en | _ \<Rightarrow> None)"

text \<open>Where \<open>rb_link_node\<close> puts a new node: the empty place the descent of the insertion ends at.\<close>

fun rb_link :: "extent_node \<Rightarrow> extent_node tree \<Rightarrow> extent_node tree" where
  "rb_link en Leaf = Node Leaf en Leaf"
| "rb_link en (Node l a r) =
     (if fofs (en_ei en) < fofs (en_ei a) then Node (rb_link en l) a r else Node l a (rb_link en r))"

definition attach_extent_node :: "rb_ops \<Rightarrow> ext_cache \<Rightarrow> extent_tree \<Rightarrow> extent_info \<Rightarrow> ext_cache \<times> extent_tree \<times> nat option" where
  "attach_extent_node rb sb et ei =
     (let i = next_en sb; ok = ext_mem_ok sb i; sb = sb\<lparr>next_en := i + 1\<rparr>
      in if \<not> ok then (sb, et, None)
         else (sb\<lparr>total_ext_node := total_ext_node sb + 1\<rparr>,
               et\<lparr>et_root := rb_insert_color rb (rb_link \<lparr>en_id = i, en_ei = ei\<rparr> (et_root et)), et_count := add32 (et_count et) 1\<rparr>,
               Some i))"

definition detach_extent_node :: "rb_ops \<Rightarrow> ext_cache \<Rightarrow> extent_tree \<Rightarrow> nat \<Rightarrow> ext_cache \<times> extent_tree" where
  "detach_extent_node rb sb et i =
     (sb\<lparr>total_ext_node := total_ext_node sb - 1\<rparr>,
      et\<lparr>et_root := rb_erase rb i (et_root et), et_count := sub32 (et_count et) 1,
         cached_en := if cached_en et = Some i then None else cached_en et\<rparr>)"

definition find_extent_tree :: "ext_cache \<Rightarrow> nat \<Rightarrow> extent_tree option" where
  "find_extent_tree sb ino = map_of (extent_tree_root sb) ino"

definition put_extent_tree :: "nat \<Rightarrow> extent_tree \<Rightarrow> ext_cache \<Rightarrow> ext_cache" where
  "put_extent_tree ino et sb = sb\<lparr>extent_tree_root := AList.update ino et (extent_tree_root sb)\<rparr>"

definition grab_extent_tree :: "ext_cache \<Rightarrow> nat \<Rightarrow> ext_cache \<times> extent_tree" where
  "grab_extent_tree sb ino =
     (case map_of (extent_tree_root sb) ino of
        Some et \<Rightarrow> (sb, et)
      | None \<Rightarrow> (put_extent_tree ino empty_extent_tree sb\<lparr>total_ext_tree := total_ext_tree sb + 1\<rparr>, empty_extent_tree))"

fun lookup_rb :: "extent_node tree \<Rightarrow> nat \<Rightarrow> extent_node option" where
  "lookup_rb Leaf f = None"
| "lookup_rb (Node l en r) f =
     (if f < fofs (en_ei en) then lookup_rb l f
      else if f \<ge> add32 (fofs (en_ei en)) (len (en_ei en)) then lookup_rb r f
      else Some en)"

definition lookup_extent_tree :: "extent_tree \<Rightarrow> nat \<Rightarrow> extent_tree \<times> extent_node option" where
  "lookup_extent_tree et f =
     (let hit = (case cached_en et of None \<Rightarrow> None
                 | Some i \<Rightarrow> (case find_en i (et_root et) of None \<Rightarrow> None
                     | Some en \<Rightarrow> if fofs (en_ei en) \<le> f \<and> add32 (fofs (en_ei en)) (len (en_ei en)) > f then Some en else None))
      in case hit of Some en \<Rightarrow> (et, Some en)
         | None \<Rightarrow> (case lookup_rb (et_root et) f of
                      None \<Rightarrow> (et, None) | Some en \<Rightarrow> (et\<lparr>cached_en := Some (en_id en)\<rparr>, Some en)))"

definition try_back_merge :: "rb_ops \<Rightarrow> ext_cache \<Rightarrow> extent_tree \<Rightarrow> nat \<Rightarrow> ext_cache \<times> extent_tree \<times> nat option" where
  "try_back_merge rb sb et i =
     (case (rb_prev i (et_root et), find_en i (et_root et)) of
        (Some prev, Some en) \<Rightarrow>
          if is_back_mergeable (en_ei en) (en_ei prev)
          then let et = upd_en i (\<lambda>e. \<lparr>fofs = fofs (en_ei prev), blk = blk (en_ei prev), len = add32 (len e) (len (en_ei prev))\<rparr>) et;
                   (sb, et) = detach_extent_node rb sb et (en_id prev)
               in (sb, et, Some (en_id prev))
          else (sb, et, None)
      | _ \<Rightarrow> (sb, et, None))"

definition try_front_merge :: "rb_ops \<Rightarrow> ext_cache \<Rightarrow> extent_tree \<Rightarrow> nat \<Rightarrow> ext_cache \<times> extent_tree \<times> nat option" where
  "try_front_merge rb sb et i =
     (case (rb_next i (et_root et), find_en i (et_root et)) of
        (Some nxt, Some en) \<Rightarrow>
          if is_front_mergeable (en_ei en) (en_ei nxt)
          then let et = upd_en i (\<lambda>e. e\<lparr>len := add32 (len e) (len (en_ei nxt))\<rparr>) et;
                   (sb, et) = detach_extent_node rb sb et (en_id nxt)
               in (sb, et, Some (en_id nxt))
          else (sb, et, None)
      | _ \<Rightarrow> (sb, et, None))"

text \<open>
  The descent of \<open>__insert_extent_tree\<close>. On an overlap the code raises the fsck flag and stays at the
  same node: the loop does not end.
\<close>

datatype ins_place = Front_merge nat | Back_merge nat | Link | Overlap

fun find_place :: "extent_info \<Rightarrow> extent_node tree \<Rightarrow> ins_place" where
  "find_place ei Leaf = Link"
| "find_place ei (Node l en r) =
     (if fofs ei < fofs (en_ei en)
      then if is_front_mergeable ei (en_ei en) then Front_merge (en_id en) else find_place ei l
      else if fofs ei \<ge> add32 (fofs (en_ei en)) (len (en_ei en))
      then if is_back_mergeable ei (en_ei en) then Back_merge (en_id en) else find_place ei r
      else Overlap)"

datatype ins_fault = Endless_loop | Null_dereference

text \<open>
  The result: the node that holds the extent (none when memory ran out) and the node that was merged
  away. A caller that passes no place for the latter makes the code dereference a null pointer when it
  merges.
\<close>

definition insert_extent_tree ::
  "rb_ops \<Rightarrow> ext_cache \<Rightarrow> extent_tree \<Rightarrow> extent_info \<Rightarrow> bool
     \<Rightarrow> ins_fault + (ext_cache \<times> extent_tree \<times> nat option \<times> nat option)" where
  "insert_extent_tree rb sb et ei has_den =
     (case find_place ei (et_root et) of
        Front_merge i \<Rightarrow>
          if \<not> has_den then Inl Null_dereference
          else let (sb, et, den) = try_back_merge rb sb
                     (upd_en i (\<lambda>e. \<lparr>fofs = fofs ei, blk = blk ei, len = add32 (len e) (len ei)\<rparr>) et) i
               in Inr (sb, et, Some i, den)
      | Back_merge i \<Rightarrow>
          if \<not> has_den then Inl Null_dereference
          else let (sb, et, den) = try_front_merge rb sb (upd_en i (\<lambda>e. e\<lparr>len := add32 (len e) (len ei)\<rparr>) et) i
               in Inr (sb, et, Some i, den)
      | Overlap \<Rightarrow> Inl Endless_loop
      | Link \<Rightarrow> let (sb, et, en) = attach_extent_node rb sb et ei in Inr (sb, et, en, None))"

definition free_extent_nodes :: "rb_ops \<Rightarrow> bool \<Rightarrow> extent_node list \<Rightarrow> ext_cache \<times> extent_tree \<Rightarrow> ext_cache \<times> extent_tree" where
  "free_extent_nodes rb free_all ens = fold (\<lambda>en (sb, et).
     let sb = (if free_all then sb\<lparr>extent_list := removeAll (en_id en) (extent_list sb)\<rparr> else sb)
     in if free_all \<or> en_id en \<notin> set (extent_list sb) then detach_extent_node rb sb et (en_id en) else (sb, et)) ens"

definition free_extent_tree :: "rb_ops \<Rightarrow> ext_cache \<Rightarrow> extent_tree \<Rightarrow> bool \<Rightarrow> ext_cache \<times> extent_tree \<times> nat" where
  "free_extent_tree rb sb et free_all =
     (let count = et_count et; (sb, et) = free_extent_nodes rb free_all (inorder (et_root et)) (sb, et)
      in (sb, et, sub32 count (et_count et)))"

definition list_add_tail :: "nat option \<Rightarrow> ext_cache \<Rightarrow> ext_cache" where
  "list_add_tail en sb = (case en of None \<Rightarrow> sb | Some i \<Rightarrow> sb\<lparr>extent_list := removeAll i (extent_list sb) @ [i]\<rparr>)"

definition list_del :: "nat option \<Rightarrow> ext_cache \<Rightarrow> ext_cache" where
  "list_del en sb = (case en of None \<Rightarrow> sb | Some i \<Rightarrow> sb\<lparr>extent_list := removeAll i (extent_list sb)\<rparr>)"

definition f2fs_init_extent_tree :: "rb_ops \<Rightarrow> ext_cache \<Rightarrow> nat \<Rightarrow> extent_info \<Rightarrow> ins_fault + ext_cache" where
  "f2fs_init_extent_tree rb sb ino i_ext =
     (if len i_ext < F2FS_MIN_EXTENT_LEN then Inr sb
      else let (sb, et) = grab_extent_tree sb ino
           in if et_count et \<noteq> 0 then Inr sb
              else case insert_extent_tree rb sb et (set_extent_info (fofs i_ext) (blk i_ext) (len i_ext)) False of
                     Inl e \<Rightarrow> Inl e
                   | Inr (sb, et, en, _) \<Rightarrow>
                       let et = (if en \<noteq> None then et\<lparr>cached_en := en\<rparr> else et)
                       in Inr (list_add_tail en (put_extent_tree ino et sb)))"

definition f2fs_lookup_extent_tree :: "ext_cache \<Rightarrow> nat \<Rightarrow> nat \<Rightarrow> ext_cache \<times> extent_info option" where
  "f2fs_lookup_extent_tree sb ino pgofs =
     (case find_extent_tree sb ino of None \<Rightarrow> (sb, None)
      | Some et \<Rightarrow>
          let (et, en) = lookup_extent_tree et pgofs; sb = put_extent_tree ino et sb
          in case en of None \<Rightarrow> (sb, None)
             | Some en \<Rightarrow> (if en_id en \<in> set (extent_list sb) then list_add_tail (Some (en_id en)) sb else sb, Some (en_ei en)))"

text \<open>The steps of \<open>f2fs_update_extent_tree\<close>: remove the extent that covers the offset, keep its two sides, insert the block.\<close>

definition insert_left :: "rb_ops \<Rightarrow> ext_cache \<Rightarrow> extent_tree \<Rightarrow> extent_info \<Rightarrow> nat
    \<Rightarrow> ins_fault + (ext_cache \<times> extent_tree \<times> nat option \<times> nat option)" where
  "insert_left rb sb et dei f =
     (if f - fofs dei \<ge> F2FS_MIN_EXTENT_LEN
      then insert_extent_tree rb sb et (set_extent_info (fofs dei) (blk dei) (f - fofs dei)) False
      else Inr (sb, et, None, None))"

definition insert_right :: "rb_ops \<Rightarrow> ext_cache \<Rightarrow> extent_tree \<Rightarrow> extent_info \<Rightarrow> nat
    \<Rightarrow> ins_fault + (ext_cache \<times> extent_tree \<times> nat option \<times> nat option)" where
  "insert_right rb sb et dei f =
     (let endofs = sub32 (add32 (fofs dei) (len dei)) 1
      in if endofs - f \<ge> F2FS_MIN_EXTENT_LEN
         then insert_extent_tree rb sb et (set_extent_info (f + 1) (add32 (f - fofs dei) (blk dei)) (endofs - f)) False
         else Inr (sb, et, None, None))"

definition split_extent :: "rb_ops \<Rightarrow> ext_cache \<Rightarrow> extent_tree \<Rightarrow> extent_info \<Rightarrow> nat
    \<Rightarrow> ins_fault + (ext_cache \<times> extent_tree \<times> nat option \<times> nat option)" where
  "split_extent rb sb et dei f =
     (if len dei > 1
      then case insert_left rb sb et dei f of Inl e \<Rightarrow> Inl e
           | Inr (sb, et, en1, _) \<Rightarrow>
               (case insert_right rb sb et dei f of Inl e \<Rightarrow> Inl e | Inr (sb, et, en2, _) \<Rightarrow> Inr (sb, et, en1, en2))
      else Inr (sb, et, None, None))"

definition f2fs_update_extent_tree :: "rb_ops \<Rightarrow> ext_cache \<Rightarrow> nat \<Rightarrow> nat \<Rightarrow> nat \<Rightarrow> ins_fault + ext_cache" where
  "f2fs_update_extent_tree rb sb ino f blkaddr =
     (let (sb, et) = grab_extent_tree sb ino; (et, en) = lookup_extent_tree et f
      in case (case en of None \<Rightarrow> Inr (sb, et, None, None)
               | Some en \<Rightarrow> let (sb, et) = detach_extent_node rb sb et (en_id en) in split_extent rb sb et (en_ei en) f) of
           Inl e \<Rightarrow> Inl e
         | Inr (sb, et, en1, en2) \<Rightarrow>
             (case (if blkaddr \<noteq> 0 then insert_extent_tree rb sb et (set_extent_info f blkaddr 1) True
                    else Inr (sb, et, None, None)) of
                Inl e \<Rightarrow> Inl e
              | Inr (sb, et, en3, den) \<Rightarrow>
                  let sb = list_del (map_option en_id en) sb;
                      sb = list_add_tail en3 (list_add_tail en2 (list_add_tail en1 sb));
                      sb = list_del den sb
                  in Inr (put_extent_tree ino et sb)))"

text \<open>Returns the extent of the inode and whether the inode page must be written.\<close>

definition f2fs_preserve_extent_tree :: "ext_cache \<Rightarrow> nat \<Rightarrow> ext_inode \<Rightarrow> ext_inode \<times> bool" where
  "f2fs_preserve_extent_tree sb ino fi =
     (if \<not> opt_EXTENT_CACHE sb then (fi, False)
      else case find_extent_tree sb ino of
             None \<Rightarrow> if len (ext fi) \<noteq> 0 then (fi\<lparr>ext := (ext fi)\<lparr>len := 0\<rparr>\<rparr>, True) else (fi, False)
           | Some et \<Rightarrow>
               if et_count et \<noteq> 0
               then let en = (case cached_en et of Some i \<Rightarrow> the (find_en i (et_root et)) | None \<Rightarrow> hd (inorder (et_root et)))
                    in if is_extent_same (ext fi) (en_ei en) then (fi, False) else (fi\<lparr>ext := en_ei en\<rparr>, True)
               else if len (ext fi) \<noteq> 0 then (fi\<lparr>ext := (ext fi)\<lparr>len := 0\<rparr>\<rparr>, True)
               else (fi, False))"

definition shrink_extent_trees :: "rb_ops \<Rightarrow> ext_cache \<Rightarrow> ext_cache" where
  "shrink_extent_trees rb sb =
     fold (\<lambda>(ino, et) sb. let (sb, et, n) = free_extent_tree rb sb et False in put_extent_tree ino et sb) (extent_tree_root sb) sb"

definition drop_empty_trees :: "ext_cache \<Rightarrow> ext_cache" where
  "drop_empty_trees sb =
     (let kept = filter (\<lambda>(ino, et). et_count et \<noteq> 0) (extent_tree_root sb)
      in sb\<lparr>extent_tree_root := kept, total_ext_tree := total_ext_tree sb - (length (extent_tree_root sb) - length kept)\<rparr>)"

definition ext_memory_available :: "nat \<Rightarrow> nat \<Rightarrow> ext_cache \<Rightarrow> bool" where
  "ext_memory_available ram thresh sb =
     ((total_ext_tree sb * 40 + total_ext_node sb * 56) div 4096 < ram * thresh div 100 div 2)"

definition f2fs_shrink_extent_tree :: "rb_ops \<Rightarrow> nat \<Rightarrow> nat \<Rightarrow> ext_cache \<Rightarrow> nat \<Rightarrow> ext_cache" where
  "f2fs_shrink_extent_tree rb ram thresh sb nr_shrink =
     (if \<not> opt_EXTENT_CACHE sb then sb
      else if ext_memory_available ram thresh sb then sb
      else let sb = sb\<lparr>extent_list := drop nr_shrink (extent_list sb)\<rparr>
           in drop_empty_trees (shrink_extent_trees rb sb))"

definition f2fs_destroy_extent_tree :: "rb_ops \<Rightarrow> ext_cache \<Rightarrow> nat \<Rightarrow> ext_cache" where
  "f2fs_destroy_extent_tree rb sb ino =
     (if \<not> opt_EXTENT_CACHE sb then sb
      else case find_extent_tree sb ino of None \<Rightarrow> sb
           | Some et \<Rightarrow>
               let (sb, et, n) = free_extent_tree rb sb et True;
                   sb = sb\<lparr>ext_need_fsck := (et_count et \<noteq> 0 \<or> ext_need_fsck sb)\<rparr>
               in sb\<lparr>extent_tree_root := AList.delete ino (extent_tree_root sb), total_ext_tree := total_ext_tree sb - 1\<rparr>)"

subsection \<open>The cache of an inode\<close>

definition f2fs_init_extent_cache :: "rb_ops \<Rightarrow> ext_cache \<Rightarrow> nat \<Rightarrow> ext_inode \<Rightarrow> extent_info \<Rightarrow> ins_fault + (ext_cache \<times> ext_inode)" where
  "f2fs_init_extent_cache rb sb ino fi i_ext =
     (case (if opt_EXTENT_CACHE sb then f2fs_init_extent_tree rb sb ino i_ext else Inr sb) of
        Inl e \<Rightarrow> Inl e | Inr sb \<Rightarrow> Inr (sb, fi\<lparr>ext := i_ext\<rparr>))"

definition f2fs_lookup_extent_cache :: "ext_cache \<Rightarrow> nat \<Rightarrow> ext_inode \<Rightarrow> nat \<Rightarrow> ext_cache \<times> extent_info option" where
  "f2fs_lookup_extent_cache sb ino fi pgofs =
     (if FI_NO_EXTENT fi then (sb, None)
      else if opt_EXTENT_CACHE sb then f2fs_lookup_extent_tree sb ino pgofs
      else (sb, lookup_extent_info fi pgofs))"

text \<open>The flag in the result says whether \<open>sync_inode_page\<close> is called.\<close>

definition f2fs_update_extent_cache :: "rb_ops \<Rightarrow> ext_cache \<Rightarrow> nat \<Rightarrow> ext_inode \<Rightarrow> nat \<Rightarrow> nat \<Rightarrow> ins_fault + (ext_cache \<times> ext_inode \<times> bool)" where
  "f2fs_update_extent_cache rb sb ino fi f data_blkaddr =
     (let sb = sb\<lparr>ext_need_fsck := (data_blkaddr = NEW_ADDR \<or> ext_need_fsck sb)\<rparr>
      in if FI_NO_EXTENT fi then Inr (sb, fi, False)
         else if opt_EXTENT_CACHE sb
         then case f2fs_update_extent_tree rb sb ino f data_blkaddr of Inl e \<Rightarrow> Inl e | Inr sb \<Rightarrow> Inr (sb, fi, False)
         else let (fi, need) = update_extent_info fi f data_blkaddr in Inr (sb, fi, need))"

end
