(* ===== verification/Extent_Correct.thy ===== *)
theory Extent_Correct
  imports Extent
begin

section \<open>Correctness of the extent cache\<close>

text \<open>
  A set of extents denotes a partial map from file offsets to blocks. The theory shows that the tree
  operations keep the extents sorted, disjoint and merged as far as possible, that insertion adds
  exactly the extent to the map, that a look-up reads the map, and that the update after a block was
  moved keeps the cache true to the file, with one exception that the code has: the part of a split
  extent to the right of the block is inserted one block too low.
\<close>

subsection \<open>Extents and the map they denote\<close>

definition covers :: "extent_info \<Rightarrow> nat \<Rightarrow> bool" where
  "covers e f \<longleftrightarrow> fofs e \<le> f \<and> f < fofs e + len e"

definition ext_addr :: "extent_info \<Rightarrow> nat \<Rightarrow> nat" where
  "ext_addr e f = blk e + (f - fofs e)"

definition ext_ok :: "extent_info \<Rightarrow> bool" where
  "ext_ok e \<longleftrightarrow> len e > 0 \<and> fofs e + len e < 2 ^ 32 \<and> blk e + len e < 2 ^ 32"

definition ahead :: "extent_info \<Rightarrow> extent_info \<Rightarrow> bool" where
  "ahead a b \<longleftrightarrow> fofs a + len a \<le> fofs b"

abbreviation extents :: "extent_node list \<Rightarrow> extent_info list" where
  "extents ens \<equiv> map en_ei ens"

definition merge_ext :: "extent_info \<Rightarrow> extent_info \<Rightarrow> bool" where
  "merge_ext a b \<longleftrightarrow> fofs a + len a = fofs b \<and> blk a + len a = blk b"

lemma is_extent_mergeable_eq: "ext_ok a \<Longrightarrow> is_extent_mergeable a b \<longleftrightarrow> merge_ext a b"
  by (simp add: is_extent_mergeable_def merge_ext_def ext_ok_def)

definition apart :: "extent_info list \<Rightarrow> bool" where
  "apart es \<longleftrightarrow> (\<forall>e \<in> set es. ext_ok e) \<and> sorted_wrt ahead es \<and> (\<forall>a \<in> set es. \<forall>b \<in> set es. \<not> merge_ext a b)"

definition maps :: "extent_info list \<Rightarrow> nat \<Rightarrow> nat \<Rightarrow> bool" where
  "maps es f b \<longleftrightarrow> (\<exists>e \<in> set es. covers e f \<and> b = ext_addr e f)"

definition fits :: "extent_info \<Rightarrow> extent_info list \<Rightarrow> bool" where
  "fits ei es \<longleftrightarrow> (\<forall>e \<in> set es. ahead e ei \<or> ahead ei e)"

lemma ahead_trans: "ahead a b \<Longrightarrow> ahead b c \<Longrightarrow> ahead a c"
  by (simp add: ahead_def)

lemma ahead_irrefl: "ext_ok a \<Longrightarrow> \<not> ahead a a" "ext_ok a \<Longrightarrow> ahead a b \<Longrightarrow> ext_ok b \<Longrightarrow> \<not> ahead b a"
  by (auto simp: ahead_def ext_ok_def)

lemma ahead_not_covers: "ahead a b \<Longrightarrow> covers a f \<Longrightarrow> \<not> covers b f"
  by (auto simp: ahead_def covers_def)

lemma apart_find:
  assumes "apart es" "e \<in> set es" "covers e f"
  shows "find (\<lambda>e. covers e f) es = Some e"
  using assms
proof (induction es)
  case (Cons a es)
  have "apart es" using Cons.prems(1) by (simp add: apart_def)
  moreover have "covers a f \<Longrightarrow> a = e"
    using Cons.prems ahead_not_covers [of a e f] by (auto simp: apart_def)
  ultimately show ?case using Cons by auto
qed simp

lemma maps_unique: "apart es \<Longrightarrow> maps es f b \<Longrightarrow> maps es f c \<Longrightarrow> b = c"
  unfolding maps_def
proof (elim bexE conjE)
  fix d e
  assume "apart es" "d \<in> set es" "covers d f" "b = ext_addr d f" "e \<in> set es" "covers e f" "c = ext_addr e f"
  then show "b = c" using apart_find [of es d f] apart_find [of es e f] by simp
qed

subsection \<open>Inserting an extent between its neighbours\<close>

text \<open>
  \<open>joined ps ei ns m\<close>: \<open>m\<close> is \<open>ei\<close> with the neighbour before it, if \<open>ps\<close> has one, and the neighbour
  after it, if \<open>ns\<close> has one.
\<close>

definition joined :: "extent_info list \<Rightarrow> extent_info \<Rightarrow> extent_info list \<Rightarrow> extent_info \<Rightarrow> bool" where
  "joined ps ei ns m \<longleftrightarrow>
     (ps = [] \<and> fofs m = fofs ei \<and> blk m = blk ei \<or> (\<exists>p. ps = [p] \<and> merge_ext p ei \<and> fofs m = fofs p \<and> blk m = blk p))
   \<and> (ns = [] \<and> fofs m + len m = fofs ei + len ei \<or> (\<exists>n. ns = [n] \<and> merge_ext ei n \<and> fofs m + len m = fofs n + len n))"

lemma joined_apart:
  assumes ap: "apart (xs @ ps @ ns @ ys)" and ei: "ext_ok ei"
    and sides: "\<forall>e \<in> set (xs @ ps). ahead e ei" "\<forall>e \<in> set (ns @ ys). ahead ei e"
    and j: "joined ps ei ns m"
    and far: "ps = [] \<longrightarrow> (\<forall>x \<in> set xs. \<not> merge_ext x ei)" "ns = [] \<longrightarrow> (\<forall>y \<in> set ys. \<not> merge_ext ei y)"
  shows "apart (xs @ m # ys)" "maps (xs @ m # ys) f b \<longleftrightarrow> covers ei f \<and> b = ext_addr ei f \<or> maps (xs @ ps @ ns @ ys) f b"
proof -
  have ok: "\<forall>e \<in> set (xs @ ps @ ns @ ys). ext_ok e" using ap by (simp add: apart_def)
  have mok: "ext_ok m" using j ok ei by (auto simp: joined_def ext_ok_def merge_ext_def)
  have xm: "ahead x m" if "x \<in> set xs" for x
    using that j ap sides by (auto simp: joined_def apart_def sorted_wrt_append ahead_def)
  have my: "ahead m y" if "y \<in> set ys" for y
    using that j ap sides by (auto simp: joined_def apart_def sorted_wrt_append ahead_def)
  have nxm: "\<not> merge_ext x m" if "x \<in> set xs" for x
  proof (cases ps)
    case Nil
    then have "fofs m = fofs ei" "blk m = blk ei" "\<not> merge_ext x ei" using j far(1) that by (auto simp: joined_def)
    then show ?thesis by (simp add: merge_ext_def)
  next
    case (Cons p ps')
    then have p: "ps = [p]" "fofs m = fofs p" "blk m = blk p" using j by (auto simp: joined_def)
    then have "\<not> merge_ext x p" using ap that by (simp add: apart_def)
    then show ?thesis using p by (simp add: merge_ext_def)
  qed
  have e0: "fofs m + len m = fofs ei + len ei \<and> blk m + len m = blk ei + len ei" if "ns = []"
    using j that by (auto simp: joined_def merge_ext_def)
  have e1: "fofs m + len m = fofs n + len n \<and> blk m + len m = blk n + len n" if "ns = [n]" for n
    using j that by (auto simp: joined_def merge_ext_def)
  have nmy: "\<not> merge_ext m y" if "y \<in> set ys" for y
  proof (cases ns)
    case Nil
    then have "\<not> merge_ext ei y" using far(2) that by simp
    then show ?thesis using e0 [OF Nil] by (simp add: merge_ext_def)
  next
    case (Cons n ns')
    then have n: "ns = [n]" using j by (auto simp: joined_def)
    then have "\<not> merge_ext n y" using ap that by (simp add: apart_def)
    then show ?thesis using e1 [OF n] by (simp add: merge_ext_def)
  qed
  have opp_x: "\<not> merge_ext m x" if "x \<in> set xs" for x using xm [OF that] mok ok that by (auto simp: ahead_def merge_ext_def ext_ok_def)
  have opp_y: "\<not> merge_ext y m" if "y \<in> set ys" for y using my [OF that] mok ok that by (auto simp: ahead_def merge_ext_def ext_ok_def)
  have "\<not> merge_ext m m" using mok by (auto simp: merge_ext_def ext_ok_def)
  then show "apart (xs @ m # ys)"
    using ap mok xm my nxm nmy opp_x opp_y by (auto simp: apart_def sorted_wrt_append)
  have "maps [m] f b \<longleftrightarrow> covers ei f \<and> b = ext_addr ei f \<or> maps (ps @ ns) f b"
    using j ok ei unfolding joined_def merge_ext_def
    by (elim conjE disjE exE) (auto simp: maps_def covers_def ext_addr_def ext_ok_def)
  then show "maps (xs @ m # ys) f b \<longleftrightarrow> covers ei f \<and> b = ext_addr ei f \<or> maps (xs @ ps @ ns @ ys) f b"
    by (auto simp: maps_def)
qed

subsection \<open>Descending in the tree\<close>

abbreviation tree_exts :: "extent_node tree \<Rightarrow> extent_info list" where
  "tree_exts t \<equiv> extents (inorder t)"

lemma apart_append: "apart (xs @ ys) \<Longrightarrow> apart xs \<and> apart ys"
  by (simp add: apart_def sorted_wrt_append)

lemma apart_Node:
  assumes "apart (tree_exts (Node l en r))"
  shows "apart (tree_exts l)" "apart (tree_exts r)" "ext_ok (en_ei en)"
    "a \<in> set (tree_exts l) \<Longrightarrow> ext_ok a \<and> ahead a (en_ei en)" "b \<in> set (tree_exts r) \<Longrightarrow> ext_ok b \<and> ahead (en_ei en) b"
  using assms by (auto simp: apart_def sorted_wrt_append)

lemma lookup_rb_find:
  assumes "apart (tree_exts t)"
  shows "case lookup_rb t f of Some en \<Rightarrow> en \<in> set (inorder t) \<and> covers (en_ei en) f
    | None \<Rightarrow> \<forall>e \<in> set (tree_exts t). \<not> covers e f"
  using assms
proof (induction t)
  case (Node l a r)
  note n = apart_Node [OF Node.prems]
  have a: "add32 (fofs (en_ei a)) (len (en_ei a)) = fofs (en_ei a) + len (en_ei a)"
    using n(3) by (simp add: ext_ok_def)
  have "\<not> covers e f" if "e \<in> set (tree_exts l)" "f \<ge> fofs (en_ei a)" for e
    using n(4) [OF that(1)] that(2) by (auto simp: ahead_def covers_def)
  moreover have "\<not> covers e f" if "e \<in> set (tree_exts r)" "f < fofs (en_ei a) + len (en_ei a)" for e
    using n(5) [OF that(1)] that(2) by (auto simp: ahead_def covers_def)
  ultimately show ?case using Node.IH n(1,2) by (auto simp: a covers_def split: option.splits)
qed simp

lemma find_place_spec:
  assumes "apart (tree_exts t)" "ext_ok ei" "fits ei (tree_exts t)"
  shows "case find_place ei t of
      Front_merge i \<Rightarrow> \<exists>en \<in> set (inorder t). en_id en = i \<and> merge_ext ei (en_ei en)
    | Back_merge i \<Rightarrow> \<exists>en \<in> set (inorder t). en_id en = i \<and> merge_ext (en_ei en) ei
    | Link \<Rightarrow> \<forall>e \<in> set (tree_exts t). \<not> merge_ext ei e \<and> \<not> merge_ext e ei
    | Overlap \<Rightarrow> False"
  using assms
proof (induction t)
  case (Node l a r)
  note n = apart_Node [OF Node.prems(1)]
  have f: "fits ei (tree_exts l)" "fits ei (tree_exts r)" "ahead (en_ei a) ei \<or> ahead ei (en_ei a)"
    using Node.prems(3) by (auto simp: fits_def)
  have a: "add32 (fofs (en_ei a)) (len (en_ei a)) = fofs (en_ei a) + len (en_ei a)"
    using n(3) by (simp add: ext_ok_def)
  have m: "is_front_mergeable ei (en_ei a) = merge_ext ei (en_ei a)" "is_back_mergeable ei (en_ei a) = merge_ext (en_ei a) ei"
    using n(3) Node.prems(2) by (simp_all add: is_front_mergeable_def is_back_mergeable_def is_extent_mergeable_eq)
  show ?case
  proof (cases "fofs ei < fofs (en_ei a)")
    case True
    then have ah: "ahead ei (en_ei a)" using f(3) n(3) by (auto simp: ahead_def ext_ok_def)
    have far: "\<not> merge_ext ei e \<and> \<not> merge_ext e ei" if "e \<in> set (tree_exts r)" for e
      using n(5) [OF that] ah n(3) Node.prems(2) by (auto simp: merge_ext_def ahead_def ext_ok_def)
    have "\<not> merge_ext (en_ei a) ei" using ah n(3) Node.prems(2) by (auto simp: merge_ext_def ahead_def ext_ok_def)
    then show ?thesis using True Node.IH(1) [OF n(1) Node.prems(2) f(1)] far
      by (auto simp: m split: ins_place.splits)
  next
    case False
    then have ah: "ahead (en_ei a) ei" using f(3) Node.prems(2) by (auto simp: ahead_def ext_ok_def)
    have far: "\<not> merge_ext ei e \<and> \<not> merge_ext e ei" if "e \<in> set (tree_exts l)" for e
      using n(4) [OF that] ah n(3) Node.prems(2) by (auto simp: merge_ext_def ahead_def ext_ok_def)
    have "\<not> merge_ext ei (en_ei a)" using ah n(3) Node.prems(2) by (auto simp: merge_ext_def ahead_def ext_ok_def)
    moreover have "fofs ei \<ge> fofs (en_ei a) + len (en_ei a)" using ah by (simp add: ahead_def)
    ultimately show ?thesis using False Node.IH(2) [OF n(2) Node.prems(2) f(2)] far
      by (auto simp: m a split: ins_place.splits)
  qed
qed simp

lemma rb_link_filter:
  "apart (tree_exts t) \<Longrightarrow>
     inorder (rb_link en t) = filter (\<lambda>a. \<not> fofs (en_ei en) < fofs (en_ei a)) (inorder t) @ en
       # filter (\<lambda>a. fofs (en_ei en) < fofs (en_ei a)) (inorder t)"
proof (induction t)
  case (Node l a r)
  note n = apart_Node [OF Node.prems]
  have "fofs (en_ei x) < fofs (en_ei a)" if "x \<in> set (inorder l)" for x
    using n(4) [of "en_ei x"] that by (auto simp: ahead_def ext_ok_def)
  then have l: "filter (\<lambda>a. fofs (en_ei en) < fofs (en_ei a)) (inorder l) = []"
    "filter (\<lambda>a. \<not> fofs (en_ei en) < fofs (en_ei a)) (inorder l) = inorder l" if "\<not> fofs (en_ei en) < fofs (en_ei a)"
    using that by (fastforce simp: filter_empty_conv filter_id_conv)+
  have "fofs (en_ei a) < fofs (en_ei x)" if "x \<in> set (inorder r)" for x
    using n(3) n(5) [of "en_ei x"] that by (auto simp: ahead_def ext_ok_def)
  then have r: "filter (\<lambda>a. fofs (en_ei en) < fofs (en_ei a)) (inorder r) = inorder r"
    "filter (\<lambda>a. \<not> fofs (en_ei en) < fofs (en_ei a)) (inorder r) = []" if "fofs (en_ei en) < fofs (en_ei a)"
    using that by (fastforce simp: filter_empty_conv filter_id_conv)+
  show ?case using Node.IH n(1,2) l r by auto
qed simp

lemma rb_link_inorder:
  assumes "apart (tree_exts t)" "ext_ok (en_ei en)" "inorder t = xs @ ys"
    and "\<forall>e \<in> set (extents xs). ahead e (en_ei en)" "\<forall>e \<in> set (extents ys). ahead (en_ei en) e"
  shows "inorder (rb_link en t) = xs @ en # ys"
proof -
  have "\<not> fofs (en_ei en) < fofs (en_ei x)" if "x \<in> set xs" for x
    using assms(4) that by (auto simp: ahead_def)
  moreover have "fofs (en_ei en) < fofs (en_ei y)" if "y \<in> set ys" for y
    using assms(2,5) that by (auto simp: ahead_def ext_ok_def)
  ultimately have "filter (\<lambda>a. fofs (en_ei en) < fofs (en_ei a)) (xs @ ys) = ys"
    "filter (\<lambda>a. \<not> fofs (en_ei en) < fofs (en_ei a)) (xs @ ys) = xs"
    by (auto simp: filter_empty_conv filter_id_conv)
  then show ?thesis using rb_link_filter [OF assms(1), of en] assms(3) by simp
qed

lemma fits_split:
  assumes "apart (extents ens)" "fits ei (extents ens)" "ext_ok ei"
  obtains xs ys where "ens = xs @ ys" "\<forall>e \<in> set (extents xs). ahead e ei" "\<forall>e \<in> set (extents ys). ahead ei e"
proof -
  have "\<exists>xs ys. ens = xs @ ys \<and> (\<forall>e \<in> set (extents xs). ahead e ei) \<and> (\<forall>e \<in> set (extents ys). ahead ei e)"
    using assms
  proof (induction ens)
    case (Cons a ens)
    have a: "apart (extents ens)" "fits ei (extents ens)" "ahead (en_ei a) ei \<or> ahead ei (en_ei a)" "ext_ok (en_ei a)"
      "\<forall>e \<in> set (extents ens). ahead (en_ei a) e"
      using Cons.prems by (auto simp: apart_def fits_def)
    then obtain xs ys where s: "ens = xs @ ys" "\<forall>e \<in> set (extents xs). ahead e ei" "\<forall>e \<in> set (extents ys). ahead ei e"
      using Cons.IH assms(3) by blast
    show ?case
    proof (cases "ahead (en_ei a) ei")
      case True
      with s show ?thesis by (intro exI [of _ "a # xs"] exI [of _ ys]) simp
    next
      case False
      then have "ahead ei e" if "e \<in> set (extents ens)" for e using a(3-5) that by (auto simp: ahead_def ext_ok_def)
      with False a(3) show ?thesis by (intro exI [of _ "[]"] exI [of _ "a # ens"]) simp
    qed
  qed simp
  then show thesis using that by blast
qed

subsection \<open>Nodes and their neighbours\<close>

abbreviation ids :: "extent_node list \<Rightarrow> nat list" where "ids ens \<equiv> map en_id ens"

lemma takeWhile_id:
  assumes "distinct (ids (xs @ en # ys))"
  shows "takeWhile (\<lambda>a. en_id a \<noteq> en_id en) (xs @ en # ys) = xs" "dropWhile (\<lambda>a. en_id a \<noteq> en_id en) (xs @ en # ys) = en # ys"
    "find (\<lambda>a. en_id a = en_id en) (xs @ en # ys) = Some en"
    "map (\<lambda>a. if en_id a = en_id en then g a else a) (xs @ en # ys) = xs @ g en # ys"
  using assms by (induction xs) (auto simp: image_iff intro!: map_idI)

lemma neighbours:
  assumes "inorder t = xs @ en # ys" "distinct (ids (inorder t))"
  shows "find_en (en_id en) t = Some en" "rb_prev (en_id en) t = (if xs = [] then None else Some (last xs))"
    "rb_next (en_id en) t = (if ys = [] then None else Some (hd ys))"
proof -
  note w = takeWhile_id [OF assms(2) [unfolded assms(1)]]
  show "find_en (en_id en) t = Some en" by (simp add: find_en_def assms(1) w)
  show "rb_prev (en_id en) t = (if xs = [] then None else Some (last xs))"
    unfolding rb_prev_def assms(1) w(1) by (cases xs rule: rev_cases) simp_all
  show "rb_next (en_id en) t = (if ys = [] then None else Some (hd ys))"
    unfolding rb_next_def assms(1) w(2) by (cases ys) simp_all
qed

lemma upd_en_inorder:
  assumes "inorder (et_root et) = xs @ en # ys" "distinct (ids (inorder (et_root et)))"
  shows "inorder (et_root (upd_en (en_id en) g et)) = xs @ en\<lparr>en_ei := g (en_ei en)\<rparr> # ys"
    "cached_en (upd_en i g et) = cached_en et" "et_count (upd_en i g et) = et_count et"
  using takeWhile_id(4) [OF assms(2) [unfolded assms(1)]] by (simp_all add: upd_en_def inorder_map assms(1))

lemma erase_inorder:
  assumes "rb_laws rb" "inorder t = xs @ en # ys" "distinct (ids (inorder t))"
  shows "inorder (rb_erase rb (en_id en) t) = xs @ ys"
proof -
  have "filter (\<lambda>a. en_id a \<noteq> en_id en) xs = xs" "filter (\<lambda>a. en_id a \<noteq> en_id en) ys = ys"
    using assms(2,3) by (auto simp: filter_id_conv image_iff)
  then show ?thesis using assms(1,2) by (simp add: rb_laws_def)
qed

text \<open>Well-formed trees: node addresses below \<open>nx\<close> are in use.\<close>

definition et_ok :: "nat \<Rightarrow> extent_tree \<Rightarrow> bool" where
  "et_ok nx et \<longleftrightarrow> apart (tree_exts (et_root et)) \<and> distinct (ids (inorder (et_root et)))
     \<and> (\<forall>i \<in> set (ids (inorder (et_root et))). i < nx)
     \<and> (\<forall>i. cached_en et = Some i \<longrightarrow> i \<in> set (ids (inorder (et_root et))))
     \<and> et_count et = length (inorder (et_root et))"

lemma apart_length:
  assumes "apart es"
  shows "length es < 2 ^ 32"
proof (cases "es = []")
  case False
  have "\<forall>i < length es. i \<le> fofs (es ! i)"
  proof (intro allI impI)
    fix i
    assume "i < length es"
    then show "i \<le> fofs (es ! i)"
    proof (induction i)
      case (Suc i)
      have "ahead (es ! i) (es ! Suc i)" "ext_ok (es ! i)" using assms Suc.prems by (auto simp: apart_def sorted_wrt_iff_nth_less)
      with Suc show ?case by (auto simp: ahead_def ext_ok_def)
    qed simp
  qed
  moreover have "ext_ok (last es)" using assms False by (simp add: apart_def)
  ultimately have "length es - 1 \<le> fofs (last es)" "fofs (last es) + 1 < 2 ^ 32"
    using False by (auto simp: last_conv_nth ext_ok_def)
  then show ?thesis using False by (cases es) auto
qed simp

lemma try_back_merge_spec:
  assumes rb: "rb_laws rb" and t: "inorder (et_root et) = xs @ en # ys" "distinct (ids (inorder (et_root et)))"
    and ok: "\<forall>e \<in> set (extents xs). ext_ok e"
  shows "xs = [] \<or> \<not> merge_ext (en_ei (last xs)) (en_ei en) \<Longrightarrow> try_back_merge rb sb et (en_id en) = (sb, et, None)"
    "xs = xs0 @ [p] \<Longrightarrow> merge_ext (en_ei p) (en_ei en) \<Longrightarrow> \<exists>sb' et'. try_back_merge rb sb et (en_id en) = (sb', et', Some (en_id p))
       \<and> sb' = sb\<lparr>total_ext_node := total_ext_node sb - 1\<rparr>
       \<and> inorder (et_root et') = xs0 @ en\<lparr>en_ei := \<lparr>fofs = fofs (en_ei p), blk = blk (en_ei p), len = add32 (len (en_ei en)) (len (en_ei p))\<rparr>\<rparr> # ys
       \<and> et_count et' = sub32 (et_count et) 1 \<and> cached_en et' = (if cached_en et = Some (en_id p) then None else cached_en et)"
proof -
  note n = neighbours [OF t]
  have m: "is_back_mergeable (en_ei en) (en_ei (last xs)) = merge_ext (en_ei (last xs)) (en_ei en)" if "xs \<noteq> []"
    using ok that by (simp add: is_back_mergeable_def is_extent_mergeable_eq)
  show "try_back_merge rb sb et (en_id en) = (sb, et, None)" if "xs = [] \<or> \<not> merge_ext (en_ei (last xs)) (en_ei en)"
    using that m by (auto simp: try_back_merge_def n)
  show "\<exists>sb' et'. try_back_merge rb sb et (en_id en) = (sb', et', Some (en_id p))
       \<and> sb' = sb\<lparr>total_ext_node := total_ext_node sb - 1\<rparr>
       \<and> inorder (et_root et') = xs0 @ en\<lparr>en_ei := \<lparr>fofs = fofs (en_ei p), blk = blk (en_ei p), len = add32 (len (en_ei en)) (len (en_ei p))\<rparr>\<rparr> # ys
       \<and> et_count et' = sub32 (et_count et) 1 \<and> cached_en et' = (if cached_en et = Some (en_id p) then None else cached_en et)"
    if x: "xs = xs0 @ [p]" and mg: "merge_ext (en_ei p) (en_ei en)"
  proof -
    let ?g = "\<lambda>e. \<lparr>fofs = fofs (en_ei p), blk = blk (en_ei p), len = add32 (len e) (len (en_ei p))\<rparr>"
    note u = upd_en_inorder [OF t, where g = ?g]
    have "inorder (et_root (upd_en (en_id en) ?g et)) = xs0 @ p # (en\<lparr>en_ei := ?g (en_ei en)\<rparr> # ys)"
      "distinct (ids (inorder (et_root (upd_en (en_id en) ?g et))))"
      using u(1) t x by auto
    from erase_inorder [OF rb this]
    have "inorder (rb_erase rb (en_id p) (et_root (upd_en (en_id en) ?g et))) = xs0 @ en\<lparr>en_ei := ?g (en_ei en)\<rparr> # ys" .
    then show ?thesis using m x mg by (simp add: try_back_merge_def n detach_extent_node_def u(2,3) Let_def)
  qed
qed

lemma try_front_merge_spec:
  assumes rb: "rb_laws rb" and t: "inorder (et_root et) = xs @ en # ys" "distinct (ids (inorder (et_root et)))"
    and ok: "ext_ok (en_ei en)"
  shows "ys = [] \<or> \<not> merge_ext (en_ei en) (en_ei (hd ys)) \<Longrightarrow> try_front_merge rb sb et (en_id en) = (sb, et, None)"
    "ys = n # ys0 \<Longrightarrow> merge_ext (en_ei en) (en_ei n) \<Longrightarrow> \<exists>sb' et'. try_front_merge rb sb et (en_id en) = (sb', et', Some (en_id n))
       \<and> sb' = sb\<lparr>total_ext_node := total_ext_node sb - 1\<rparr>
       \<and> inorder (et_root et') = xs @ en\<lparr>en_ei := (en_ei en)\<lparr>len := add32 (len (en_ei en)) (len (en_ei n))\<rparr>\<rparr> # ys0
       \<and> et_count et' = sub32 (et_count et) 1 \<and> cached_en et' = (if cached_en et = Some (en_id n) then None else cached_en et)"
proof -
  note n = neighbours [OF t]
  have m: "is_front_mergeable (en_ei en) e = merge_ext (en_ei en) e" for e
    using ok by (simp add: is_front_mergeable_def is_extent_mergeable_eq)
  show "try_front_merge rb sb et (en_id en) = (sb, et, None)" if "ys = [] \<or> \<not> merge_ext (en_ei en) (en_ei (hd ys))"
    using that by (auto simp: try_front_merge_def n m)
  show "\<exists>sb' et'. try_front_merge rb sb et (en_id en) = (sb', et', Some (en_id n))
       \<and> sb' = sb\<lparr>total_ext_node := total_ext_node sb - 1\<rparr>
       \<and> inorder (et_root et') = xs @ en\<lparr>en_ei := (en_ei en)\<lparr>len := add32 (len (en_ei en)) (len (en_ei n))\<rparr>\<rparr> # ys0
       \<and> et_count et' = sub32 (et_count et) 1 \<and> cached_en et' = (if cached_en et = Some (en_id n) then None else cached_en et)"
    if y: "ys = n # ys0" and mg: "merge_ext (en_ei en) (en_ei n)"
  proof -
    let ?g = "\<lambda>e. e\<lparr>len := add32 (len e) (len (en_ei n))\<rparr>"
    note u = upd_en_inorder [OF t, where g = ?g]
    have "inorder (et_root (upd_en (en_id en) ?g et)) = (xs @ [en\<lparr>en_ei := ?g (en_ei en)\<rparr>]) @ n # ys0"
      "distinct (ids (inorder (et_root (upd_en (en_id en) ?g et))))"
      using u(1) t y by auto
    from erase_inorder [OF rb this]
    have "inorder (rb_erase rb (en_id n) (et_root (upd_en (en_id en) ?g et))) = xs @ en\<lparr>en_ei := ?g (en_ei en)\<rparr> # ys0" by simp
    then show ?thesis using y mg by (simp add: try_front_merge_def n m detach_extent_node_def u(2,3) Let_def)
  qed
qed

lemma distinct_replace:
  fixes m :: nat
  assumes "distinct (a @ p @ n @ y)" "\<forall>i \<in> set (a @ p @ n @ y). i < nx" "m \<in> set (p @ n) \<or> m = nx \<and> nx < nx'" "nx \<le> nx'"
  shows "distinct (a @ m # y)" "\<forall>i \<in> set (a @ m # y). i < nx'"
  using assms by (auto dest: less_le_trans)

lemma et_ok_joined:
  assumes ok: "et_ok nx et" and t: "inorder (et_root et) = X @ P @ N @ Y" and ei: "ext_ok ei"
    and sides: "\<forall>e \<in> set (extents (X @ P)). ahead e ei" "\<forall>e \<in> set (extents (N @ Y)). ahead ei e"
    and j: "joined (extents P) ei (extents N) (en_ei m)"
    and far: "P = [] \<longrightarrow> (\<forall>x \<in> set (extents X). \<not> merge_ext x ei)" "N = [] \<longrightarrow> (\<forall>y \<in> set (extents Y). \<not> merge_ext ei y)"
    and t': "inorder (et_root et') = X @ m # Y"
    and id: "en_id m \<in> set (ids (P @ N)) \<or> en_id m = nx \<and> nx < nx'" and nx: "nx \<le> nx'"
    and c: "\<And>i. cached_en et' = Some i \<Longrightarrow> i \<in> set (ids (X @ m # Y))" "et_count et' = Suc (length (X @ Y))"
  shows "et_ok nx' et' \<and> (\<forall>f b. maps (tree_exts (et_root et')) f b \<longleftrightarrow> covers ei f \<and> b = ext_addr ei f \<or> maps (tree_exts (et_root et)) f b)"
proof -
  have ap: "apart (extents X @ extents P @ extents N @ extents Y)" using ok t by (simp add: et_ok_def)
  have s1: "\<forall>e \<in> set (extents X @ extents P). ahead e ei" "\<forall>e \<in> set (extents N @ extents Y). ahead ei e" using sides by simp_all
  have f1: "extents P = [] \<longrightarrow> (\<forall>x \<in> set (extents X). \<not> merge_ext x ei)" "extents N = [] \<longrightarrow> (\<forall>y \<in> set (extents Y). \<not> merge_ext ei y)"
    using far by (simp_all only: map_is_Nil_conv)
  note ja = joined_apart [OF ap ei s1 j f1]
  have d: "distinct (ids X @ ids P @ ids N @ ids Y)" "\<forall>i \<in> set (ids X @ ids P @ ids N @ ids Y). i < nx"
    "en_id m \<in> set (ids P @ ids N) \<or> en_id m = nx \<and> nx < nx'"
    using ok t id by (simp_all add: et_ok_def)
  have dd: "distinct (ids (X @ m # Y))" "\<forall>i \<in> set (ids (X @ m # Y)). i < nx'"
    using distinct_replace [OF d nx] by simp_all
  have "maps (tree_exts (et_root et')) f b \<longleftrightarrow> covers ei f \<and> b = ext_addr ei f \<or> maps (tree_exts (et_root et)) f b" for f b
    unfolding t t' using ja(2) [of f b] by simp
  moreover have "et_ok nx' et'" unfolding et_ok_def t' using ja(1) dd c by simp
  ultimately show ?thesis by blast
qed

lemma neighbour_front:
  assumes "apart (extents (xs @ ys))" "\<forall>e \<in> set (extents xs). ahead e ei" "\<forall>e \<in> set (extents ys). ahead ei e" "ext_ok ei"
    and "en \<in> set (xs @ ys)" "merge_ext ei (en_ei en)"
  obtains ys0 where "ys = en # ys0"
proof -
  have "en \<notin> set xs" using assms(2,4,6) by (auto simp: ahead_def merge_ext_def ext_ok_def)
  then obtain as bs where y: "ys = as @ en # bs" using assms(5) by (auto dest: split_list)
  have "as = []"
  proof (rule ccontr)
    assume "as \<noteq> []"
    then have "ahead ei (en_ei (hd as))" "ahead (en_ei (hd as)) (en_ei en)" "ext_ok (en_ei (hd as))"
      using assms(1,3) y by (auto simp: apart_def sorted_wrt_append)
    with assms(6) show False by (auto simp: ahead_def merge_ext_def ext_ok_def)
  qed
  with y that show thesis by simp
qed

lemma neighbour_back:
  assumes "apart (extents (xs @ ys))" "\<forall>e \<in> set (extents xs). ahead e ei" "\<forall>e \<in> set (extents ys). ahead ei e" "ext_ok ei"
    and "en \<in> set (xs @ ys)" "merge_ext (en_ei en) ei"
  obtains xs0 where "xs = xs0 @ [en]"
proof -
  have "ext_ok (en_ei en)" using assms(1,5) by (auto simp: apart_def)
  then have "en \<notin> set ys" using assms(3,4,6) by (auto simp: ahead_def merge_ext_def ext_ok_def)
  then obtain as bs where x: "xs = as @ en # bs" using assms(5) by (auto dest: split_list)
  have "bs = []"
  proof (rule ccontr)
    assume "bs \<noteq> []"
    then have "ahead (en_ei (hd bs)) ei" "ahead (en_ei en) (en_ei (hd bs))" "ext_ok (en_ei (hd bs))"
      using assms(1,2) x by (auto simp: apart_def sorted_wrt_append)
    with assms(6) show False by (auto simp: ahead_def merge_ext_def ext_ok_def)
  qed
  with x that show thesis by simp
qed

lemma only_last_merges:
  assumes "apart (extents (xs @ ys))" "\<forall>e \<in> set (extents xs). ahead e ei" "\<forall>e \<in> set (extents ys). ahead ei e" "ext_ok ei"
    and "xs = [] \<or> \<not> merge_ext (en_ei (last xs)) ei"
  shows "\<forall>x \<in> set (extents xs). \<not> merge_ext x ei"
proof (intro ballI notI)
  fix x
  assume "x \<in> set (extents xs)" "merge_ext x ei"
  then obtain a where a: "a \<in> set (xs @ ys)" "merge_ext (en_ei a) ei" by auto
  then obtain xs0 where "xs = xs0 @ [a]" using neighbour_back [OF assms(1-4) a] by blast
  with assms(5) a(2) show False by simp
qed

lemma only_first_merges:
  assumes "apart (extents (xs @ ys))" "\<forall>e \<in> set (extents xs). ahead e ei" "\<forall>e \<in> set (extents ys). ahead ei e" "ext_ok ei"
    and "ys = [] \<or> \<not> merge_ext ei (en_ei (hd ys))"
  shows "\<forall>y \<in> set (extents ys). \<not> merge_ext ei y"
proof (intro ballI notI)
  fix y
  assume "y \<in> set (extents ys)" "merge_ext ei y"
  then obtain a where a: "a \<in> set (xs @ ys)" "merge_ext ei (en_ei a)" by auto
  then obtain ys0 where "ys = a # ys0" using neighbour_front [OF assms(1-4) a] by blast
  with assms(5) a(2) show False by simp
qed

text \<open>What insertion does to tree and cache.\<close>

definition same_lists :: "ext_cache \<Rightarrow> ext_cache \<Rightarrow> bool" where
  "same_lists sb sb' \<longleftrightarrow> next_en sb \<le> next_en sb'
     \<and> sb'\<lparr>total_ext_node := 0, next_en := 0\<rparr> = sb\<lparr>total_ext_node := 0, next_en := 0\<rparr>"

lemma same_lists_refl [simp]: "same_lists sb sb"
  by (simp add: same_lists_def)

lemma same_lists_trans: "same_lists a b \<Longrightarrow> same_lists b c \<Longrightarrow> same_lists a c"
  by (simp add: same_lists_def)

lemma same_listsD:
  assumes "same_lists sb sb'"
  shows "extent_tree_root sb' = extent_tree_root sb" "extent_list sb' = extent_list sb" "next_en sb \<le> next_en sb'"
    "opt_EXTENT_CACHE sb' = opt_EXTENT_CACHE sb" "ext_need_fsck sb' = ext_need_fsck sb" "ext_mem_ok sb' = ext_mem_ok sb"
  using assms unfolding same_lists_def by (cases sb, cases sb', simp)+

definition added :: "ext_cache \<Rightarrow> extent_tree \<Rightarrow> extent_info \<Rightarrow> ext_cache \<Rightarrow> extent_tree \<Rightarrow> bool \<Rightarrow> bool" where
  "added sb et ei sb' et' done \<longleftrightarrow> same_lists sb sb' \<and> et_ok (next_en sb') et'
     \<and> (\<forall>f b. maps (tree_exts (et_root et')) f b \<longleftrightarrow> (done \<and> covers ei f \<and> b = ext_addr ei f) \<or> maps (tree_exts (et_root et)) f b)"

lemma attach_added:
  assumes rb: "rb_laws rb" and ok: "et_ok (next_en sb) et" and ei: "ext_ok ei" and fit: "fits ei (tree_exts (et_root et))"
    and far: "\<forall>e \<in> set (tree_exts (et_root et)). \<not> merge_ext ei e \<and> \<not> merge_ext e ei"
    and r: "attach_extent_node rb sb et ei = (sb', et', en)"
  shows "added sb et ei sb' et' (en \<noteq> None)"
proof -
  have ap: "apart (tree_exts (et_root et))" using ok by (simp add: et_ok_def)
  obtain xs ys where s: "inorder (et_root et) = xs @ ys" "\<forall>e \<in> set (extents xs). ahead e ei" "\<forall>e \<in> set (extents ys). ahead ei e"
    using fits_split [OF ap fit ei] by blast
  show ?thesis
  proof (cases "ext_mem_ok sb (next_en sb)")
    case False
    then have "sb' = sb\<lparr>next_en := next_en sb + 1\<rparr>" "et' = et" "en = None" using r by (auto simp: attach_extent_node_def Let_def)
    then show ?thesis using ok by (auto simp: added_def same_lists_def et_ok_def less_SucI)
  next
    case True
    let ?n = "\<lparr>en_id = next_en sb, en_ei = ei\<rparr>"
    have r': "sb' = sb\<lparr>next_en := next_en sb + 1, total_ext_node := total_ext_node sb + 1\<rparr>" "en = Some (next_en sb)"
      "et' = et\<lparr>et_root := rb_insert_color rb (rb_link ?n (et_root et)), et_count := add32 (et_count et) 1\<rparr>"
      using r True by (auto simp: attach_extent_node_def Let_def)
    have t': "inorder (et_root et') = xs @ ?n # ys"
      using rb_link_inorder [OF ap, of ?n xs ys] s ei rb by (simp add: r' rb_laws_def)
    have "joined [] ei [] ei" by (simp add: joined_def)
    have "length (xs @ ys) < 2 ^ 32 - 1"
    proof -
      have "apart (extents xs @ ei # extents ys)"
        using joined_apart(1) [of "extents xs" "[]" "[]" "extents ys" ei ei] ap s far ei by (auto simp: joined_def)
      from apart_length [OF this] show ?thesis by simp
    qed
    then have "et_count et' = Suc (length (xs @ ys))" using ok s(1) by (simp add: r' et_ok_def)
    moreover have "i \<in> set (ids (xs @ ?n # ys))" if "cached_en et' = Some i" for i
      using that ok s(1) by (auto simp: r' et_ok_def)
    ultimately have "et_ok (next_en sb') et' \<and> (\<forall>f b. maps (tree_exts (et_root et')) f b
        \<longleftrightarrow> covers ei f \<and> b = ext_addr ei f \<or> maps (tree_exts (et_root et)) f b)"
      using et_ok_joined [OF ok, of xs "[]" "[]" ys ei ?n et' "next_en sb'"] s t' far ei by (auto simp: joined_def r')
    then show ?thesis by (auto simp: added_def r' same_lists_def)
  qed
qed

lemma front_merge_added:
  assumes rb: "rb_laws rb" and ok: "et_ok (next_en sb) et" and ei: "ext_ok ei" and fit: "fits ei (tree_exts (et_root et))"
    and en: "en \<in> set (inorder (et_root et))" "merge_ext ei (en_ei en)"
    and r: "try_back_merge rb sb (upd_en (en_id en) (\<lambda>e. \<lparr>fofs = fofs ei, blk = blk ei, len = add32 (len e) (len ei)\<rparr>) et) (en_id en) = (sb', et', den)"
  shows "added sb et ei sb' et' True"
proof -
  have ap: "apart (tree_exts (et_root et))" using ok by (simp add: et_ok_def)
  obtain xs ys where s: "inorder (et_root et) = xs @ ys" "\<forall>e \<in> set (extents xs). ahead e ei" "\<forall>e \<in> set (extents ys). ahead ei e"
    using fits_split [OF ap fit ei] by blast
  obtain ys0 where y: "ys = en # ys0" using neighbour_front [OF ap [unfolded s(1)] s(2,3) ei] en s(1) by metis
  let ?g = "\<lambda>e. \<lparr>fofs = fofs ei, blk = blk ei, len = add32 (len e) (len ei)\<rparr>" let ?et = "upd_en (en_id en) ?g et"
  let ?en = "en\<lparr>en_ei := ?g (en_ei en)\<rparr>"
  have t: "inorder (et_root et) = xs @ en # ys0" "distinct (ids (inorder (et_root et)))" using s(1) y ok by (simp_all add: et_ok_def)
  note u = upd_en_inorder [OF t, where g = ?g]
  have u2: "distinct (ids (inorder (et_root ?et)))" using u(1) t by simp
  have oks: "\<forall>e \<in> set (extents (xs @ ys)). ext_ok e" using ap s(1) by (simp add: apart_def)
  have ok1: "\<forall>e \<in> set (extents xs). ext_ok e" "ext_ok (en_ei en)" using oks y by simp_all
  have l: "add32 (len (en_ei en)) (len ei) = len (en_ei en) + len ei" using en(2) ok1(2) ei by (simp add: merge_ext_def ext_ok_def)
  have cnt: "et_count et = length xs + 1 + length ys0" using ok t(1) by (simp add: et_ok_def)
  have cach: "i \<in> set (ids (xs @ en # ys0))" if "cached_en et = Some i" for i using that ok t(1) by (simp add: et_ok_def)
  have farY: "[en] = [] \<longrightarrow> (\<forall>y \<in> set (extents ys0). \<not> merge_ext ei y)" by simp
  have sy: "\<forall>e \<in> set (extents ([en] @ ys0)). ahead ei e" using s(3) y by simp
  note b = try_back_merge_spec [OF rb u(1) u2 ok1(1), simplified]
  show ?thesis
  proof (cases "xs = [] \<or> \<not> merge_ext (en_ei (last xs)) ei")
    case True
    then have "xs = [] \<or> \<not> merge_ext (en_ei (last xs)) (?g (en_ei en))" by (simp add: merge_ext_def)
    then have r': "sb' = sb" "et' = ?et" using b(1) r by auto
    have far: "\<forall>x \<in> set (extents xs). \<not> merge_ext x ei"
      using only_last_merges [OF ap [unfolded s(1)] s(2,3) ei True] .
    have "joined [] ei (extents [en]) (en_ei ?en)" using en(2) by (simp add: joined_def l merge_ext_def)
    moreover have "\<forall>e \<in> set (extents (xs @ [])). ahead e ei" using s(2) by simp
    ultimately have "et_ok (next_en sb) ?et \<and> (\<forall>f b. maps (tree_exts (et_root ?et)) f b \<longleftrightarrow> covers ei f \<and> b = ext_addr ei f \<or> maps (tree_exts (et_root et)) f b)"
      using et_ok_joined [OF ok, of xs "[]" "[en]" ys0 ei ?en ?et "next_en sb"] t(1) ei sy far farY u cnt cach by auto
    then show ?thesis by (simp add: added_def r')
  next
    case False
    then obtain xs0 p where x: "xs = xs0 @ [p]" "merge_ext (en_ei p) ei" by (cases xs rule: rev_cases) auto
    then have "merge_ext (en_ei p) (?g (en_ei en))" by (simp add: merge_ext_def)
    with b(2) [of xs0 p sb] x(1) r obtain
      r': "sb' = sb\<lparr>total_ext_node := total_ext_node sb - 1\<rparr>"
      "inorder (et_root et') = xs0 @ en\<lparr>en_ei := \<lparr>fofs = fofs (en_ei p), blk = blk (en_ei p), len = add32 (add32 (len (en_ei en)) (len ei)) (len (en_ei p))\<rparr>\<rparr> # ys0"
      "et_count et' = sub32 (et_count et) 1" "cached_en et' = (if cached_en et = Some (en_id p) then None else cached_en et)"
      by (auto simp: u)
    let ?m = "en\<lparr>en_ei := \<lparr>fofs = fofs (en_ei p), blk = blk (en_ei p), len = add32 (add32 (len (en_ei en)) (len ei)) (len (en_ei p))\<rparr>\<rparr>"
    have "ext_ok (en_ei p)" using ok1 x by simp
    then have "len (en_ei ?m) = len (en_ei p) + len ei + len (en_ei en)"
      using en(2) x(2) ok1(2) by (simp add: l merge_ext_def ext_ok_def)
    then have "joined (extents [p]) ei (extents [en]) (en_ei ?m)" using en(2) x(2) by (simp add: joined_def merge_ext_def)
    moreover have "\<forall>e \<in> set (extents (xs0 @ [p])). ahead e ei" using s(2) x(1) by simp
    moreover have "et_count et' = Suc (length (xs0 @ ys0))" using r'(3) cnt x(1) apart_length [OF ap] t(1) by simp
    moreover have "i \<in> set (ids (xs0 @ ?m # ys0))" if "cached_en et' = Some i" for i
      using that r'(4) cach [of i] x(1) by (auto split: if_splits)
    ultimately have "et_ok (next_en sb) et' \<and> (\<forall>f b. maps (tree_exts (et_root et')) f b \<longleftrightarrow> covers ei f \<and> b = ext_addr ei f \<or> maps (tree_exts (et_root et)) f b)"
      using et_ok_joined [OF ok, of xs0 "[p]" "[en]" ys0 ei ?m et' "next_en sb"] t(1) x(1) ei sy farY r'(2) by auto
    then show ?thesis by (simp add: added_def r' same_lists_def)
  qed
qed

lemma back_merge_added:
  assumes rb: "rb_laws rb" and ok: "et_ok (next_en sb) et" and ei: "ext_ok ei" and fit: "fits ei (tree_exts (et_root et))"
    and en: "en \<in> set (inorder (et_root et))" "merge_ext (en_ei en) ei"
    and r: "try_front_merge rb sb (upd_en (en_id en) (\<lambda>e. e\<lparr>len := add32 (len e) (len ei)\<rparr>) et) (en_id en) = (sb', et', den)"
  shows "added sb et ei sb' et' True"
proof -
  have ap: "apart (tree_exts (et_root et))" using ok by (simp add: et_ok_def)
  obtain xs ys where s: "inorder (et_root et) = xs @ ys" "\<forall>e \<in> set (extents xs). ahead e ei" "\<forall>e \<in> set (extents ys). ahead ei e"
    using fits_split [OF ap fit ei] by blast
  obtain xs0 where x: "xs = xs0 @ [en]" using neighbour_back [OF ap [unfolded s(1)] s(2,3) ei] en s(1) by metis
  let ?g = "\<lambda>e. e\<lparr>len := add32 (len e) (len ei)\<rparr>" let ?et = "upd_en (en_id en) ?g et"
  let ?en = "en\<lparr>en_ei := ?g (en_ei en)\<rparr>"
  have t: "inorder (et_root et) = xs0 @ en # ys" "distinct (ids (inorder (et_root et)))" using s(1) x ok by (simp_all add: et_ok_def)
  note u = upd_en_inorder [OF t, where g = ?g]
  have u2: "distinct (ids (inorder (et_root ?et)))" using u(1) t by simp
  have oks: "\<forall>e \<in> set (extents (xs @ ys)). ext_ok e" using ap s(1) by (simp add: apart_def)
  have ok1: "\<forall>e \<in> set (extents ys). ext_ok e" "ext_ok (en_ei en)" using oks x by simp_all
  have l: "add32 (len (en_ei en)) (len ei) = len (en_ei en) + len ei" using en(2) ok1(2) ei by (simp add: merge_ext_def ext_ok_def)
  have ok2: "ext_ok (en_ei ?en)" using en(2) ok1(2) ei by (simp add: l merge_ext_def ext_ok_def)
  have cnt: "et_count et = length xs0 + 1 + length ys" using ok t(1) by (simp add: et_ok_def)
  have cach: "i \<in> set (ids (xs0 @ en # ys))" if "cached_en et = Some i" for i using that ok t(1) by (simp add: et_ok_def)
  have sx: "\<forall>e \<in> set (extents (xs0 @ [en])). ahead e ei" using s(2) x by simp
  have mg: "merge_ext (?g (en_ei en)) e = merge_ext ei e" for e using en(2) by (simp add: merge_ext_def l add.assoc flip: add.assoc [of "fofs _"] add.assoc [of "blk _"])
  note b = try_front_merge_spec [OF rb u(1) u2 ok2, simplified]
  show ?thesis
  proof (cases "ys = [] \<or> \<not> merge_ext ei (en_ei (hd ys))")
    case True
    then have "ys = [] \<or> \<not> merge_ext (?g (en_ei en)) (en_ei (hd ys))" by (simp add: mg)
    then have r': "sb' = sb" "et' = ?et" using b(1) r by auto
    have far: "\<forall>y \<in> set (extents ys). \<not> merge_ext ei y"
      using only_first_merges [OF ap [unfolded s(1)] s(2,3) ei True] .
    have "joined (extents [en]) ei [] (en_ei ?en)" using en(2) by (simp add: joined_def l merge_ext_def)
    moreover have "\<forall>e \<in> set (extents ([] @ ys)). ahead ei e" using s(3) by simp
    ultimately have "et_ok (next_en sb) ?et \<and> (\<forall>f b. maps (tree_exts (et_root ?et)) f b \<longleftrightarrow> covers ei f \<and> b = ext_addr ei f \<or> maps (tree_exts (et_root et)) f b)"
      using et_ok_joined [OF ok, of xs0 "[en]" "[]" ys ei ?en ?et "next_en sb"] t(1) ei sx far u cnt cach by auto
    then show ?thesis by (simp add: added_def r')
  next
    case False
    then obtain n ys0 where y: "ys = n # ys0" "merge_ext ei (en_ei n)" by (cases ys) auto
    with b(2) [of n ys0 sb] r obtain
      r': "sb' = sb\<lparr>total_ext_node := total_ext_node sb - 1\<rparr>"
      "inorder (et_root et') = xs0 @ en\<lparr>en_ei := (en_ei en)\<lparr>len := add32 (add32 (len (en_ei en)) (len ei)) (len (en_ei n))\<rparr>\<rparr> # ys0"
      "et_count et' = sub32 (et_count et) 1" "cached_en et' = (if cached_en et = Some (en_id n) then None else cached_en et)"
      by (auto simp: u mg)
    let ?m = "en\<lparr>en_ei := (en_ei en)\<lparr>len := add32 (add32 (len (en_ei en)) (len ei)) (len (en_ei n))\<rparr>\<rparr>"
    have "ext_ok (en_ei n)" using ok1 y by simp
    then have "len (en_ei ?m) = len (en_ei en) + len ei + len (en_ei n)"
      using en(2) y(2) ok1(2) by (simp add: l merge_ext_def ext_ok_def)
    then have "joined (extents [en]) ei (extents [n]) (en_ei ?m)" using en(2) y(2) by (simp add: joined_def merge_ext_def)
    moreover have "\<forall>e \<in> set (extents ([n] @ ys0)). ahead ei e" using s(3) y(1) by simp
    moreover have "et_count et' = Suc (length (xs0 @ ys0))" using r'(3) cnt y(1) apart_length [OF ap] t(1) by simp
    moreover have "i \<in> set (ids (xs0 @ ?m # ys0))" if "cached_en et' = Some i" for i
      using that r'(4) cach [of i] y(1) by (auto split: if_splits)
    ultimately have "et_ok (next_en sb) et' \<and> (\<forall>f b. maps (tree_exts (et_root et')) f b \<longleftrightarrow> covers ei f \<and> b = ext_addr ei f \<or> maps (tree_exts (et_root et)) f b)"
      using et_ok_joined [OF ok, of xs0 "[en]" "[n]" ys0 ei ?m et' "next_en sb"] t(1) y(1) ei sx r'(2) by auto
    then show ?thesis by (simp add: added_def r' same_lists_def)
  qed
qed

lemma insert_added:
  assumes rb: "rb_laws rb" and ok: "et_ok (next_en sb) et" and ei: "ext_ok ei" and fit: "fits ei (tree_exts (et_root et))"
    and den: "has_den \<or> (\<forall>e \<in> set (tree_exts (et_root et)). \<not> merge_ext ei e \<and> \<not> merge_ext e ei)"
  shows "\<exists>sb' et' en den. insert_extent_tree rb sb et ei has_den = Inr (sb', et', en, den) \<and> added sb et ei sb' et' (en \<noteq> None)"
proof -
  have ap: "apart (tree_exts (et_root et))" using ok by (simp add: et_ok_def)
  note p = find_place_spec [OF ap ei fit]
  show ?thesis
  proof (cases "find_place ei (et_root et)")
    case (Front_merge i)
    then obtain en where en: "en \<in> set (inorder (et_root et))" "en_id en = i" "merge_ext ei (en_ei en)" using p by auto
    with den have "has_den" by auto
    with Front_merge show ?thesis using front_merge_added [OF rb ok ei fit en(1,3)] en(2)
      by (auto simp: insert_extent_tree_def split: prod.splits)
  next
    case (Back_merge i)
    then obtain en where en: "en \<in> set (inorder (et_root et))" "en_id en = i" "merge_ext (en_ei en) ei" using p by auto
    with den have "has_den" by auto
    with Back_merge show ?thesis using back_merge_added [OF rb ok ei fit en(1,3)] en(2)
      by (auto simp: insert_extent_tree_def split: prod.splits)
  next
    case Link
    then have "\<forall>e \<in> set (tree_exts (et_root et)). \<not> merge_ext ei e \<and> \<not> merge_ext e ei" using p by simp
    with Link show ?thesis using attach_added [OF rb ok ei fit]
      by (auto simp: insert_extent_tree_def split: prod.splits)
  next
    case Overlap
    then show ?thesis using p by simp
  qed
qed

subsection \<open>Looking up and removing an extent\<close>

lemma et_ok_mono: "et_ok nx et \<Longrightarrow> nx \<le> nx' \<Longrightarrow> et_ok nx' et"
  by (auto simp: et_ok_def dest: less_le_trans)

lemma et_ok_cached: "et_ok nx et \<Longrightarrow> en \<in> set (inorder (et_root et)) \<Longrightarrow> et_ok nx (et\<lparr>cached_en := Some (en_id en)\<rparr>)"
  by (auto simp: et_ok_def)

lemma add32_end: "ext_ok e \<Longrightarrow> add32 (fofs e) (len e) = fofs e + len e"
  by (simp add: ext_ok_def)

lemma lookup_extent_tree_spec:
  assumes "et_ok nx et" "lookup_extent_tree et f = (et', r)"
  shows "et_root et' = et_root et" "et_ok nx et'"
    "case r of Some en \<Rightarrow> en \<in> set (inorder (et_root et)) \<and> covers (en_ei en) f
       | None \<Rightarrow> \<forall>e \<in> set (tree_exts (et_root et)). \<not> covers e f"
proof -
  have ap: "apart (tree_exts (et_root et))" using assms(1) by (simp add: et_ok_def)
  have hit: "en \<in> set (inorder (et_root et)) \<and> covers (en_ei en) f"
    if "find_en i (et_root et) = Some en" "fofs (en_ei en) \<le> f" "f < add32 (fofs (en_ei en)) (len (en_ei en))" for i en
  proof -
    have "en \<in> set (inorder (et_root et))" using that(1) by (auto simp: find_en_def find_Some_iff simp del: set_inorder)
    moreover from this have "ext_ok (en_ei en)" using ap by (simp add: apart_def)
    ultimately show ?thesis using that(2,3) by (simp add: covers_def add32_end)
  qed
  note l = lookup_rb_find [OF ap, of f]
  show "et_root et' = et_root et" "et_ok nx et'"
    "case r of Some en \<Rightarrow> en \<in> set (inorder (et_root et)) \<and> covers (en_ei en) f
       | None \<Rightarrow> \<forall>e \<in> set (tree_exts (et_root et)). \<not> covers e f"
    using assms l hit by (auto simp: lookup_extent_tree_def et_ok_cached split: option.splits if_splits)
qed

lemma detach_spec:
  assumes rb: "rb_laws rb" and ok: "et_ok nx et" and en: "en \<in> set (inorder (et_root et))"
    and r: "detach_extent_node rb sb et (en_id en) = (sb', et')"
  obtains xs ys where "inorder (et_root et) = xs @ en # ys" "inorder (et_root et') = xs @ ys" "et_ok nx et'" "same_lists sb sb'" "next_en sb' = next_en sb"
proof -
  obtain xs ys where t: "inorder (et_root et) = xs @ en # ys" using split_list [OF en] by blast
  have d: "distinct (ids (inorder (et_root et)))" using ok by (simp add: et_ok_def)
  have t': "inorder (et_root et') = xs @ ys" using r erase_inorder [OF rb t d] by (auto simp: detach_extent_node_def)
  have "apart (extents xs @ extents ys)" using ok t by (auto simp: et_ok_def apart_def sorted_wrt_append)
  moreover have "et_count et' = length (xs @ ys)"
    using r ok t apart_length [of "tree_exts (et_root et)"] by (auto simp: detach_extent_node_def et_ok_def)
  moreover have "i \<in> set (ids (xs @ ys))" if "cached_en et' = Some i" for i
    using that r ok t by (auto simp: detach_extent_node_def et_ok_def split: if_splits)
  ultimately have "et_ok nx et'" using ok d t t' by (simp add: et_ok_def)
  moreover have "same_lists sb sb'" "next_en sb' = next_en sb" using r by (auto simp: detach_extent_node_def same_lists_def)
  ultimately show thesis using that t t' by blast
qed

lemma fits_single: "\<forall>e \<in> set es. \<not> covers e f \<Longrightarrow> fits (set_extent_info f b 1) es"
  by (auto simp: fits_def covers_def ahead_def set_extent_info_def)

text \<open>The left part of a split extent, put back where the extent was.\<close>

lemma left_part:
  assumes ap: "apart (xs @ dei # ys)" and f: "covers dei f" "fofs dei < f"
  defines "ei \<equiv> set_extent_info (fofs dei) (blk dei) (f - fofs dei)"
  shows "ext_ok ei" "fits ei (xs @ ys)" "\<forall>e \<in> set (xs @ ys). \<not> merge_ext ei e \<and> \<not> merge_ext e ei"
    "covers ei g \<Longrightarrow> covers dei g \<and> g \<noteq> f \<and> ext_addr ei g = ext_addr dei g"
proof -
  have d: "ext_ok dei" "\<forall>x \<in> set xs. ahead x dei \<and> \<not> merge_ext x dei \<and> ext_ok x" "\<forall>y \<in> set ys. ahead dei y \<and> ext_ok y"
    using ap by (auto simp: apart_def sorted_wrt_append)
  show "ext_ok ei" using d(1) f by (auto simp: ext_ok_def ei_def set_extent_info_def covers_def)
  show "fits ei (xs @ ys)" using d f by (auto simp: fits_def ahead_def ei_def set_extent_info_def covers_def)
  show "\<forall>e \<in> set (xs @ ys). \<not> merge_ext ei e \<and> \<not> merge_ext e ei"
    using d f by (auto simp: merge_ext_def ahead_def ext_ok_def ei_def set_extent_info_def covers_def)
  show "covers dei g \<and> g \<noteq> f \<and> ext_addr ei g = ext_addr dei g" if "covers ei g"
    using that f by (auto simp: ei_def set_extent_info_def covers_def ext_addr_def)
qed

text \<open>The cache of one inode after the old extent was dropped: nothing at \<open>f\<close>, elsewhere no more than before.\<close>

definition narrowed :: "nat \<Rightarrow> extent_info list \<Rightarrow> extent_info list \<Rightarrow> bool" where
  "narrowed f es es' \<longleftrightarrow> (\<forall>g b. maps es' g b \<longrightarrow> g \<noteq> f \<and> maps es g b)"

definition small_right :: "extent_info \<Rightarrow> nat \<Rightarrow> bool" where
  "small_right e f \<longleftrightarrow> fofs e + len e - 1 - f < F2FS_MIN_EXTENT_LEN"

lemma split_extent_spec:
  assumes rb: "rb_laws rb" and ok: "et_ok (next_en sb) et" and t: "tree_exts (et_root et) = xs @ ys"
    and ap: "apart (xs @ dei # ys)" and f: "covers dei f" "small_right dei f"
  shows "\<exists>sb' et' en1. split_extent rb sb et dei f = Inr (sb', et', en1, None) \<and> same_lists sb sb' \<and> et_ok (next_en sb') et'
    \<and> narrowed f (xs @ dei # ys) (tree_exts (et_root et'))"
proof -
  have d: "ext_ok dei" using ap by (simp add: apart_def)
  have "\<not> covers e f" if "e \<in> set (xs @ ys)" for e
    using that ap f(1) ahead_not_covers [of e dei f] ahead_not_covers [of dei e f] by (auto simp: apart_def sorted_wrt_append)
  then have none: "narrowed f (xs @ dei # ys) (xs @ ys)" by (auto simp: narrowed_def maps_def)
  have r: "insert_right rb sb' et' dei f = Inr (sb', et', None, None)" for sb' et'
    using d f by (simp add: insert_right_def small_right_def add32_end ext_ok_def)
  show ?thesis
  proof (cases "len dei > 1 \<and> f - fofs dei \<ge> F2FS_MIN_EXTENT_LEN")
    case False
    then have "split_extent rb sb et dei f = Inr (sb, et, None, None)" using r by (auto simp: split_extent_def insert_left_def)
    then show ?thesis using ok none t by simp
  next
    case True
    let ?l = "set_extent_info (fofs dei) (blk dei) (f - fofs dei)"
    have "fofs dei < f" using True by (auto simp: F2FS_MIN_EXTENT_LEN_def)
    note lp = left_part [OF ap f(1) this]
    obtain sb' et' en den where i: "insert_extent_tree rb sb et ?l False = Inr (sb', et', en, den)" "added sb et ?l sb' et' (en \<noteq> None)"
      using insert_added [OF rb ok lp(1), of False] lp(2,3) t by auto
    then have "split_extent rb sb et dei f = Inr (sb', et', en, None)" using True r by (simp add: split_extent_def insert_left_def)
    moreover have "narrowed f (xs @ dei # ys) (tree_exts (et_root et'))"
      unfolding narrowed_def
    proof (intro allI impI)
      fix g b
      assume "maps (tree_exts (et_root et')) g b"
      then have "covers ?l g \<and> b = ext_addr ?l g \<or> maps (xs @ ys) g b" using i(2) t by (auto simp: added_def)
      then show "g \<noteq> f \<and> maps (xs @ dei # ys) g b" using lp(4) [of g] none by (auto simp: narrowed_def maps_def)
    qed
    ultimately show ?thesis using i(2) by (simp add: added_def)
  qed
qed

text \<open>Installing the new block, if there is one.\<close>

lemma insert_block_spec:
  assumes rb: "rb_laws rb" and ok: "et_ok (next_en sb) et" and n: "narrowed f es (tree_exts (et_root et))"
    and b: "f + 1 < 2 ^ 32" "blkaddr + 1 < 2 ^ 32"
  shows "\<exists>sb' et' en3 den. (if blkaddr \<noteq> 0 then insert_extent_tree rb sb et (set_extent_info f blkaddr 1) True else Inr (sb, et, None, None))
      = Inr (sb', et', en3, den) \<and> same_lists sb sb' \<and> et_ok (next_en sb') et'
      \<and> (\<forall>g c. maps (tree_exts (et_root et')) g c \<longrightarrow> (if g = f then c = blkaddr else maps es g c))"
proof (cases "blkaddr = 0")
  case True
  then show ?thesis using ok n by (auto simp: narrowed_def)
next
  case False
  let ?n = "set_extent_info f blkaddr 1"
  have "\<forall>e \<in> set (tree_exts (et_root et)). \<not> covers e f" using n by (auto simp: narrowed_def maps_def)
  from fits_single [OF this] have fit: "fits ?n (tree_exts (et_root et))" .
  have "ext_ok ?n" using b by (simp add: ext_ok_def set_extent_info_def)
  from insert_added [OF rb ok this fit, of True] obtain sb' et' en den where
    i: "insert_extent_tree rb sb et ?n True = Inr (sb', et', en, den)" "added sb et ?n sb' et' (en \<noteq> None)" by auto
  have "if g = f then c = blkaddr else maps es g c" if "maps (tree_exts (et_root et')) g c" for g c
  proof -
    have e: "maps (tree_exts (et_root et')) g c \<longleftrightarrow> (en \<noteq> None \<and> covers ?n g \<and> c = ext_addr ?n g) \<or> maps (tree_exts (et_root et)) g c"
      using i(2) unfolding added_def by blast
    from that [unfolded e] show ?thesis
    proof (elim disjE conjE)
      assume "covers ?n g" "c = ext_addr ?n g"
      then show ?thesis by (simp add: covers_def ext_addr_def set_extent_info_def)
    next
      assume "maps (tree_exts (et_root et)) g c"
      then have "g \<noteq> f" "maps es g c" using n unfolding narrowed_def by blast+
      then show ?thesis by simp
    qed
  qed
  then have "\<forall>g c. maps (tree_exts (et_root et')) g c \<longrightarrow> (if g = f then c = blkaddr else maps es g c)" by blast
  moreover have "same_lists sb sb'" "et_ok (next_en sb') et'" using i(2) unfolding added_def by blast+
  moreover have "(if blkaddr \<noteq> 0 then insert_extent_tree rb sb et ?n True else Inr (sb, et, None, None)) = Inr (sb', et', en, den)"
    using False i(1) by simp
  ultimately show ?thesis by blast
qed

subsection \<open>The cache of the file system\<close>

definition exts_of :: "ext_cache \<Rightarrow> nat \<Rightarrow> extent_info list" where
  "exts_of sb ino = (case map_of (extent_tree_root sb) ino of None \<Rightarrow> [] | Some et \<Rightarrow> tree_exts (et_root et))"

definition ext_inv :: "ext_cache \<Rightarrow> bool" where
  "ext_inv sb \<longleftrightarrow> (\<forall>ino et. map_of (extent_tree_root sb) ino = Some et \<longrightarrow> et_ok (next_en sb) et)"

text \<open>Every cached extent agrees with the block addresses in the node blocks of the file.\<close>

definition true_to :: "ext_cache \<Rightarrow> nat \<Rightarrow> (nat \<Rightarrow> nat) \<Rightarrow> bool" where
  "true_to sb ino file \<longleftrightarrow> (\<forall>f b. maps (exts_of sb ino) f b \<longrightarrow> file f = b)"

lemma et_ok_empty [simp]: "et_ok nx empty_extent_tree" "et_root empty_extent_tree = Leaf"
  by (simp_all add: et_ok_def empty_extent_tree_def apart_def)

lemma grab_spec:
  assumes "ext_inv sb" "grab_extent_tree sb ino = (sb', et)"
  shows "et_ok (next_en sb') et" "tree_exts (et_root et) = exts_of sb ino" "next_en sb' = next_en sb" "ext_inv sb'"
    "i \<noteq> ino \<Longrightarrow> map_of (extent_tree_root sb') i = map_of (extent_tree_root sb) i"
  using assms by (auto simp: grab_extent_tree_def ext_inv_def exts_of_def put_extent_tree_def update_conv' split: option.splits if_splits)


lemma put_spec:
  assumes "ext_inv sb" "et_ok (next_en sb) et"
  shows "ext_inv (put_extent_tree ino et sb)" "exts_of (put_extent_tree ino et sb) i = (if i = ino then tree_exts (et_root et) else exts_of sb i)"
    "map_of (extent_tree_root (put_extent_tree ino et sb)) i = (if i = ino then Some et else map_of (extent_tree_root sb) i)"
  using assms by (auto simp: ext_inv_def exts_of_def put_extent_tree_def update_conv')

lemma list_ops_simps [simp]:
  "extent_tree_root (list_add_tail en sb) = extent_tree_root sb" "next_en (list_add_tail en sb) = next_en sb"
  "extent_tree_root (list_del en sb) = extent_tree_root sb" "next_en (list_del en sb) = next_en sb"
  by (simp_all add: list_add_tail_def list_del_def split: option.split)

lemma ext_inv_lists: "same_lists sb sb' \<Longrightarrow> ext_inv sb \<Longrightarrow> ext_inv sb'"
  using same_listsD [of sb sb'] by (auto simp: ext_inv_def intro: et_ok_mono)

text \<open>The first half of the update: the extent that covers the block is dropped or cut.\<close>

lemma drop_extent_spec:
  assumes rb: "rb_laws rb" and ok: "et_ok (next_en sb) et" and l: "lookup_extent_tree et f = (et1, en)"
    and sr: "\<forall>e \<in> set (tree_exts (et_root et)). covers e f \<longrightarrow> small_right e f"
  shows "\<exists>sb' et' en1 en2. (case en of None \<Rightarrow> Inr (sb, et1, None, None)
      | Some en \<Rightarrow> let (sb, et) = detach_extent_node rb sb et1 (en_id en) in split_extent rb sb et (en_ei en) f) = Inr (sb', et', en1, en2)
      \<and> same_lists sb sb' \<and> et_ok (next_en sb') et' \<and> narrowed f (tree_exts (et_root et)) (tree_exts (et_root et'))"
proof (cases en)
  case None
  have "\<forall>e \<in> set (tree_exts (et_root et)). \<not> covers e f" using lookup_extent_tree_spec(3) [OF ok l] None by simp
  then have "narrowed f (tree_exts (et_root et)) (tree_exts (et_root et))" unfolding narrowed_def maps_def by blast
  then show ?thesis using lookup_extent_tree_spec(1,2) [OF ok l] None by simp
next
  case (Some n)
  note l' = lookup_extent_tree_spec [OF ok l]
  have n: "n \<in> set (inorder (et_root et1))" "covers (en_ei n) f" using l'(1,3) Some by auto
  obtain sbd etd where d: "detach_extent_node rb sb et1 (en_id n) = (sbd, etd)" by fastforce
  obtain xs ys where x: "inorder (et_root et1) = xs @ n # ys" "inorder (et_root etd) = xs @ ys" "et_ok (next_en sb) etd"
    "same_lists sb sbd" "next_en sbd = next_en sb"
    using detach_spec [OF rb l'(2) n(1) d] by blast
  have e: "tree_exts (et_root et) = extents xs @ en_ei n # extents ys" using l'(1) x(1) by simp
  have ap: "apart (extents xs @ en_ei n # extents ys)" using ok e by (simp add: et_ok_def)
  have okd: "et_ok (next_en sbd) etd" "tree_exts (et_root etd) = extents xs @ extents ys" using x by simp_all
  have "small_right (en_ei n) f" using sr e n(2) by simp
  from split_extent_spec [OF rb okd ap n(2) this] obtain sb' et' en1 where
    r: "split_extent rb sbd etd (en_ei n) f = Inr (sb', et', en1, None)" "same_lists sbd sb'" "et_ok (next_en sb') et'"
    "narrowed f (extents xs @ en_ei n # extents ys) (tree_exts (et_root et'))" by blast
  have "same_lists sb sb'" using x(4) r(2) by (rule same_lists_trans)
  then show ?thesis using Some d e r by simp
qed

text \<open>
  C30: The extent tree stays true to the file. When block \<open>f\<close> of a file is moved to \<open>blkaddr\<close> (zero when it
  is truncated), and no cached extent reaches 64 blocks or more to the right of \<open>f\<close>, the update ends
  without a fault, keeps every tree sorted, disjoint and merged, leaves the trees of other inodes
  alone, and every address the tree of the inode then gives is the address in the changed file, even
  when memory for extent nodes runs out.
\<close>

theorem f2fs_update_extent_tree_correct:
  assumes "rb_laws rb" "ext_inv sb" "true_to sb ino file" "f + 1 < 2 ^ 32" "blkaddr + 1 < 2 ^ 32"
    and "\<forall>e \<in> set (exts_of sb ino). covers e f \<longrightarrow> small_right e f"
  shows "\<exists>sb'. f2fs_update_extent_tree rb sb ino f blkaddr = Inr sb' \<and> ext_inv sb' \<and> true_to sb' ino (file(f := blkaddr))
    \<and> (\<forall>i. i \<noteq> ino \<longrightarrow> exts_of sb' i = exts_of sb i)"
proof -
  obtain sb1 et where g: "grab_extent_tree sb ino = (sb1, et)" by fastforce
  note g' = grab_spec [OF assms(2) g]
  obtain et1 en where l: "lookup_extent_tree et f = (et1, en)" by fastforce
  note l' = lookup_extent_tree_spec [OF g'(1) l]
  have "\<forall>e \<in> set (tree_exts (et_root et)). covers e f \<longrightarrow> small_right e f" using assms(6) g'(2) by simp
  note ds = drop_extent_spec [OF assms(1) g'(1) l this, unfolded g'(2)]
  then obtain sb2 et2 en1 en2 where s: "(case en of None \<Rightarrow> Inr (sb1, et1, None, None)
      | Some en \<Rightarrow> let (sb, et) = detach_extent_node rb sb1 et1 (en_id en) in split_extent rb sb et (en_ei en) f) = Inr (sb2, et2, en1, en2)"
    "same_lists sb1 sb2" "et_ok (next_en sb2) et2" "narrowed f (exts_of sb ino) (tree_exts (et_root et2))" using ds by blast
  obtain sb3 et3 en3 den where b: "(if blkaddr \<noteq> 0 then insert_extent_tree rb sb2 et2 (set_extent_info f blkaddr 1) True else Inr (sb2, et2, None, None))
      = Inr (sb3, et3, en3, den)" "same_lists sb2 sb3" "et_ok (next_en sb3) et3"
      "\<forall>g c. maps (tree_exts (et_root et3)) g c \<longrightarrow> (if g = f then c = blkaddr else maps (exts_of sb ino) g c)"
    using insert_block_spec [OF assms(1) s(3,4) assms(4,5)] by blast
  let ?sb = "list_del den (list_add_tail en3 (list_add_tail en2 (list_add_tail en1 (list_del (map_option en_id en) sb3))))"
  have r: "f2fs_update_extent_tree rb sb ino f blkaddr = Inr (put_extent_tree ino et3 ?sb)"
    by (simp only: f2fs_update_extent_tree_def g l s(1) [unfolded Let_def] b(1) Let_def prod.case sum.case)
  have sl: "same_lists sb1 sb3" using s(2) b(2) by (rule same_lists_trans)
  have inv: "ext_inv ?sb" using ext_inv_lists [OF sl g'(4)] by (simp add: ext_inv_def)
  have oth: "map_of (extent_tree_root ?sb) i = map_of (extent_tree_root sb) i" if "i \<noteq> ino" for i
    using same_listsD(1) [OF sl] g'(5) [OF that] by simp
  have ok: "et_ok (next_en ?sb) et3" using b(3) by simp
  note p = put_spec [OF inv ok]
  have "true_to (put_extent_tree ino et3 ?sb) ino (file(f := blkaddr))"
    using b(4) assms(3) by (simp add: true_to_def p(2) split: if_splits)
  moreover have "exts_of (put_extent_tree ino et3 ?sb) i = exts_of sb i" if "i \<noteq> ino" for i
    using that oth [OF that] by (simp add: exts_of_def p(3))
  ultimately show ?thesis using r p(1) by blast
qed

text \<open>A concrete library of trees: no recolouring, and removal by joining the two subtrees.\<close>

fun join_trees :: "'a tree \<Rightarrow> 'a tree \<Rightarrow> 'a tree" where
  "join_trees Leaf r = r"
| "join_trees (Node l a m) r = Node l a (join_trees m r)"

fun erase_en :: "nat \<Rightarrow> extent_node tree \<Rightarrow> extent_node tree" where
  "erase_en i Leaf = Leaf"
| "erase_en i (Node l a r) =
     (if en_id a = i then join_trees (erase_en i l) (erase_en i r) else Node (erase_en i l) a (erase_en i r))"

definition plain_rb :: rb_ops where
  "plain_rb = \<lparr>rb_insert_color = (\<lambda>t. t), rb_erase = erase_en\<rparr>"

lemma join_trees_inorder [simp]: "inorder (join_trees l r) = inorder l @ inorder r"
  by (induction l r rule: join_trees.induct) simp_all

lemma erase_en_inorder [simp]: "inorder (erase_en i t) = filter (\<lambda>en. en_id en \<noteq> i) (inorder t)"
  by (induction t) simp_all

lemma plain_rb_laws: "rb_laws plain_rb"
  by (simp add: rb_laws_def plain_rb_def)

text \<open>A file whose blocks 0 to 99 lie at 5000 to 5099, cached as one extent.\<close>

definition one_extent_cache :: "extent_info \<Rightarrow> ext_cache" where
  "one_extent_cache e =
     \<lparr>extent_tree_root = [(7, \<lparr>et_root = Node Leaf \<lparr>en_id = 0, en_ei = e\<rparr> Leaf, cached_en = Some 0, et_count = 1\<rparr>)],
      extent_list = [0], total_ext_tree = 1, total_ext_node = 1, next_en = 1, ext_mem_ok = (\<lambda>_. True),
      opt_EXTENT_CACHE = True, ext_need_fsck = False\<rparr>"

lemma one_extent_inv: "ext_ok e \<Longrightarrow> ext_inv (one_extent_cache e) \<and> exts_of (one_extent_cache e) 7 = [e]"
  by (auto simp: ext_inv_def one_extent_cache_def et_ok_def apart_def exts_of_def merge_ext_def ext_ok_def split: if_splits)

theorem f2fs_update_extent_tree_correct_witness:
  "\<exists>sb'. f2fs_update_extent_tree plain_rb (one_extent_cache (set_extent_info 0 5000 100)) 7 90 9000 = Inr sb'
    \<and> ext_inv sb' \<and> true_to sb' 7 ((\<lambda>f. 5000 + f)(90 := 9000))"
proof -
  let ?e = "set_extent_info 0 5000 100" let ?sb = "one_extent_cache ?e"
  have e: "ext_inv ?sb" "exts_of ?sb 7 = [?e]" using one_extent_inv [of ?e] by (simp_all add: ext_ok_def set_extent_info_def)
  have "true_to ?sb 7 (\<lambda>f. 5000 + f)"
    unfolding true_to_def e(2) by (auto simp: maps_def covers_def ext_addr_def set_extent_info_def)
  from f2fs_update_extent_tree_correct [OF plain_rb_laws e(1) this, of 90 9000] show ?thesis
    unfolding e(2) by (auto simp: small_right_def covers_def set_extent_info_def F2FS_MIN_EXTENT_LEN_def)
qed

text \<open>
  C32: A look-up in the extent tree is true to the file: the extent it returns covers the block asked
  for and gives the address of every block it covers; it changes no tree but the cached node.
\<close>

theorem f2fs_lookup_extent_tree_correct:
  assumes "ext_inv sb" "true_to sb ino file" "f2fs_lookup_extent_tree sb ino pgofs = (sb', r)"
  shows "ext_inv sb' \<and> (\<forall>i. exts_of sb' i = exts_of sb i)
    \<and> (case r of Some ei \<Rightarrow> covers ei pgofs \<and> (\<forall>f. covers ei f \<longrightarrow> file f = ext_addr ei f)
       | None \<Rightarrow> \<forall>b. \<not> maps (exts_of sb ino) pgofs b)"
proof (cases "map_of (extent_tree_root sb) ino")
  case None
  then show ?thesis using assms by (auto simp: f2fs_lookup_extent_tree_def find_extent_tree_def exts_of_def maps_def)
next
  case (Some et)
  then have ok: "et_ok (next_en sb) et" and ex: "exts_of sb ino = tree_exts (et_root et)"
    using assms(1) by (auto simp: ext_inv_def exts_of_def)
  obtain et1 en where l: "lookup_extent_tree et pgofs = (et1, en)" by fastforce
  note l' = lookup_extent_tree_spec [OF ok l]
  note p = put_spec [OF assms(1) l'(2), of ino]
  have same: "exts_of (put_extent_tree ino et1 sb) i = exts_of sb i" for i using p(2) [of i] l'(1) ex by simp
  have r: "extent_tree_root sb' = extent_tree_root (put_extent_tree ino et1 sb)" "next_en sb' = next_en (put_extent_tree ino et1 sb)"
    "r = map_option en_ei en"
    using assms(3) Some l by (auto simp: f2fs_lookup_extent_tree_def find_extent_tree_def Let_def split: option.splits if_splits)
  have "exts_of sb' i = exts_of sb i" for i using same [of i] unfolding exts_of_def r(1) .
  moreover have "ext_inv sb'" using p(1) unfolding ext_inv_def r(1,2) .
  moreover have "case r of Some ei \<Rightarrow> covers ei pgofs \<and> (\<forall>f. covers ei f \<longrightarrow> file f = ext_addr ei f)
      | None \<Rightarrow> \<forall>b. \<not> maps (exts_of sb ino) pgofs b"
    using l'(3) assms(2) unfolding r(3) true_to_def ex maps_def by (cases en) auto
  ultimately show ?thesis by blast
qed

theorem f2fs_lookup_extent_tree_correct_witness:
  "\<exists>sb' ei. f2fs_lookup_extent_tree (one_extent_cache (set_extent_info 0 5000 100)) 7 42 = (sb', Some ei)
    \<and> ext_inv sb' \<and> covers ei 42 \<and> ext_addr ei 42 = 5042"
proof -
  let ?e = "set_extent_info 0 5000 100" let ?sb = "one_extent_cache ?e"
  have e: "ext_inv ?sb" "exts_of ?sb 7 = [?e]" using one_extent_inv [of ?e] by (simp_all add: ext_ok_def set_extent_info_def)
  have t: "true_to ?sb 7 (\<lambda>f. 5000 + f)"
    unfolding true_to_def e(2) by (auto simp: maps_def covers_def ext_addr_def set_extent_info_def)
  obtain sb' r where l: "f2fs_lookup_extent_tree ?sb 7 42 = (sb', r)" by fastforce
  have "maps (exts_of ?sb 7) 42 5042" unfolding e(2) by (simp add: maps_def covers_def ext_addr_def set_extent_info_def)
  then show ?thesis using f2fs_lookup_extent_tree_correct [OF e(1) t l] l by (cases r) auto
qed



subsection \<open>The single extent\<close>

definition single_true :: "ext_inode \<Rightarrow> (nat \<Rightarrow> nat) \<Rightarrow> bool" where
  "single_true fi file \<longleftrightarrow> len (ext fi) = 0 \<or> ext_ok (ext fi) \<and> (\<forall>f. covers (ext fi) f \<longrightarrow> file f = ext_addr (ext fi) f)"

lemma single_true_ext [simp]: "single_true (fi\<lparr>ext := e\<rparr>) file \<longleftrightarrow> len e = 0 \<or> ext_ok e \<and> (\<forall>f. covers e f \<longrightarrow> file f = ext_addr e f)"
  by (simp add: single_true_def)

lemma drop_if_small_true:
  assumes "single_true fi file"
  shows "single_true (fst (drop_if_small need fi)) file" "snd (drop_if_small need fi) \<or> fst (drop_if_small need fi) = fi"
  using assms by (auto simp: drop_if_small_def single_true_def)

text \<open>A single extent that covers \<open>f\<close> is cut on one side of it.\<close>

lemma sub_extent_true:
  assumes "\<forall>g. covers e g \<longrightarrow> file g = ext_addr e g" "\<And>g. covers d g \<Longrightarrow> covers e g \<and> g \<noteq> f \<and> ext_addr d g = ext_addr e g"
    and "len d = 0 \<or> ext_ok d"
  shows "single_true (fi\<lparr>ext := d\<rparr>) (file(f := b))"
proof (cases "len d = 0")
  case False
  have "(file(f := b)) g = ext_addr d g" if "covers d g" for g using assms(2) [OF that] assms(1) by simp
  with False assms(3) show ?thesis unfolding single_true_ext by blast
qed simp

lemma cut_extent_true:
  assumes ok: "ext_ok e" and c: "\<forall>g. covers e g \<longrightarrow> file g = ext_addr e g" and f: "covers e f"
  shows "single_true (fi\<lparr>ext := e\<lparr>len := f - fofs e\<rparr>\<rparr>) (file(f := b))"
    "single_true (fi\<lparr>ext := \<lparr>fofs = f + 1, blk = blk e + (f - fofs e + 1), len = len e - (f - fofs e + 1)\<rparr>\<rparr>) (file(f := b))"
proof -
  show "single_true (fi\<lparr>ext := e\<lparr>len := f - fofs e\<rparr>\<rparr>) (file(f := b))"
    by (rule sub_extent_true [OF c]) (use ok f in \<open>auto simp: ext_ok_def covers_def ext_addr_def\<close>)
  show "single_true (fi\<lparr>ext := \<lparr>fofs = f + 1, blk = blk e + (f - fofs e + 1), len = len e - (f - fofs e + 1)\<rparr>\<rparr>) (file(f := b))"
    by (rule sub_extent_true [OF c]) (use ok f in \<open>auto simp: ext_ok_def covers_def ext_addr_def\<close>)
qed

lemma update_extent_info_true:
  assumes t: "single_true fi file" and b: "f + 1 < 2 ^ 32" "blkaddr + 1 < 2 ^ 32" "len (ext fi) = 0 \<or> 1 < blk (ext fi)"
  shows "single_true (fst (update_extent_info fi f blkaddr)) (file(f := blkaddr))
    \<and> (snd (update_extent_info fi f blkaddr) \<or> fst (update_extent_info fi f blkaddr) = fi)"
proof -
  consider (init) "len (ext fi) = 0 \<or> len (ext fi) = 1 \<and> f = fofs (ext fi)"
    | (rest) "ext_ok (ext fi)" "\<not> (len (ext fi) = 1 \<and> f = fofs (ext fi))" "len (ext fi) \<noteq> 0"
    using t unfolding single_true_def by blast
  then show ?thesis
  proof cases
    case init
    define z where "z = (if len (ext fi) = 1 \<and> f = fofs (ext fi) then (ext fi)\<lparr>len := 0\<rparr> else ext fi)"
    have z: "len z = 0" using init by (auto simp: z_def)
    have u: "update_extent_info fi f blkaddr = (fi\<lparr>ext := if blkaddr \<noteq> NULL_ADDR then \<lparr>fofs = f, blk = blkaddr, len = 1\<rparr> else z\<rparr>, True)"
      unfolding update_extent_info_def Let_def z_def [symmetric] using z by simp
    show ?thesis unfolding u using b z by (auto simp: ext_ok_def covers_def ext_addr_def)
  next
    case rest
    let ?e = "ext fi"
    have c: "\<forall>g. covers ?e g \<longrightarrow> file g = ext_addr ?e g" using t rest(3) by (simp add: single_true_def)
    have n: "sub32 (add32 (fofs ?e) (len ?e)) 1 = fofs ?e + len ?e - 1" "sub32 (add32 (blk ?e) (len ?e)) 1 = blk ?e + len ?e - 1"
      "sub32 (blk ?e) 1 = blk ?e - 1" "add32 (len ?e) 1 = len ?e + 1" "add32 (blk ?e + len ?e - 1) 1 = blk ?e + len ?e"
      using rest(1) b(3) by (auto simp: ext_ok_def)
    have u0: "update_extent_info fi f blkaddr =
      (if f + 1 = fofs ?e \<and> blkaddr = blk ?e - 1 then (fi\<lparr>ext := \<lparr>fofs = fofs ?e - 1, blk = blk ?e - 1, len = len ?e + 1\<rparr>\<rparr>, True)
       else if f = fofs ?e + len ?e - 1 + 1 \<and> blkaddr = blk ?e + len ?e then (fi\<lparr>ext := ?e\<lparr>len := len ?e + 1\<rparr>\<rparr>, True)
       else if len ?e > 1 \<and> f \<ge> fofs ?e \<and> f \<le> fofs ?e + len ?e - 1
       then drop_if_small True (fi\<lparr>ext := if fofs ?e + len ?e - 1 - f < len ?e div 2 then ?e\<lparr>len := f - fofs ?e\<rparr>
              else \<lparr>fofs = f + 1, blk = add32 (blk ?e) (f - fofs ?e + 1), len = len ?e - (f - fofs ?e + 1)\<rparr>\<rparr>)
       else drop_if_small False (fi\<lparr>ext := ?e\<rparr>))"
      unfolding update_extent_info_def Let_def if_not_P [OF rest(2)] if_not_P [OF rest(3)] n ..
    have a: "add32 (blk ?e) (f - fofs ?e + 1) = blk ?e + (f - fofs ?e + 1)" if "covers ?e f"
      using rest(1) that by (auto simp: ext_ok_def covers_def)
    consider (front) "f + 1 = fofs ?e" "blkaddr = blk ?e - 1" | (merge) "f = fofs ?e + len ?e" "blkaddr = blk ?e + len ?e"
      | (cut) "\<not> (f + 1 = fofs ?e \<and> blkaddr = blk ?e - 1)" "\<not> (f = fofs ?e + len ?e \<and> blkaddr = blk ?e + len ?e)" "len ?e > 1" "covers ?e f"
      | (other) "\<not> (f + 1 = fofs ?e \<and> blkaddr = blk ?e - 1)" "\<not> (f = fofs ?e + len ?e \<and> blkaddr = blk ?e + len ?e)" "\<not> (len ?e > 1 \<and> covers ?e f)"
      by blast
    then show ?thesis
    proof cases
      case front
      let ?d = "\<lparr>fofs = fofs ?e - 1, blk = blk ?e - 1, len = len ?e + 1\<rparr>"
      have u: "update_extent_info fi f blkaddr = (fi\<lparr>ext := ?d\<rparr>, True)"
        unfolding u0 using front by simp
      have "ext_ok ?d" using front rest b by (auto simp: ext_ok_def)
      moreover have "(file(f := blkaddr)) g = ext_addr ?d g" if "covers ?d g" for g
      proof (cases "g = f")
        case False
        then have "covers ?e g" using that front by (auto simp: covers_def)
        with False c front rest b show ?thesis by (auto simp: covers_def ext_addr_def)
      qed (use front in \<open>simp add: ext_addr_def\<close>)
      ultimately show ?thesis unfolding u by simp
    next
      case merge
      let ?d = "?e\<lparr>len := len ?e + 1\<rparr>"
      have u: "update_extent_info fi f blkaddr = (fi\<lparr>ext := ?d\<rparr>, True)"
        unfolding u0 using merge rest by (simp add: ext_ok_def)
      have "ext_ok ?d" using merge rest b by (auto simp: ext_ok_def)
      moreover have "(file(f := blkaddr)) g = ext_addr ?d g" if "covers ?d g" for g
      proof (cases "g = f")
        case False
        then have "covers ?e g" using that merge by (auto simp: covers_def)
        with False c show ?thesis by (auto simp: ext_addr_def)
      qed (use merge in \<open>simp add: ext_addr_def\<close>)
      ultimately show ?thesis unfolding u by simp
    next
      case cut
      let ?c = "if fofs ?e + len ?e - 1 - f < len ?e div 2 then ?e\<lparr>len := f - fofs ?e\<rparr>
        else \<lparr>fofs = f + 1, blk = blk ?e + (f - fofs ?e + 1), len = len ?e - (f - fofs ?e + 1)\<rparr>"
      have u: "update_extent_info fi f blkaddr = drop_if_small True (fi\<lparr>ext := ?c\<rparr>)"
        unfolding u0 a [OF cut(4)] using cut by (auto simp: covers_def)
      have "single_true (fi\<lparr>ext := ?c\<rparr>) (file(f := blkaddr))"
        using cut_extent_true [OF rest(1) c cut(4), of fi blkaddr] by (simp only: if_distrib [of "\<lambda>e. fi\<lparr>ext := e\<rparr>"] simp_thms split: if_split)
      moreover have "snd (drop_if_small True fi')" for fi' by (simp add: drop_if_small_def)
      ultimately show ?thesis unfolding u using drop_if_small_true by blast
    next
      case other
      have u: "update_extent_info fi f blkaddr = drop_if_small False fi"
        unfolding u0 using other rest(3) by (auto simp: covers_def)
      have "\<not> covers ?e f" using other(3) rest by (auto simp: covers_def)
      then have "single_true fi (file(f := blkaddr))" using t c by (auto simp: single_true_def)
      then show ?thesis unfolding u using drop_if_small_true by blast
    qed
  qed
qed

text \<open>
  C33: The single extent kept in an inode stays true to the file: after a block was moved or truncated,
  every address the extent gives is the address in the changed file, and the inode is reported as
  changed whenever its extent changed.
\<close>

theorem update_extent_info_correct:
  assumes "single_true fi file" "f + 1 < 2 ^ 32" "blkaddr + 1 < 2 ^ 32" "len (ext fi) = 0 \<or> 1 < blk (ext fi)"
    and "update_extent_info fi f blkaddr = (fi', need)"
  shows "single_true fi' (file(f := blkaddr)) \<and> (need \<or> fi' = fi)
    \<and> (\<forall>g e. lookup_extent_info fi' g = Some e \<longrightarrow> (file(f := blkaddr)) g = ext_addr e g)"
proof -
  have t: "single_true fi' (file(f := blkaddr))" "need \<or> fi' = fi" using update_extent_info_true [OF assms(1-4)] assms(5) by auto
  have "(file(f := blkaddr)) g = ext_addr e g" if "lookup_extent_info fi' g = Some e" for g e
  proof -
    have n: "len (ext fi') \<noteq> 0" "e = ext fi'" using that by (auto simp: lookup_extent_info_def Let_def split: if_splits)
    then have ok: "ext_ok e" "\<forall>g. covers e g \<longrightarrow> (file(f := blkaddr)) g = ext_addr e g" using t(1) by (auto simp: single_true_def)
    have "covers e g" using that n ok(1) by (auto simp: lookup_extent_info_def covers_def Let_def ext_ok_def split: if_splits)
    with ok(2) show ?thesis by blast
  qed
  with t show ?thesis by blast
qed

theorem update_extent_info_correct_witness:
  "\<exists>fi' need. update_extent_info \<lparr>ext = set_extent_info 10 700 200, FI_NO_EXTENT = False\<rparr> 50 0 = (fi', need)
    \<and> single_true fi' ((\<lambda>f. 690 + f)(50 := 0)) \<and> ext fi' = set_extent_info 51 741 159"
proof -
  let ?fi = "\<lparr>ext = set_extent_info 10 700 200, FI_NO_EXTENT = False\<rparr>"
  obtain fi' need where u: "update_extent_info ?fi 50 0 = (fi', need)" by fastforce
  have "single_true ?fi (\<lambda>f. 690 + f)" by (auto simp: single_true_def ext_ok_def set_extent_info_def covers_def ext_addr_def)
  from update_extent_info_correct [OF this _ _ _ u] have "single_true fi' ((\<lambda>f. 690 + f)(50 := 0))"
    by (simp add: set_extent_info_def)
  moreover have "ext fi' = set_extent_info 51 741 159"
    using u by (auto simp: update_extent_info_def Let_def set_extent_info_def drop_if_small_def F2FS_MIN_EXTENT_LEN_def)
  ultimately show ?thesis using u by blast
qed

end
