(* ===== verification/Bytes.thy ===== *)
theory Bytes
  imports Max_Prelude
begin

section \<open>Byte buffers\<close>

text \<open>
  Blocks as the sources fill them with \<open>memcpy\<close> and with little-endian fields: writing bytes at an
  offset, reading and writing a number of \<open>k\<close> bytes, and the laws of reading after writing, at the
  same place and elsewhere.
\<close>

definition put_bytes :: "nat \<Rightarrow> u8 list \<Rightarrow> u8 list \<Rightarrow> u8 list" where
  "put_bytes at s m = take at m @ s @ drop (at + length s) m"

lemma length_put_bytes: "at + length s \<le> length m \<Longrightarrow> length (put_bytes at s m) = length m"
  by (simp add: put_bytes_def)

lemma put_bytes_here: "at + length s \<le> length m \<Longrightarrow> take (length s) (drop at (put_bytes at s m)) = s"
  by (simp add: put_bytes_def)

lemma put_bytes_other:
  assumes "at + length s \<le> length m" "a + n \<le> at \<or> at + length s \<le> a"
  shows "take n (drop a (put_bytes at s m)) = take n (drop a m)"
  using assms(2)
proof
  assume "a + n \<le> at"
  then have "n \<le> at - a" "a \<le> at" by simp_all
  then have "drop a (put_bytes at s m) = take (at - a) (drop a m) @ s @ drop (at + length s) m" "n \<le> length (take (at - a) (drop a m))"
    using assms(1) by (simp_all add: put_bytes_def drop_take)
  then show ?thesis using \<open>n \<le> at - a\<close> by (simp add: min_def)
next
  assume a: "at + length s \<le> a"
  have "drop a (put_bytes at s m) = drop (a - (at + length s)) (drop (at + length s) m)"
    using a assms(1) by (simp add: put_bytes_def min_def)
  then show ?thesis using a by simp
qed

lemma put_bytes_nth:
  "at + length s \<le> length m \<Longrightarrow> i < length m \<Longrightarrow>
     put_bytes at s m ! i = (if at \<le> i \<and> i < at + length s then s ! (i - at) else m ! i)"
  by (auto simp: put_bytes_def nth_append min_def)

definition le_bytes :: "nat \<Rightarrow> nat \<Rightarrow> u8 list" where
  "le_bytes k v = map (\<lambda>i. word_of_nat (v div 256 ^ i)) [0..<k]"

definition of_le :: "u8 list \<Rightarrow> nat" where
  "of_le bs = foldr (\<lambda>b v. unat b + 256 * v) bs 0"

definition get_le :: "nat \<Rightarrow> nat \<Rightarrow> u8 list \<Rightarrow> nat" where
  "get_le k off m = of_le (take k (drop off m))"

definition put_le :: "nat \<Rightarrow> nat \<Rightarrow> nat \<Rightarrow> u8 list \<Rightarrow> u8 list" where
  "put_le k off v m = put_bytes off (le_bytes k v) m"

lemma length_le_bytes [simp]: "length (le_bytes k v) = k"
  by (simp add: le_bytes_def)

lemma le_bytes_Suc: "le_bytes (Suc k) v = word_of_nat v # le_bytes k (v div 256)"
  by (simp add: le_bytes_def map_upt_Suc div_mult2_eq del: upt_Suc)

lemma of_le_bytes: "of_le (le_bytes k v) = v mod 256 ^ k"
proof (induction k arbitrary: v)
  case (Suc k)
  have "of_le (le_bytes (Suc k) v) = v mod 256 + 256 * (v div 256 mod 256 ^ k)"
    using Suc.IH [of "v div 256"] by (simp add: le_bytes_Suc of_le_def unat_of_nat)
  also have "\<dots> = v mod (256 * 256 ^ k)" by (simp add: mod_mult2_eq)
  finally show ?case by simp
qed (simp add: of_le_def le_bytes_def)

lemma length_put_le [simp]: "off + k \<le> length m \<Longrightarrow> length (put_le k off v m) = length m"
  by (simp add: put_le_def length_put_bytes)

lemma get_put_le: "off + k \<le> length m \<Longrightarrow> get_le k off (put_le k off v m) = v mod 256 ^ k"
  using put_bytes_here [of off "le_bytes k v" m] by (simp add: get_le_def put_le_def of_le_bytes)

lemma get_put_le_other:
  "off + k \<le> length m \<Longrightarrow> off' + k' \<le> off \<or> off + k \<le> off' \<Longrightarrow> get_le k' off' (put_le k off v m) = get_le k' off' m"
  by (simp add: get_le_def put_le_def put_bytes_other)

lemma get_le_take: "off + k \<le> n \<Longrightarrow> get_le k off (take n m) = get_le k off m"
  by (simp add: get_le_def drop_take min_def)

lemma take_put_le: "n \<le> off \<Longrightarrow> off + k \<le> length m \<Longrightarrow> take n (put_le k off v m) = take n m"
  using put_bytes_other [of off "le_bytes k v" m 0 n] by (simp add: put_le_def)

end
