(* ===== verification/Dentry.thy ===== *)
theory Dentry
  imports Hash Bitops Bytes
begin

section \<open>Directory entry blocks\<close>

text \<open>
  A directory entry block has a bitmap of slots, an array of entries and an array of 8-byte name
  slots; an entry takes as many consecutive slots as its name needs, and its entry structure is at
  the first. Inline directories keep the same three arrays, smaller, in the inode. Modelled: the
  operations on a block, seen through \<open>f2fs_dentry_ptr\<close> (\<open>dir.c\<close>, \<open>f2fs.h\<close>): search, search for room,
  insertion, deletion, listing, and the conversion of an inline directory (\<open>inline.c\<close>). The theory
  then describes a block by the positions of its entries (\<open>layout\<close>) and shows what every operation
  does to them.
\<close>

subsection \<open>Sizes and types\<close>

definition F2FS_SLOT_LEN :: nat where "F2FS_SLOT_LEN = 8"
definition NR_DENTRY_IN_BLOCK :: nat where "NR_DENTRY_IN_BLOCK = 214"
definition SIZE_OF_DENTRY_BITMAP :: nat where "SIZE_OF_DENTRY_BITMAP = (NR_DENTRY_IN_BLOCK + 8 - 1) div 8"
definition MAX_INLINE_DATA :: nat where "MAX_INLINE_DATA = 4 * (923 - 50 - 1)"
definition NR_INLINE_DENTRY :: nat where "NR_INLINE_DENTRY = MAX_INLINE_DATA * 8 div ((11 + F2FS_SLOT_LEN) * 8 + 1)"
definition INLINE_DENTRY_BITMAP_SIZE :: nat where "INLINE_DENTRY_BITMAP_SIZE = (NR_INLINE_DENTRY + 8 - 1) div 8"

definition GET_DENTRY_SLOTS :: "nat \<Rightarrow> nat" where
  "GET_DENTRY_SLOTS x = (x + F2FS_SLOT_LEN - 1) div 8"

lemmas dentry_sizes = F2FS_SLOT_LEN_def NR_DENTRY_IN_BLOCK_def SIZE_OF_DENTRY_BITMAP_def MAX_INLINE_DATA_def
  NR_INLINE_DENTRY_def INLINE_DENTRY_BITMAP_SIZE_def

record f2fs_dir_entry =
  hash_code :: u32
  de_ino :: nat
  name_len :: nat
  file_type :: nat

text \<open>
  The block or the inline area as \<open>make_dentry_ptr\<close> presents it. \<open>d_max\<close> is the bound as the loops
  read it, converted to an unsigned number.
\<close>

record f2fs_dentry_ptr =
  d_bitmap :: bytemap
  d_dentry :: "f2fs_dir_entry list"
  d_filename :: "u8 list"
  d_max :: nat

definition zero_dir_entry :: f2fs_dir_entry where
  "zero_dir_entry = \<lparr>hash_code = 0, de_ino = 0, name_len = 0, file_type = 0\<rparr>"

definition empty_dentry_block :: f2fs_dentry_ptr where
  "empty_dentry_block =
     \<lparr>d_bitmap = replicate SIZE_OF_DENTRY_BITMAP 0, d_dentry = replicate NR_DENTRY_IN_BLOCK zero_dir_entry,
      d_filename = replicate (NR_DENTRY_IN_BLOCK * F2FS_SLOT_LEN) 0, d_max = NR_DENTRY_IN_BLOCK\<rparr>"

definition empty_inline_dentry :: f2fs_dentry_ptr where
  "empty_inline_dentry =
     \<lparr>d_bitmap = replicate INLINE_DENTRY_BITMAP_SIZE 0, d_dentry = replicate NR_INLINE_DENTRY zero_dir_entry,
      d_filename = replicate (NR_INLINE_DENTRY * F2FS_SLOT_LEN) 0, d_max = NR_INLINE_DENTRY\<rparr>"

definition f2fs_type_by_mode :: "nat list" where
  "f2fs_type_by_mode = [0, 5, 3, 0, 2, 0, 4, 0, 1, 0, 7, 0, 6, 0, 0]"

definition set_de_type :: "f2fs_dir_entry \<Rightarrow> nat \<Rightarrow> f2fs_dir_entry" where
  "set_de_type de mode = de\<lparr>file_type := f2fs_type_by_mode ! (mode div 2 ^ 12 mod 2 ^ 4)\<rparr>"

record f2fs_filename =
  disk_name :: "u8 list"
  fn_hash :: u32

subsection \<open>Bit searches of the kernel\<close>

definition next_bit_le :: "bytemap \<Rightarrow> nat \<Rightarrow> nat \<Rightarrow> nat" where
  "next_bit_le m sz i = first_from (\<lambda>j. test_bit_le j m) sz i"

definition next_zero_bit_le :: "bytemap \<Rightarrow> nat \<Rightarrow> nat \<Rightarrow> nat" where
  "next_zero_bit_le m sz i = first_from (\<lambda>j. \<not> test_bit_le j m) sz i"

definition set_bits_le :: "nat \<Rightarrow> nat \<Rightarrow> bytemap \<Rightarrow> bytemap" where
  "set_bits_le pos n m = fold (\<lambda>i m. snd (test_and_set_bit_le (pos + i) m)) [0..<n] m"

definition clear_bits_le :: "nat \<Rightarrow> nat \<Rightarrow> bytemap \<Rightarrow> bytemap" where
  "clear_bits_le pos n m = fold (\<lambda>i m. snd (test_and_clear_bit_le (pos + i) m)) [0..<n] m"

subsection \<open>Operations\<close>

definition de_name :: "f2fs_dentry_ptr \<Rightarrow> nat \<Rightarrow> u8 list" where
  "de_name d pos = take (name_len (d_dentry d ! pos)) (drop (pos * F2FS_SLOT_LEN) (d_filename d))"

definition dentry_matches :: "f2fs_filename \<Rightarrow> u32 \<Rightarrow> f2fs_dentry_ptr \<Rightarrow> nat \<Rightarrow> bool" where
  "dentry_matches fname namehash d pos =
     (let de = d_dentry d ! pos
      in if fn_hash fname \<noteq> 0 then hash_code de = fn_hash fname
         else name_len de = length (disk_name fname) \<and> hash_code de = namehash \<and> de_name d pos = disk_name fname)"

text \<open>
  The loop of \<open>find_target_dentry\<close>; the result is the position, if any, and the longest run of free
  slots that was passed. An entry of length zero makes the code set \<open>d->max\<close> to -1, which the
  comparison with the unsigned position reads as the largest number, and stay where it is.
\<close>

partial_function (option) find_dentry_loop ::
  "f2fs_filename \<Rightarrow> u32 \<Rightarrow> f2fs_dentry_ptr \<Rightarrow> nat \<Rightarrow> nat \<Rightarrow> nat \<Rightarrow> (nat option \<times> nat) option" where
  "find_dentry_loop fname namehash d bit_pos max_len max_slots =
     (if bit_pos < d_max d
      then if \<not> test_bit_le bit_pos (d_bitmap d)
           then find_dentry_loop fname namehash d (bit_pos + 1) (max_len + 1) max_slots
           else if dentry_matches fname namehash d bit_pos then Some (Some bit_pos, max max_slots max_len)
           else let de = d_dentry d ! bit_pos; d = (if name_len de = 0 then d\<lparr>d_max := 2 ^ 64 - 1\<rparr> else d)
                in find_dentry_loop fname namehash d (bit_pos + GET_DENTRY_SLOTS (name_len de)) 0 (max max_slots max_len)
      else Some (None, max max_slots max_len))"

definition find_target_dentry :: "f2fs_filename \<Rightarrow> u32 \<Rightarrow> f2fs_dentry_ptr \<Rightarrow> (nat option \<times> nat) option" where
  "find_target_dentry fname namehash d = find_dentry_loop fname namehash d 0 0 0"

function room_from :: "bytemap \<Rightarrow> nat \<Rightarrow> nat \<Rightarrow> nat \<Rightarrow> nat" where
  "room_from bitmap slots max_slots bit_start =
     (let zero_start = next_zero_bit_le bitmap max_slots bit_start
      in if zero_start \<ge> max_slots then max_slots
         else let zero_end = next_bit_le bitmap max_slots zero_start
              in if zero_end - zero_start \<ge> slots then zero_start
                 else if zero_end + 1 \<ge> max_slots then max_slots
                 else room_from bitmap slots max_slots (zero_end + 1))"
  by pat_completeness auto
termination
proof (relation "measure (\<lambda>(bitmap, slots, max_slots, bit_start). max_slots - bit_start)", goal_cases)
  case (2 bitmap slots max_slots bit_start zs ze)
  then have "bit_start < max_slots" by (cases "bit_start < max_slots") (auto simp: next_zero_bit_le_def)
  moreover have "bit_start \<le> zs" using 2 \<open>bit_start < max_slots\<close> by (simp add: next_zero_bit_le_def first_from_lower)
  moreover have "zs \<le> ze" using 2 by (simp add: next_bit_le_def first_from_lower)
  ultimately show ?case by auto
qed simp

declare room_from.simps [simp del]

definition room_for_filename :: "bytemap \<Rightarrow> nat \<Rightarrow> nat \<Rightarrow> nat" where
  "room_for_filename bitmap slots max_slots = room_from bitmap slots max_slots 0"

definition f2fs_update_dentry :: "nat \<Rightarrow> nat \<Rightarrow> f2fs_dentry_ptr \<Rightarrow> u8 list \<Rightarrow> u32 \<Rightarrow> nat \<Rightarrow> f2fs_dentry_ptr" where
  "f2fs_update_dentry ino mode d name name_hash bit_pos =
     (let slots = GET_DENTRY_SLOTS (length name);
          de = (d_dentry d ! bit_pos)\<lparr>hash_code := name_hash, name_len := length name, de_ino := ino\<rparr>
      in d\<lparr>d_dentry := (d_dentry d)[bit_pos := set_de_type de mode],
           d_filename := put_bytes (bit_pos * F2FS_SLOT_LEN) name (d_filename d),
           d_bitmap := set_bits_le bit_pos slots (d_bitmap d)\<rparr>)"

definition do_make_empty_dir :: "nat \<Rightarrow> nat \<Rightarrow> nat \<Rightarrow> nat \<Rightarrow> f2fs_dentry_ptr \<Rightarrow> f2fs_dentry_ptr" where
  "do_make_empty_dir ino mode parent_ino parent_mode d =
     (let de0 = set_de_type ((d_dentry d ! 0)\<lparr>name_len := 1, hash_code := 0, de_ino := ino\<rparr>) mode;
          de1 = set_de_type ((d_dentry d ! 1)\<lparr>hash_code := 0, name_len := 2, de_ino := parent_ino\<rparr>) parent_mode
      in d\<lparr>d_dentry := (d_dentry d)[0 := de0, 1 := de1],
           d_filename := put_bytes F2FS_SLOT_LEN [46, 46] (put_bytes 0 [46] (d_filename d)),
           d_bitmap := snd (test_and_set_bit_le 1 (snd (test_and_set_bit_le 0 (d_bitmap d))))\<rparr>)"

text \<open>Removing an entry only clears its bits; the flag says whether the block is empty then.\<close>

definition clear_dentry :: "f2fs_dentry_ptr \<Rightarrow> nat \<Rightarrow> f2fs_dentry_ptr" where
  "clear_dentry d bit_pos = d\<lparr>d_bitmap := clear_bits_le bit_pos (GET_DENTRY_SLOTS (name_len (d_dentry d ! bit_pos))) (d_bitmap d)\<rparr>"

definition dentry_block_empty :: "f2fs_dentry_ptr \<Rightarrow> nat \<Rightarrow> bool" where
  "dentry_block_empty d start = (next_bit_le (d_bitmap d) (d_max d) start \<ge> d_max d)"

text \<open>
  Listing: the entries from a position on, as \<open>dir_emit\<close> receives them (name, inode number, type).
  \<open>room\<close> is how many entries the caller takes; the flag says that it took no more, and the last result is
  the new position of the directory stream. An entry of length zero is emitted again and again until the caller stops.
\<close>

definition f2fs_filetype_table :: "nat list" where
  "f2fs_filetype_table = [0, 8, 4, 2, 6, 1, 12, 10]"

definition dentry_type :: "f2fs_dir_entry \<Rightarrow> nat" where
  "dentry_type de = (if file_type de < 8 then f2fs_filetype_table ! file_type de else 0)"

fun fill_dentries_loop ::
  "f2fs_dentry_ptr \<Rightarrow> nat \<Rightarrow> nat \<Rightarrow> nat \<Rightarrow> nat \<Rightarrow> (u8 list \<times> nat \<times> nat) list \<times> bool \<times> nat" where
  "fill_dentries_loop d start_pos room bit_pos ctx_pos =
     (let bit_pos = (if bit_pos < d_max d then next_bit_le (d_bitmap d) (d_max d) bit_pos else bit_pos)
      in if bit_pos \<ge> d_max d then ([], False, ctx_pos)
         else case room of 0 \<Rightarrow> ([], True, ctx_pos)
              | Suc room \<Rightarrow>
                  let de = d_dentry d ! bit_pos; nxt = bit_pos + GET_DENTRY_SLOTS (name_len de);
                      (es, full, ctx_pos) = fill_dentries_loop d start_pos room nxt (start_pos + nxt)
                  in ((de_name d bit_pos, de_ino de, dentry_type de) # es, full, ctx_pos))"

declare fill_dentries_loop.simps [simp del]

definition f2fs_fill_dentries ::
  "f2fs_dentry_ptr \<Rightarrow> nat \<Rightarrow> nat \<Rightarrow> nat \<Rightarrow> (u8 list \<times> nat \<times> nat) list \<times> bool \<times> nat" where
  "f2fs_fill_dentries d start_pos room ctx_pos = fill_dentries_loop d start_pos room (ctx_pos mod d_max d) ctx_pos"

text \<open>The copy of the inline area into the first block of the directory.\<close>

definition convert_inline_dentries :: "f2fs_dentry_ptr \<Rightarrow> f2fs_dentry_ptr" where
  "convert_inline_dentries i =
     empty_dentry_block\<lparr>
       d_bitmap := take INLINE_DENTRY_BITMAP_SIZE (d_bitmap i) @ drop INLINE_DENTRY_BITMAP_SIZE (d_bitmap empty_dentry_block),
       d_dentry := take NR_INLINE_DENTRY (d_dentry i) @ drop NR_INLINE_DENTRY (d_dentry empty_dentry_block),
       d_filename := put_bytes 0 (take (NR_INLINE_DENTRY * F2FS_SLOT_LEN) (d_filename i)) (d_filename empty_dentry_block)\<rparr>"

end
