(* ===== verification/Dentry_Correct.thy ===== *)
theory Dentry_Correct
  imports Dentry
begin

section \<open>Correctness of the operations on directory entry blocks\<close>

text \<open>
  A well-formed block is described by the list of the positions of its entries: their slots are
  disjoint and are exactly the set bits. Search returns the first match, search for room the first
  free run that is long enough, insertion adds one entry and changes no other, deletion removes one.
\<close>

subsection \<open>Layout\<close>

definition slots_at :: "f2fs_dentry_ptr \<Rightarrow> nat \<Rightarrow> nat" where
  "slots_at d p = GET_DENTRY_SLOTS (name_len (d_dentry d ! p))"

definition dims_ok :: "f2fs_dentry_ptr \<Rightarrow> bool" where
  "dims_ok d \<longleftrightarrow> d_max d \<le> 8 * length (d_bitmap d) \<and> length (d_dentry d) = d_max d \<and> length (d_filename d) = d_max d * 8
     \<and> d_max d < 2 ^ 32"

definition layout :: "f2fs_dentry_ptr \<Rightarrow> nat list \<Rightarrow> bool" where
  "layout d ps \<longleftrightarrow> dims_ok d \<and> sorted_wrt (\<lambda>p q. p + slots_at d p \<le> q) ps
     \<and> (\<forall>p \<in> set ps. 0 < name_len (d_dentry d ! p) \<and> p + slots_at d p \<le> d_max d)
     \<and> (\<forall>i < d_max d. test_bit_le i (d_bitmap d) \<longleftrightarrow> (\<exists>p \<in> set ps. p \<le> i \<and> i < p + slots_at d p))"

lemma slots_pos: "0 < n \<Longrightarrow> 0 < GET_DENTRY_SLOTS n" "n \<le> 8 * GET_DENTRY_SLOTS n"
  by (auto simp: GET_DENTRY_SLOTS_def F2FS_SLOT_LEN_def)

lemma layoutD:
  assumes "layout d ps" "p \<in> set ps"
  shows "0 < name_len (d_dentry d ! p)" "0 < slots_at d p" "p + slots_at d p \<le> d_max d" "p < d_max d"
    "p \<le> i \<Longrightarrow> i < p + slots_at d p \<Longrightarrow> test_bit_le i (d_bitmap d)" "name_len (d_dentry d ! p) \<le> 8 * slots_at d p"
proof -
  show n: "0 < name_len (d_dentry d ! p)" and s: "p + slots_at d p \<le> d_max d" using assms by (auto simp: layout_def)
  show p: "0 < slots_at d p" using slots_pos(1) [OF n] by (simp add: slots_at_def)
  show "p < d_max d" using s p by simp
  show "test_bit_le i (d_bitmap d)" if "p \<le> i" "i < p + slots_at d p"
  proof -
    have "i < d_max d" using that s by simp
    then show ?thesis using assms that unfolding layout_def by blast
  qed
  show "name_len (d_dentry d ! p) \<le> 8 * slots_at d p" using slots_pos(2) by (simp add: slots_at_def)
qed

text \<open>The positions, computed.\<close>

function walk :: "f2fs_dentry_ptr \<Rightarrow> nat \<Rightarrow> nat list" where
  "walk d p =
     (if p < d_max d
      then if test_bit_le p (d_bitmap d) then p # walk d (p + max 1 (slots_at d p)) else walk d (p + 1)
      else [])"
  by pat_completeness auto
termination
  by (relation "measure (\<lambda>(d, p). d_max d - p)") auto

declare walk.simps [simp del]

definition block_ok :: "f2fs_dentry_ptr \<Rightarrow> bool" where
  "block_ok d \<longleftrightarrow> layout d (walk d 0)"

definition dents :: "f2fs_dentry_ptr \<Rightarrow> (u8 list \<times> f2fs_dir_entry) set" where
  "dents d = (\<lambda>p. (de_name d p, d_dentry d ! p)) ` set (walk d 0)"

text \<open>A place in the walk: \<open>as\<close> is done and \<open>bs\<close> is ahead.\<close>

definition at_place :: "f2fs_dentry_ptr \<Rightarrow> nat \<Rightarrow> nat list \<Rightarrow> nat list \<Rightarrow> bool" where
  "at_place d pos as bs \<longleftrightarrow> (\<forall>p \<in> set as. p + slots_at d p \<le> pos) \<and> (\<forall>p \<in> set bs. pos \<le> p)"

lemma place_cases:
  assumes l: "layout d (as @ bs)" and w: "at_place d pos as bs" and p: "pos < d_max d"
  obtains (free) "\<not> test_bit_le pos (d_bitmap d)" "at_place d (pos + 1) as bs"
    | (entry) cs where "test_bit_le pos (d_bitmap d)" "bs = pos # cs" "at_place d (pos + slots_at d pos) (as @ [pos]) cs"
        "0 < slots_at d pos" "0 < name_len (d_dentry d ! pos)" "pos + slots_at d pos \<le> d_max d"
proof (cases "test_bit_le pos (d_bitmap d)")
  case False
  have "pos + 1 \<le> q" if "q \<in> set bs" for q
  proof -
    have "pos \<le> q" using that w by (simp add: at_place_def)
    moreover have "q \<noteq> pos" using False layoutD(2) [OF l, of q] layoutD(5) [OF l, of q q] that by auto
    ultimately show ?thesis by simp
  qed
  moreover have "p + slots_at d p \<le> pos + 1" if "p \<in> set as" for p using that w by (simp add: at_place_def le_SucI)
  ultimately show ?thesis using free False by (simp add: at_place_def)
next
  case True
  then obtain q where q: "q \<in> set (as @ bs)" "q \<le> pos" "pos < q + slots_at d q" using l p by (auto simp: layout_def)
  then have "q \<in> set bs" "q = pos" using w by (auto simp: at_place_def)
  moreover have "hd bs = pos"
  proof (cases bs)
    case (Cons b cs)
    have "b \<le> pos" using Cons \<open>q \<in> set bs\<close> \<open>q = pos\<close> l layoutD(2) [OF l, of b] by (auto simp: layout_def sorted_wrt_append)
    moreover have "pos \<le> b" using w Cons by (simp add: at_place_def)
    ultimately show ?thesis using Cons by simp
  qed (use \<open>q \<in> set bs\<close> in simp)
  ultimately obtain cs where bs: "bs = pos # cs" by (cases bs) auto
  have pin: "pos \<in> set (as @ bs)" using bs by simp
  have "at_place d (pos + slots_at d pos) (as @ [pos]) cs"
    using l w bs by (auto simp: at_place_def layout_def sorted_wrt_append intro: trans_le_add1)
  then show ?thesis using entry True bs layoutD [OF l pin] by blast
qed

lemma walk_place: "layout d (as @ bs) \<Longrightarrow> at_place d pos as bs \<Longrightarrow> walk d pos = bs"
proof (induction d pos arbitrary: as bs rule: walk.induct)
  case (1 d pos)
  show ?case
  proof (cases "pos < d_max d")
    case True
    show ?thesis using "1.prems" True
    proof (cases rule: place_cases)
      case free
      then show ?thesis using "1.IH"(2) [OF True _ "1.prems"(1)] True by (simp add: walk.simps [of d pos])
    next
      case (entry cs)
      then show ?thesis using "1.IH"(1) [OF True _ , of "as @ [pos]" cs] "1.prems"(1) True
        by (simp add: walk.simps [of d pos] max_def Suc_le_eq)
    qed
  next
    case False
    have "bs = []"
    proof (rule ccontr)
      assume "bs \<noteq> []"
      then have "hd bs \<in> set (as @ bs)" "pos \<le> hd bs" using "1.prems"(2) by (auto simp: at_place_def)
      with layoutD(4) [OF "1.prems"(1)] False show False by fastforce
    qed
    with False show ?thesis by (simp add: walk.simps [of d pos])
  qed
qed

lemma layout_walk: "layout d ps \<Longrightarrow> walk d 0 = ps"
  using walk_place [of d "[]" ps 0] by (simp add: at_place_def)

lemma block_okI: "layout d ps \<Longrightarrow> block_ok d"
  using layout_walk by (simp add: block_ok_def)

subsection \<open>Search\<close>

lemma find_dentry_loop_place:
  "layout d (as @ bs) \<Longrightarrow> at_place d pos as bs \<Longrightarrow>
     \<exists>m'. find_dentry_loop fname h d pos ml ms = Some (find (dentry_matches fname h d) bs, m')"
proof (induction d pos arbitrary: as bs ml ms rule: walk.induct)
  case (1 d pos)
  show ?case
  proof (cases "pos < d_max d")
    case True
    show ?thesis using "1.prems" True
    proof (cases rule: place_cases)
      case free
      then show ?thesis using "1.IH"(2) [OF True _ "1.prems"(1)] True by (simp add: find_dentry_loop.simps [of fname h d pos])
    next
      case (entry cs)
      have "\<exists>m'. find_dentry_loop fname h d (pos + slots_at d pos) ml ms = Some (find (dentry_matches fname h d) cs, m')" for ml ms
        using "1.IH"(1) [OF True entry(1), of "as @ [pos]" cs] "1.prems"(1) entry by (simp add: max_def Suc_le_eq)
      then show ?thesis using True entry
        by (simp add: find_dentry_loop.simps [of fname h d pos] slots_at_def [symmetric])
    qed
  next
    case False
    have "bs = []" using walk_place [OF "1.prems"] False by (simp add: walk.simps [of d pos])
    with False show ?thesis by (simp add: find_dentry_loop.simps [of fname h d pos])
  qed
qed

lemma find_target_dentry_layout:
  "layout d ps \<Longrightarrow> \<exists>m. find_target_dentry fname h d = Some (find (dentry_matches fname h d) ps, m)"
  unfolding find_target_dentry_def by (rule find_dentry_loop_place [of d "[]"]) (simp_all add: at_place_def)

subsection \<open>Search for room\<close>

definition free_run :: "bytemap \<Rightarrow> nat \<Rightarrow> nat \<Rightarrow> nat \<Rightarrow> bool" where
  "free_run m mx q n \<longleftrightarrow> q + n \<le> mx \<and> (\<forall>i. q \<le> i \<and> i < q + n \<longrightarrow> \<not> test_bit_le i m)"

lemma room_from_spec:
  assumes "0 < n" "st \<le> mx"
  shows "if room_from m n mx st < mx
    then st \<le> room_from m n mx st \<and> free_run m mx (room_from m n mx st) n \<and> (\<forall>q. st \<le> q \<and> q < room_from m n mx st \<longrightarrow> \<not> free_run m mx q n)
    else room_from m n mx st = mx \<and> (\<forall>q \<ge> st. \<not> free_run m mx q n)"
  using assms
proof (induction m n mx st rule: room_from.induct)
  case (1 m n mx st)
  define zs ze where "zs = next_zero_bit_le m mx st" and "ze = next_bit_le m mx zs"
  have z: "st \<le> zs" "zs \<le> mx" "\<And>j. st \<le> j \<Longrightarrow> j < zs \<Longrightarrow> test_bit_le j m" "zs < mx \<Longrightarrow> \<not> test_bit_le zs m"
    using 1(3) first_from_skips [of st _ "\<lambda>j. \<not> test_bit_le j m" mx] first_from_sat [of "\<lambda>j. \<not> test_bit_le j m" mx st]
    by (auto simp: zs_def next_zero_bit_le_def first_from_lower first_from_le)
  have e: "zs \<le> ze" "ze \<le> mx" "\<And>j. zs \<le> j \<Longrightarrow> j < ze \<Longrightarrow> \<not> test_bit_le j m" "ze < mx \<Longrightarrow> test_bit_le ze m"
    using z(2) first_from_skips [of zs _ "\<lambda>j. test_bit_le j m" mx] first_from_sat [of "\<lambda>j. test_bit_le j m" mx zs]
    by (auto simp: ze_def next_bit_le_def first_from_lower first_from_le)
  have before: "\<not> free_run m mx q n" if "st \<le> q" "q < zs" for q
    using that z(3) [of q] 1(2) by (auto simp: free_run_def)
  have u: "room_from m n mx st = (if zs \<ge> mx then mx else if ze - zs \<ge> n then zs else if ze + 1 \<ge> mx then mx else room_from m n mx (ze + 1))"
    by (simp add: room_from.simps [of m n mx st] zs_def [symmetric] ze_def [symmetric] Let_def)
  have short: "\<not> free_run m mx q n" if "ze - zs < n" "zs \<le> q" "q \<le> ze" for q
  proof
    assume f: "free_run m mx q n"
    then have "ze < q + n" "q + n \<le> mx" using that by (auto simp: free_run_def)
    then have "test_bit_le ze m" using e(4) by simp
    with f that \<open>ze < q + n\<close> show False by (auto simp: free_run_def)
  qed
  consider "zs \<ge> mx" | "zs < mx" "ze - zs \<ge> n" | "zs < mx" "ze - zs < n" "ze + 1 \<ge> mx" | "zs < mx" "ze - zs < n" "ze + 1 < mx" by linarith
  then show ?case
  proof cases
    case 1
    have "\<not> free_run m mx q n" if "q \<ge> st" for q
      using before [OF that] 1 z(2) \<open>0 < n\<close> by (cases "q < zs") (auto simp: free_run_def)
    then show ?thesis using 1 by (simp add: u)
  next
    case 2
    have "free_run m mx zs n" using 2 e by (auto simp: free_run_def)
    then show ?thesis using 2 z(1) before by (simp add: u)
  next
    case 3
    have "\<not> free_run m mx q n" if "q \<ge> st" for q
      using before [OF that] short [OF 3(2), of q] 3(3) e(2) \<open>0 < n\<close> by (cases "q < zs"; cases "q \<le> ze") (auto simp: free_run_def)
    then show ?thesis using 3 by (simp add: u)
  next
    case 4
    have gap: "\<not> free_run m mx q n" if "q \<ge> st" "q < ze + 1" for q
      using before [OF that(1)] short [OF 4(2), of q] that(2) by (cases "q < zs") auto
    have "zs = next_zero_bit_le m mx st" "ze = next_bit_le m mx zs" by (simp_all add: zs_def ze_def)
    note ih = "1.IH" [OF this(1) _ this(2) _ _ \<open>0 < n\<close>]
    have r: "room_from m n mx st = room_from m n mx (ze + 1)" using 4 by (simp add: u)
    have split: "q < ze + 1 \<or> ze + 1 \<le> q" for q by linarith
    show ?thesis
    proof (cases "room_from m n mx (ze + 1) < mx")
      case True
      then have "ze + 1 \<le> room_from m n mx (ze + 1)" "free_run m mx (room_from m n mx (ze + 1)) n"
          "\<forall>q. ze + 1 \<le> q \<and> q < room_from m n mx (ze + 1) \<longrightarrow> \<not> free_run m mx q n"
        using ih 4 by simp_all
      then show ?thesis unfolding r using True gap split z(1) e(1) by (metis le_trans le_add1)
    next
      case False
      then have "room_from m n mx (ze + 1) = mx" "\<forall>q \<ge> ze + 1. \<not> free_run m mx q n" using ih 4 by simp_all
      then show ?thesis unfolding r using gap split by auto
    qed
  qed
qed

lemma room_for_filename_spec:
  assumes "0 < n"
  shows "if room_for_filename m n mx < mx
    then free_run m mx (room_for_filename m n mx) n \<and> (\<forall>q < room_for_filename m n mx. \<not> free_run m mx q n)
    else room_for_filename m n mx = mx \<and> (\<forall>q. \<not> free_run m mx q n)"
  using room_from_spec [OF assms, of 0 mx m] by (simp add: room_for_filename_def)

subsection \<open>Insertion and deletion\<close>

lemma length_bits_le [simp]: "length (set_bits_le pos n m) = length m" "length (clear_bits_le pos n m) = length m"
  by (induction n) (simp_all add: set_bits_le_def clear_bits_le_def)

lemma test_set_bits_le:
  "pos + n \<le> 8 * length m \<Longrightarrow> test_bit_le j (set_bits_le pos n m) \<longleftrightarrow> pos \<le> j \<and> j < pos + n \<or> test_bit_le j m"
proof (induction n)
  case (Suc n)
  have "set_bits_le pos (Suc n) m = snd (test_and_set_bit_le (pos + n) (set_bits_le pos n m))" by (simp add: set_bits_le_def)
  then have "test_bit_le j (set_bits_le pos (Suc n) m) \<longleftrightarrow> j = pos + n \<or> test_bit_le j (set_bits_le pos n m)"
    using Suc.prems by (simp add: test_bit_le_set)
  then show ?case using Suc by auto
qed (auto simp: set_bits_le_def)

lemma test_clear_bits_le:
  "pos + n \<le> 8 * length m \<Longrightarrow> test_bit_le j (clear_bits_le pos n m) \<longleftrightarrow> \<not> (pos \<le> j \<and> j < pos + n) \<and> test_bit_le j m"
proof (induction n)
  case (Suc n)
  have "clear_bits_le pos (Suc n) m = snd (test_and_clear_bit_le (pos + n) (clear_bits_le pos n m))" by (simp add: clear_bits_le_def)
  then have "test_bit_le j (clear_bits_le pos (Suc n) m) \<longleftrightarrow> j \<noteq> pos + n \<and> test_bit_le j (clear_bits_le pos n m)"
    using Suc.prems by (simp add: test_bit_le_clear)
  then show ?case using Suc by auto
qed (auto simp: clear_bits_le_def)

text \<open>The entries in the order of their positions, with the place of a new one.\<close>

lemma layout_split:
  assumes l: "layout d ps" and f: "free_run (d_bitmap d) (d_max d) pos n" "0 < n"
  obtains as bs where "ps = as @ bs" "\<forall>p \<in> set as. p + slots_at d p \<le> pos" "\<forall>p \<in> set bs. pos + n \<le> p" "pos \<notin> set ps"
proof -
  have apart: "p + slots_at d p \<le> pos \<or> pos + n \<le> p" if "p \<in> set ps" for p
  proof (rule ccontr)
    assume "\<not> ?thesis"
    then have c: "max p pos < p + slots_at d p" "max p pos < pos + n" using layoutD(2) [OF l that] \<open>0 < n\<close> by auto
    have "test_bit_le (max p pos) (d_bitmap d)" using layoutD(5) [OF l that _ c(1)] by simp
    moreover have "\<not> test_bit_le (max p pos) (d_bitmap d)" using f(1) c(2) unfolding free_run_def by simp
    ultimately show False by simp
  qed
  define as bs where "as = takeWhile (\<lambda>p. p < pos) ps" and "bs = dropWhile (\<lambda>p. p < pos) ps"
  have ps: "ps = as @ bs" by (simp add: as_def bs_def)
  have "p + slots_at d p \<le> pos" if "p \<in> set as" for p
    using apart [of p] that set_takeWhileD [of p "\<lambda>p. p < pos" ps] by (auto simp: as_def)
  moreover have "pos + n \<le> q" if q: "q \<in> set bs" for q
  proof -
    obtain b cs where b: "bs = b # cs" using q by (cases bs) auto
    have "\<not> b < pos" using b hd_dropWhile [of "\<lambda>p. p < pos" ps] unfolding bs_def by (metis list.discI list.sel(1))
    moreover have "b \<le> q"
      using q b l ps by (auto simp: layout_def sorted_wrt_append intro: add_leD1)
    ultimately have "pos \<le> q" by simp
    moreover have "q \<in> set ps" using q ps by simp
    ultimately show ?thesis using apart [of q] layoutD(2) [OF l, of q] by auto
  qed
  moreover have "pos \<notin> set ps" using apart [of pos] layoutD(2) [OF l, of pos] \<open>0 < n\<close> by fastforce
  ultimately show ?thesis using that ps by blast
qed

definition new_dentry :: "f2fs_dentry_ptr \<Rightarrow> nat \<Rightarrow> nat \<Rightarrow> nat \<Rightarrow> u8 list \<Rightarrow> u32 \<Rightarrow> f2fs_dir_entry" where
  "new_dentry d pos ino mode name h = set_de_type ((d_dentry d ! pos)\<lparr>hash_code := h, name_len := length name, de_ino := ino\<rparr>) mode"

lemma new_dentry_fields [simp]:
  "hash_code (new_dentry d pos ino mode name h) = h" "name_len (new_dentry d pos ino mode name h) = length name"
  "de_ino (new_dentry d pos ino mode name h) = ino"
  by (simp_all add: new_dentry_def set_de_type_def)

lemma update_dentry_layout:
  fixes ino mode :: nat and h :: u32
  assumes l: "layout d ps" and f: "free_run (d_bitmap d) (d_max d) pos (GET_DENTRY_SLOTS (length name))" and n: "name \<noteq> []"
  defines "d' \<equiv> f2fs_update_dentry ino mode d name h pos"
  obtains ps' where "layout d' ps'" "set ps' = insert pos (set ps)" "pos \<notin> set ps"
    "d_dentry d' ! pos = new_dentry d pos ino mode name h" "de_name d' pos = name"
    "\<forall>p \<in> set ps. d_dentry d' ! p = d_dentry d ! p \<and> de_name d' p = de_name d p" "d_max d' = d_max d"
proof -
  let ?n = "GET_DENTRY_SLOTS (length name)"
  have n0: "0 < ?n" using n slots_pos(1) by simp
  obtain as bs where s: "ps = as @ bs" "\<forall>p \<in> set as. p + slots_at d p \<le> pos" "\<forall>p \<in> set bs. pos + ?n \<le> p" "pos \<notin> set ps"
    using layout_split [OF l f n0] by blast
  have dims: "d_max d \<le> 8 * length (d_bitmap d)" "length (d_dentry d) = d_max d" "length (d_filename d) = d_max d * 8"
    using l by (auto simp: layout_def dims_ok_def)
  have fit: "pos + ?n \<le> d_max d" "pos < d_max d" using f n0 by (auto simp: free_run_def)
  have nm: "pos * 8 + length name \<le> length (d_filename d)" "length name \<le> 8 * ?n"
    using fit dims slots_pos(2) [of "length name"] by auto
  have fields: "d_max d' = d_max d" "d_bitmap d' = set_bits_le pos ?n (d_bitmap d)"
      "d_dentry d' = (d_dentry d)[pos := new_dentry d pos ino mode name h]" "d_filename d' = put_bytes (pos * 8) name (d_filename d)"
    by (simp_all add: d'_def f2fs_update_dentry_def Let_def new_dentry_def F2FS_SLOT_LEN_def)
  have bits: "length (d_bitmap d') = length (d_bitmap d)"
      "test_bit_le j (d_bitmap d') \<longleftrightarrow> pos \<le> j \<and> j < pos + ?n \<or> test_bit_le j (d_bitmap d)" for j
    using test_set_bits_le [of pos ?n "d_bitmap d"] fit dims by (simp_all add: fields)
  have here: "d_dentry d' ! pos = new_dentry d pos ino mode name h" using fit dims by (simp add: fields)
  have others: "d_dentry d' ! p = d_dentry d ! p" if "p \<in> set ps" for p 
    using that s(4) by (cases "p = pos") (simp_all add: fields)
  have sl: "slots_at d' pos = ?n" "\<And>p. p \<in> set ps \<Longrightarrow> slots_at d' p = slots_at d p"
    using here others by (simp_all add: slots_at_def)
  have sas: "slots_at d' p = slots_at d p" if "p \<in> set as \<or> p \<in> set bs" for p using sl(2) that s(1) by auto
  have dims': "dims_ok d'" using l bits(1) length_put_bytes [OF nm(1)] by (simp add: layout_def dims_ok_def fields)
  have w: "sorted_wrt (\<lambda>p q. p + slots_at d p \<le> q) as" "sorted_wrt (\<lambda>p q. p + slots_at d p \<le> q) bs"
      "\<forall>p \<in> set as. \<forall>q \<in> set bs. p + slots_at d p \<le> q"
    using l s(1) by (auto simp: layout_def sorted_wrt_append)
  have "sorted_wrt (\<lambda>p q. p + slots_at d' p \<le> q) as" "sorted_wrt (\<lambda>p q. p + slots_at d' p \<le> q) bs"
    using w(1,2) sas by (auto elim!: sorted_wrt_mono_rel [rotated])
  then have "sorted_wrt (\<lambda>p q. p + slots_at d' p \<le> q) (as @ pos # bs)"
    using s(2,3) w(3) by (auto simp: sorted_wrt_append sas sl(1))
  moreover have "0 < name_len (d_dentry d' ! p) \<and> p + slots_at d' p \<le> d_max d'" if p: "p \<in> set (as @ pos # bs)" for p
  proof (cases "p = pos")
    case True
    then show ?thesis using fit n by (simp add: here sl fields(1))
  next
    case False
    then have "p \<in> set ps" using p s(1) by auto
    then show ?thesis using layoutD [OF l, of p] others sl(2) by (simp add: fields(1))
  qed
  moreover have "test_bit_le i (d_bitmap d') \<longleftrightarrow> (\<exists>p \<in> set (as @ pos # bs). p \<le> i \<and> i < p + slots_at d' p)" if "i < d_max d'" for i
  proof -
    have "test_bit_le i (d_bitmap d) \<longleftrightarrow> (\<exists>p \<in> set ps. p \<le> i \<and> i < p + slots_at d p)" using l that by (simp add: layout_def fields(1))
    then show ?thesis using sl s(1) by (auto simp: bits)
  qed
  ultimately have "layout d' (as @ pos # bs)" using dims' unfolding layout_def by blast
  moreover have "de_name d' pos = name" using put_bytes_here [OF nm(1)] by (simp add: de_name_def here fields(4) F2FS_SLOT_LEN_def)
  moreover have "de_name d' p = de_name d p" if p: "p \<in> set ps" for p
  proof -
    have "p * 8 + name_len (d_dentry d ! p) \<le> pos * 8 \<or> pos * 8 + length name \<le> p * 8"
      using s p layoutD(6) [OF l p] nm(2) by fastforce
    then show ?thesis using put_bytes_other [OF nm(1)] others [OF p] by (simp add: de_name_def fields(4) F2FS_SLOT_LEN_def)
  qed
  moreover have "set (as @ pos # bs) = insert pos (set ps)" using s(1) by auto
  ultimately show ?thesis using that s(4) here others fields(1) by blast
qed

lemma clear_dentry_layout:
  assumes l: "layout d (as @ p # bs)"
  shows "layout (clear_dentry d p) (as @ bs)"
    "d_dentry (clear_dentry d p) = d_dentry d" "de_name (clear_dentry d p) q = de_name d q" "d_max (clear_dentry d p) = d_max d"
proof -
  show s: "d_dentry (clear_dentry d p) = d_dentry d" "de_name (clear_dentry d p) q = de_name d q" "d_max (clear_dentry d p) = d_max d" for q
    by (simp_all add: clear_dentry_def de_name_def)
  have fl: "d_filename (clear_dentry d p) = d_filename d" by (simp add: clear_dentry_def)
  have sl: "slots_at (clear_dentry d p) = slots_at d" by (simp add: slots_at_def s fun_eq_iff)
  have pin: "p \<in> set (as @ p # bs)" by simp
  have "p + slots_at d p \<le> 8 * length (d_bitmap d)" using layoutD(3) [OF l pin] l by (auto simp: layout_def dims_ok_def)
  then have b: "length (d_bitmap (clear_dentry d p)) = length (d_bitmap d)"
      "test_bit_le j (d_bitmap (clear_dentry d p)) \<longleftrightarrow> \<not> (p \<le> j \<and> j < p + slots_at d p) \<and> test_bit_le j (d_bitmap d)" for j
    using test_clear_bits_le [of p "slots_at d p" "d_bitmap d"] by (simp_all add: clear_dentry_def slots_at_def)
  have w: "sorted_wrt (\<lambda>p q. p + slots_at d p \<le> q) (as @ bs)" "\<forall>q \<in> set as. q + slots_at d q \<le> p" "\<forall>q \<in> set bs. p + slots_at d p \<le> q"
    using l by (auto simp: layout_def sorted_wrt_append)
  have "test_bit_le i (d_bitmap (clear_dentry d p)) \<longleftrightarrow> (\<exists>q \<in> set (as @ bs). q \<le> i \<and> i < q + slots_at d q)" if "i < d_max d" for i
  proof -
    have e: "test_bit_le i (d_bitmap d) \<longleftrightarrow> (\<exists>q \<in> set (as @ p # bs). q \<le> i \<and> i < q + slots_at d q)" using l that by (simp add: layout_def)
    have "\<not> (p \<le> i \<and> i < p + slots_at d p)" if "q \<in> set (as @ bs)" "q \<le> i" "i < q + slots_at d q" for q
      using that w(2,3) by (auto dest: bspec)
    then show ?thesis unfolding b e by auto
  qed
  then show "layout (clear_dentry d p) (as @ bs)"
    using l w(1) by (auto simp: layout_def dims_ok_def s sl b(1) fl)
qed

lemma layout_empty:
  assumes "dims_ok d"
  shows "layout d [] \<longleftrightarrow> (\<forall>i < d_max d. \<not> test_bit_le i (d_bitmap d))"
  using assms by (auto simp: layout_def)

lemma test_bit_le_zeros: "i < 8 * n \<Longrightarrow> \<not> test_bit_le i (replicate n 0)"
  by (simp add: test_bit_le_bit div8_lt)

lemma layout_empty_dentry_block: "layout empty_dentry_block []"
proof -
  have "dims_ok empty_dentry_block" by (simp add: dims_ok_def empty_dentry_block_def dentry_sizes)
  then show ?thesis by (simp add: layout_empty) (simp add: empty_dentry_block_def dentry_sizes test_bit_le_zeros)
qed

lemma dentry_block_empty_iff:
  assumes "layout d ps"
  shows "dentry_block_empty d k \<longleftrightarrow> (\<forall>p \<in> set ps. p + slots_at d p \<le> k)"
proof -
  have "dentry_block_empty d k \<longleftrightarrow> (\<forall>j. k \<le> j \<and> j < d_max d \<longrightarrow> \<not> test_bit_le j (d_bitmap d))"
    using first_from_eq_size_iff [of "\<lambda>j. test_bit_le j (d_bitmap d)" "d_max d" k] first_from_le [of "\<lambda>j. test_bit_le j (d_bitmap d)" "d_max d" k]
    unfolding dentry_block_empty_def next_bit_le_def by (metis le_antisym order_refl)
  also have "\<dots> \<longleftrightarrow> (\<forall>p \<in> set ps. p + slots_at d p \<le> k)"
  proof (intro iffI ballI allI impI)
    fix p assume a: "\<forall>j. k \<le> j \<and> j < d_max d \<longrightarrow> \<not> test_bit_le j (d_bitmap d)" "p \<in> set ps"
    show "p + slots_at d p \<le> k"
    proof (rule ccontr)
      assume "\<not> ?thesis"
      then have "max p k < p + slots_at d p" using layoutD(2) [OF assms a(2)] by auto
      moreover from this have "max p k < d_max d" using layoutD(3) [OF assms a(2)] by linarith
      ultimately show False using a(1) layoutD(5) [OF assms a(2), of "max p k"] by simp
    qed
  next
    fix j assume a: "\<forall>p \<in> set ps. p + slots_at d p \<le> k" "k \<le> j \<and> j < d_max d"
    then show "\<not> test_bit_le j (d_bitmap d)" using assms by (fastforce simp: layout_def)
  qed
  finally show ?thesis .
qed

subsection \<open>Listing\<close>

definition listed :: "f2fs_dentry_ptr \<Rightarrow> nat \<Rightarrow> u8 list \<times> nat \<times> nat" where
  "listed d p = (de_name d p, de_ino (d_dentry d ! p), dentry_type (d_dentry d ! p))"

lemma next_bit_place:
  assumes l: "layout d (as @ bs)" and w: "at_place d pos as bs"
  shows "(if pos < d_max d then next_bit_le (d_bitmap d) (d_max d) pos else pos) \<ge> d_max d \<longleftrightarrow> bs = []"
    "bs = b # cs \<Longrightarrow> pos < d_max d \<and> next_bit_le (d_bitmap d) (d_max d) pos = b"
proof -
  have first: "pos < d_max d \<and> next_bit_le (d_bitmap d) (d_max d) pos = b" if "bs = b # cs" for b cs
  proof
    have b: "b \<in> set (as @ bs)" "pos \<le> b" using that w by (auto simp: at_place_def)
    show "pos < d_max d" using layoutD(4) [OF l b(1)] b(2) by simp
    have "\<not> test_bit_le j (d_bitmap d)" if j: "pos \<le> j" "j < b" for j
    proof
      assume "test_bit_le j (d_bitmap d)"
      moreover have "j < d_max d" using j layoutD(4) [OF l b(1)] by simp
      ultimately obtain q where q: "q \<in> set (as @ bs)" "q \<le> j" "j < q + slots_at d q" using l by (auto simp: layout_def)
      have "q \<notin> set as" using q w j by (auto simp: at_place_def)
      then have "b \<le> q" using q l \<open>bs = b # cs\<close> by (auto simp: layout_def sorted_wrt_append)
      then show False using q j by simp
    qed
    then show "next_bit_le (d_bitmap d) (d_max d) pos = b"
      using b layoutD(2,4) [OF l b(1)] layoutD(5) [OF l b(1), of b]
      unfolding next_bit_le_def by (intro first_from_unique) auto
  qed
  then show "bs = b # cs \<Longrightarrow> pos < d_max d \<and> next_bit_le (d_bitmap d) (d_max d) pos = b" .
  show "(if pos < d_max d then next_bit_le (d_bitmap d) (d_max d) pos else pos) \<ge> d_max d \<longleftrightarrow> bs = []"
  proof (cases bs)
    case Nil
    have "\<not> test_bit_le j (d_bitmap d)" if "pos \<le> j" "j < d_max d" for j
      using that l w Nil by (fastforce simp: layout_def at_place_def)
    then have "next_bit_le (d_bitmap d) (d_max d) pos = d_max d"
      unfolding next_bit_le_def first_from_eq_size_iff by blast
    then show ?thesis using Nil by simp
  next
    case (Cons b cs)
    then show ?thesis using first [OF Cons] layoutD(4) [OF l, of b] by simp
  qed
qed

lemma fill_dentries_loop_place:
  "layout d (as @ bs) \<Longrightarrow> at_place d pos as bs \<Longrightarrow>
     \<exists>c'. fill_dentries_loop d sp room pos c = (map (listed d) (take room bs), room < length bs, c') \<and>
       (c' = c \<and> (room = 0 \<or> bs = []) \<or>
        (\<exists>cs b es. take room bs = cs @ [b] \<and> c' = sp + b + slots_at d b))"
proof (induction room arbitrary: pos as bs c)
  case 0
  then show ?case using next_bit_place [OF 0] by (cases bs) (simp_all add: fill_dentries_loop.simps [of d sp 0])
next
  case (Suc room)
  note n = next_bit_place [OF Suc.prems]
  show ?case
  proof (cases bs)
    case Nil
    then show ?thesis using n by (simp add: fill_dentries_loop.simps [of d sp "Suc room"])
  next
    case (Cons b cs)
    have l: "layout d ((as @ [b]) @ cs)" using Suc.prems Cons by simp
    have b: "b \<in> set (as @ bs)" using Cons by simp
    have "at_place d (b + slots_at d b) (as @ [b]) cs"
      using Suc.prems Cons by (auto simp: at_place_def layout_def sorted_wrt_append intro: trans_le_add1)
    from Suc.IH [OF l this, of "sp + (b + slots_at d b)"] obtain c' where
      c': "fill_dentries_loop d sp room (b + slots_at d b) (sp + (b + slots_at d b)) = (map (listed d) (take room cs), room < length cs, c')"
        "c' = sp + (b + slots_at d b) \<and> (room = 0 \<or> cs = []) \<or> (\<exists>ds e. take room cs = ds @ [e] \<and> c' = sp + e + slots_at d e)" by blast
    have "fill_dentries_loop d sp (Suc room) pos c = (map (listed d) (take (Suc room) bs), Suc room < length bs, c')"
      using n(2) [OF Cons] c'(1) layoutD(4) [OF Suc.prems(1) b]
      by (simp add: fill_dentries_loop.simps [of d sp "Suc room"] Cons listed_def slots_at_def Let_def)
    moreover have "\<exists>ds e. take (Suc room) bs = ds @ [e] \<and> c' = sp + e + slots_at d e"
      using c'(2)
    proof
      assume "c' = sp + (b + slots_at d b) \<and> (room = 0 \<or> cs = [])"
      then have "take (Suc room) bs = [] @ [b] \<and> c' = sp + b + slots_at d b" using Cons by auto
      then show ?thesis by blast
    next
      assume "\<exists>ds e. take room cs = ds @ [e] \<and> c' = sp + e + slots_at d e"
      then obtain ds e where "take (Suc room) bs = (b # ds) @ [e] \<and> c' = sp + e + slots_at d e" using Cons by auto
      then show ?thesis by blast
    qed
    ultimately show ?thesis by blast
  qed
qed

subsection \<open>The conversion of an inline directory, and new directories\<close>

text \<open>The last byte of an inline bitmap has bits that stand for no slot; they stay clear.\<close>

definition tail_clear :: "f2fs_dentry_ptr \<Rightarrow> bool" where
  "tail_clear d \<longleftrightarrow> (\<forall>i. d_max d \<le> i \<and> i < 8 * length (d_bitmap d) \<longrightarrow> \<not> test_bit_le i (d_bitmap d))"

lemma tail_clear_update:
  assumes "pos + GET_DENTRY_SLOTS (length name) \<le> d_max d" "dims_ok d" "tail_clear d"
  shows "tail_clear (f2fs_update_dentry ino mode d name h pos)"
  using assms by (auto simp: tail_clear_def f2fs_update_dentry_def Let_def test_set_bits_le dims_ok_def)

lemma tail_clear_clear:
  assumes "p + slots_at d p \<le> d_max d" "dims_ok d" "tail_clear d"
  shows "tail_clear (clear_dentry d p)"
  using assms by (auto simp: tail_clear_def clear_dentry_def test_clear_bits_le dims_ok_def slots_at_def)

lemma test_bit_le_append: "test_bit_le i (xs @ ys) = (if i < 8 * length xs then test_bit_le i xs else test_bit_le (i - 8 * length xs) ys)"
proof (cases "i < 8 * length xs")
  case True
  then show ?thesis by (simp add: test_bit_le_bit nth_append div8_lt)
next
  case False
  then obtain k where "i = k + 8 * length xs" using le_Suc_ex [of "8 * length xs" i] by (auto simp: add.commute)
  then show ?thesis by (simp add: test_bit_le_bit nth_append)
qed

lemma convert_inline_layout:
  assumes l: "layout i ps" and m: "d_max i = NR_INLINE_DENTRY" "length (d_bitmap i) = INLINE_DENTRY_BITMAP_SIZE" and t: "tail_clear i"
  shows "layout (convert_inline_dentries i) ps"
    "p \<in> set ps \<Longrightarrow> d_dentry (convert_inline_dentries i) ! p = d_dentry i ! p \<and> de_name (convert_inline_dentries i) p = de_name i p"
    "d_max (convert_inline_dentries i) = NR_DENTRY_IN_BLOCK"
proof -
  let ?c = "convert_inline_dentries i"
  have dims: "length (d_dentry i) = 182" "length (d_filename i) = 1456" "length (d_bitmap i) = 23" "d_max i = 182"
    using l m by (simp_all add: layout_def dims_ok_def dentry_sizes)
  show mx: "d_max ?c = NR_DENTRY_IN_BLOCK" by (simp add: convert_inline_dentries_def empty_dentry_block_def)
  have c: "d_bitmap ?c = d_bitmap i @ replicate 4 0" "d_dentry ?c = d_dentry i @ replicate 32 zero_dir_entry"
      "d_filename ?c = d_filename i @ replicate 256 0"
    using dims by (simp_all add: convert_inline_dentries_def empty_dentry_block_def dentry_sizes put_bytes_def)
  have d: "d_dentry ?c ! p = d_dentry i ! p" if "p \<in> set ps" for p
    using layoutD(4) [OF l that] dims by (simp add: c nth_append)
  have sl: "slots_at ?c p = slots_at i p" if "p \<in> set ps" for p using d [OF that] by (simp add: slots_at_def)
  have "de_name ?c p = de_name i p" if p: "p \<in> set ps" for p
  proof -
    have "p * 8 + name_len (d_dentry i ! p) \<le> 1456" using layoutD(3,6) [OF l p] dims by linarith
    then show ?thesis using d [OF p] dims by (simp add: de_name_def c(3) F2FS_SLOT_LEN_def)
  qed
  then show "p \<in> set ps \<Longrightarrow> d_dentry ?c ! p = d_dentry i ! p \<and> de_name ?c p = de_name i p" using d by blast
  have "sorted_wrt (\<lambda>p q. p + slots_at ?c p \<le> q) ps"
    using l sl by (auto simp: layout_def elim!: sorted_wrt_mono_rel [rotated])
  moreover have "dims_ok ?c" using dims by (simp add: dims_ok_def c mx dentry_sizes)
  moreover have "0 < name_len (d_dentry ?c ! p) \<and> p + slots_at ?c p \<le> d_max ?c" if "p \<in> set ps" for p
    using layoutD(1,3) [OF l that] d [OF that] sl [OF that] dims mx by (simp add: NR_DENTRY_IN_BLOCK_def)
  moreover have "test_bit_le j (d_bitmap ?c) \<longleftrightarrow> (\<exists>p \<in> set ps. p \<le> j \<and> j < p + slots_at ?c p)" if j: "j < d_max ?c" for j
  proof (cases "j < 182")
    case True
    then have "test_bit_le j (d_bitmap ?c) \<longleftrightarrow> test_bit_le j (d_bitmap i)" using dims by (simp add: c(1) test_bit_le_append)
    also have "\<dots> \<longleftrightarrow> (\<exists>p \<in> set ps. p \<le> j \<and> j < p + slots_at i p)" using l True dims by (simp add: layout_def)
    finally show ?thesis using sl by auto
  next
    case False
    have "\<not> test_bit_le j (d_bitmap ?c)"
    proof (cases "j < 184")
      case True
      then show ?thesis using t False dims by (simp add: c(1) test_bit_le_append tail_clear_def)
    next
      case F: False
      have "j < 214" using j mx by (simp add: NR_DENTRY_IN_BLOCK_def)
      then show ?thesis using F dims test_bit_le_zeros [of "j - 184" 4] by (simp add: c(1) test_bit_le_append)
    qed
    moreover have "\<not> j < p + slots_at ?c p" if "p \<in> set ps" for p
      using layoutD(3) [OF l that] sl [OF that] False dims by simp
    ultimately show ?thesis by blast
  qed
  ultimately show "layout ?c ps" unfolding layout_def by blast
qed

lemma do_make_empty_dir_eq:
  assumes "length (d_dentry d) \<ge> 2"
  shows "do_make_empty_dir ino mode pino pmode d =
    f2fs_update_dentry pino pmode (f2fs_update_dentry ino mode d [46] 0 0) [46, 46] 0 1"
  using assms
  by (cases "d_dentry d ! 0"; cases "d_dentry d ! 1") (simp add: numeral_2_eq_2 do_make_empty_dir_def f2fs_update_dentry_def set_bits_le_def GET_DENTRY_SLOTS_def F2FS_SLOT_LEN_def set_de_type_def Let_def)

lemma make_empty_layout:
  fixes ino mode pino pmode :: nat
  assumes l: "layout d []" and m: "2 \<le> d_max d"
  defines "d' \<equiv> do_make_empty_dir ino mode pino pmode d"
  shows "\<exists>ps. layout d' ps \<and> set ps = {0, 1}" "de_name d' 0 = [46]" "de_name d' 1 = [46, 46]"
    "hash_code (d_dentry d' ! 0) = 0" "hash_code (d_dentry d' ! 1) = 0"
    "de_ino (d_dentry d' ! 0) = ino" "de_ino (d_dentry d' ! 1) = pino" "d_max d' = d_max d"
proof -
  have one: "GET_DENTRY_SLOTS (length [46 :: u8]) = 1" "GET_DENTRY_SLOTS (length [46, 46 :: u8]) = 1"
    by (simp_all add: GET_DENTRY_SLOTS_def F2FS_SLOT_LEN_def)
  define a where "a = f2fs_update_dentry ino mode d [46] 0 0"
  have bits: "\<not> test_bit_le i (d_bitmap d)" if "i < d_max d" for i using l that by (simp add: layout_def)
  have "free_run (d_bitmap d) (d_max d) 0 (GET_DENTRY_SLOTS (length [46 :: u8]))" unfolding one using bits m by (simp add: free_run_def)
  from update_dentry_layout [OF l this, of ino mode 0] obtain ps where a: "layout a ps" "set ps = {0}" "d_dentry a ! 0 = new_dentry d 0 ino mode [46] 0"
      "de_name a 0 = [46]" "d_max a = d_max d"
    unfolding a_def by auto
  have s0: "slots_at a 0 = 1" using a(3) one(1) by (simp add: slots_at_def)
  have "free_run (d_bitmap a) (d_max a) 1 (GET_DENTRY_SLOTS (length [46, 46 :: u8]))"
    unfolding one using a(1,2,5) m s0 by (auto simp: free_run_def layout_def)
  note fr = this
  have eq: "d' = f2fs_update_dentry pino pmode a [46, 46] 0 1"
    using l m do_make_empty_dir_eq [of d ino mode pino pmode] unfolding d'_def a_def by (simp add: layout_def dims_ok_def)
  obtain ps' where b: "layout d' ps'" "set ps' = {1, 0}" "d_dentry d' ! 1 = new_dentry a 1 pino pmode [46, 46] 0"
      "de_name d' 1 = [46, 46]" "d_dentry d' ! 0 = d_dentry a ! 0" "de_name d' 0 = de_name a 0" "d_max d' = d_max a"
    using a(2) by (auto intro: update_dentry_layout [OF a(1) fr, of pino pmode 0, folded eq])
  then show "\<exists>ps. layout d' ps \<and> set ps = {0, 1}" by (auto simp: insert_commute)
  show "de_name d' 0 = [46]" "de_name d' 1 = [46, 46]" "hash_code (d_dentry d' ! 0) = 0" "hash_code (d_dentry d' ! 1) = 0"
    "de_ino (d_dentry d' ! 0) = ino" "de_ino (d_dentry d' ! 1) = pino" "d_max d' = d_max d"
    using a b by simp_all
qed

subsection \<open>Entries of length zero\<close>

definition zero_length_at :: "f2fs_filename \<Rightarrow> u32 \<Rightarrow> f2fs_dentry_ptr \<Rightarrow> nat \<Rightarrow> bool" where
  "zero_length_at fname h d pos \<longleftrightarrow> pos < d_max d \<and> pos < 2 ^ 64 - 1 \<and> test_bit_le pos (d_bitmap d)
     \<and> name_len (d_dentry d ! pos) = 0 \<and> \<not> dentry_matches fname h d pos"

lemma zero_length_at_max: "zero_length_at fname h d pos \<Longrightarrow> zero_length_at fname h (d\<lparr>d_max := 2 ^ 64 - 1\<rparr>) pos"
  by (auto simp: zero_length_at_def dentry_matches_def de_name_def Let_def)

lemma find_dentry_loop_stuck: "zero_length_at fname h d pos \<Longrightarrow> find_dentry_loop fname h d pos ml ms = None"
proof -
  have "find_dentry_loop fname h d pos ml ms = Some r \<Longrightarrow> \<not> zero_length_at fname h d pos" for r
  proof (erule find_dentry_loop.raw_induct [rotated])
    fix f fname h d pos ml ms r
    assume ih: "\<And>fname h d pos ml ms r. f fname h d pos ml ms = Some r \<Longrightarrow> \<not> zero_length_at fname h d pos"
      and b: "(if pos < d_max d
        then if \<not> test_bit_le pos (d_bitmap d) then f fname h d (pos + 1) (ml + 1) ms
             else if dentry_matches fname h d pos then Some (Some pos, max ms ml)
             else let de = d_dentry d ! pos; d = if name_len de = 0 then d\<lparr>d_max := 2 ^ 64 - 1\<rparr> else d
                  in f fname h d (pos + GET_DENTRY_SLOTS (name_len de)) 0 (max ms ml)
        else Some (None, max ms ml)) = Some r"
    show "\<not> zero_length_at fname h d pos"
    proof
      assume z: "zero_length_at fname h d pos"
      then have "f fname h (d\<lparr>d_max := 2 ^ 64 - 1\<rparr>) pos 0 (max ms ml) = Some r"
        using b by (simp add: zero_length_at_def GET_DENTRY_SLOTS_def F2FS_SLOT_LEN_def)
      then show False using ih zero_length_at_max [OF z] by blast
    qed
  qed
  then show "zero_length_at fname h d pos \<Longrightarrow> find_dentry_loop fname h d pos ml ms = None"
    by (cases "find_dentry_loop fname h d pos ml ms") auto
qed

text \<open>A block with one more entry, at a position after all others.\<close>

definition with_entry :: "f2fs_dentry_ptr \<Rightarrow> nat \<Rightarrow> f2fs_dir_entry \<Rightarrow> f2fs_dentry_ptr" where
  "with_entry d pos de = d\<lparr>d_bitmap := snd (test_and_set_bit_le pos (d_bitmap d)), d_dentry := (d_dentry d)[pos := de]\<rparr>"

lemma find_dentry_loop_reaches:
  "layout d (as @ bs) \<Longrightarrow> at_place d q as bs \<Longrightarrow> q \<le> pos \<Longrightarrow> pos < d_max d \<Longrightarrow>
   \<forall>p \<in> set bs. p + slots_at d p \<le> pos \<and> \<not> dentry_matches fname h d p \<Longrightarrow>
     \<exists>ml' ms'. find_dentry_loop fname h (with_entry d pos de) q ml ms = find_dentry_loop fname h (with_entry d pos de) pos ml' ms'"
proof (induction d q arbitrary: as bs ml ms rule: walk.induct)
  case (1 d q)
  note u = find_dentry_loop.simps [of fname h "with_entry d pos de" q]
  have cap: "pos < 8 * length (d_bitmap d)" using "1.prems" by (auto simp: layout_def dims_ok_def)
  have w: "d_max (with_entry d pos de) = d_max d" "test_bit_le q (d_bitmap (with_entry d pos de)) \<longleftrightarrow> q = pos \<or> test_bit_le q (d_bitmap d)"
    using cap by (simp_all add: with_entry_def test_bit_le_set)
  show ?case
  proof (cases "q = pos")
    case False
    then have q: "q < pos" "q < d_max d" using "1.prems" by simp_all
    then have e: "d_dentry (with_entry d pos de) ! q = d_dentry d ! q"
        "dentry_matches fname h (with_entry d pos de) q = dentry_matches fname h d q"
      by (simp_all add: with_entry_def dentry_matches_def de_name_def Let_def)
    show ?thesis using "1.prems"(1,2) q(2)
    proof (cases rule: place_cases)
      case free
      then show ?thesis
        using "1.IH"(2) [OF q(2) _ "1.prems"(1)] "1.prems" q w by (simp add: u)
    next
      case (entry cs)
      have "\<exists>ml' ms'. find_dentry_loop fname h (with_entry d pos de) (q + slots_at d q) ml ms = find_dentry_loop fname h (with_entry d pos de) pos ml' ms'" for ml ms
        using "1.IH"(1) [OF q(2) entry(1), of "as @ [q]" cs] "1.prems" entry by (simp add: max_def Suc_le_eq)
      then show ?thesis using q entry "1.prems"(5) w e by (simp add: u slots_at_def [symmetric])
    qed
  qed auto
qed



subsection \<open>The contract of a block\<close>

lemma length_de_name: "layout d ps \<Longrightarrow> p \<in> set ps \<Longrightarrow> length (de_name d p) = name_len (d_dentry d ! p)"
  using layoutD(3,6) [of d ps p] by (auto simp: layout_def dims_ok_def de_name_def F2FS_SLOT_LEN_def)

lemma dents_layout: "layout d ps \<Longrightarrow> dents d = (\<lambda>p. (de_name d p, d_dentry d ! p)) ` set ps"
  by (simp add: dents_def layout_walk)

text \<open>
  C35: A search in a well-formed directory block returns; it finds an entry of the block with the name and
  the hash that are looked for, and it finds nothing only when the block has no such entry.
\<close>

theorem find_target_dentry_correct:
  assumes ok: "block_ok d" and fn: "fn_hash fname = 0"
  shows "\<exists>r m. find_target_dentry fname h d = Some (r, m) \<and>
    (case r of Some p \<Rightarrow> (disk_name fname, d_dentry d ! p) \<in> dents d \<and> hash_code (d_dentry d ! p) = h
     | None \<Rightarrow> \<not> (\<exists>e. (disk_name fname, e) \<in> dents d \<and> hash_code e = h))"
proof -
  obtain ps where l: "layout d ps" using ok by (auto simp: block_ok_def)
  obtain m where f: "find_target_dentry fname h d = Some (find (dentry_matches fname h d) ps, m)"
    using find_target_dentry_layout [OF l] by blast
  have m: "dentry_matches fname h d p \<longleftrightarrow> hash_code (d_dentry d ! p) = h \<and> de_name d p = disk_name fname" if "p \<in> set ps" for p
    using length_de_name [OF l that] fn by (auto simp: dentry_matches_def Let_def)
  show ?thesis
  proof (cases "find (dentry_matches fname h d) ps")
    case None
    then have no: "\<not> (de_name d p = disk_name fname \<and> hash_code (d_dentry d ! p) = h)" if "p \<in> set ps" for p
      using that m [OF that] by (auto simp: find_None_iff)
    have "\<not> (\<exists>e. (disk_name fname, e) \<in> dents d \<and> hash_code e = h)"
    proof (rule notI, elim exE conjE)
      fix e assume "(disk_name fname, e) \<in> dents d" "hash_code e = h"
      then obtain p where "p \<in> set ps" "de_name d p = disk_name fname" "hash_code (d_dentry d ! p) = h" by (auto simp: dents_layout [OF l])
      then show False using no by blast
    qed
    then show ?thesis using f None by simp
  next
    case (Some p)
    then have "p \<in> set ps" "dentry_matches fname h d p" by (auto simp: find_Some_iff)
    then have p: "p \<in> set ps" "de_name d p = disk_name fname" "hash_code (d_dentry d ! p) = h" using m by auto
    have "(de_name d p, d_dentry d ! p) \<in> dents d" unfolding dents_layout [OF l] using p(1) by blast
    then show ?thesis using f Some p by simp
  qed
qed

text \<open>
  C34: Inserting a name where \<open>room_for_filename\<close> finds room keeps the block well-formed and adds exactly
  this entry, with its name, hash and inode number; every other entry keeps its name and its fields.
  When no room is found the block has no run of free slots that is long enough.
\<close>

theorem f2fs_update_dentry_correct:
  assumes ok: "block_ok d" and name: "name \<noteq> []"
  defines "pos \<equiv> room_for_filename (d_bitmap d) (GET_DENTRY_SLOTS (length name)) (d_max d)"
  shows "if pos < d_max d
    then block_ok (f2fs_update_dentry ino mode d name h pos) \<and> d_max (f2fs_update_dentry ino mode d name h pos) = d_max d
      \<and> dents (f2fs_update_dentry ino mode d name h pos) = insert (name, new_dentry d pos ino mode name h) (dents d)
    else \<forall>q. \<not> free_run (d_bitmap d) (d_max d) q (GET_DENTRY_SLOTS (length name))"
proof (cases "pos < d_max d")
  case True
  obtain ps where l: "layout d ps" using ok by (auto simp: block_ok_def)
  have "0 < GET_DENTRY_SLOTS (length name)" using name slots_pos(1) by simp
  from room_for_filename_spec [OF this, of "d_bitmap d" "d_max d"] True
  have "free_run (d_bitmap d) (d_max d) pos (GET_DENTRY_SLOTS (length name))" by (simp add: pos_def)
  from update_dentry_layout [OF l this name, of ino mode h] obtain ps' where
    u: "layout (f2fs_update_dentry ino mode d name h pos) ps'" "set ps' = insert pos (set ps)" "pos \<notin> set ps"
      "d_dentry (f2fs_update_dentry ino mode d name h pos) ! pos = new_dentry d pos ino mode name h"
      "de_name (f2fs_update_dentry ino mode d name h pos) pos = name"
      "\<forall>p \<in> set ps. d_dentry (f2fs_update_dentry ino mode d name h pos) ! p = d_dentry d ! p
         \<and> de_name (f2fs_update_dentry ino mode d name h pos) p = de_name d p"
      "d_max (f2fs_update_dentry ino mode d name h pos) = d_max d"
    by blast
  then show ?thesis using True by (simp add: block_okI [OF u(1)] dents_layout [OF u(1)] dents_layout [OF l])
next
  case False
  have "0 < GET_DENTRY_SLOTS (length name)" using name slots_pos(1) by simp
  from room_for_filename_spec [OF this, of "d_bitmap d" "d_max d"] False show ?thesis by (simp add: pos_def)
qed

lemma block_ok_empty: "block_ok empty_dentry_block"
  by (rule block_okI [OF layout_empty_dentry_block])

text \<open>The block with one entry, for a file of one character.\<close>

definition block1 :: f2fs_dentry_ptr where
  "block1 = f2fs_update_dentry 5 0x81A4 empty_dentry_block [65] 7 (room_for_filename (d_bitmap empty_dentry_block) (GET_DENTRY_SLOTS 1) 214)"

lemma free_run_empty: "free_run (d_bitmap empty_dentry_block) 214 0 (GET_DENTRY_SLOTS 1)"
proof -
  have "\<not> test_bit_le i (d_bitmap empty_dentry_block)" if "i < 214" for i
    using that layout_empty_dentry_block by (auto simp: layout_def empty_dentry_block_def NR_DENTRY_IN_BLOCK_def)
  moreover have "GET_DENTRY_SLOTS 1 = 1" by (simp add: GET_DENTRY_SLOTS_def F2FS_SLOT_LEN_def)
  ultimately show ?thesis by (simp add: free_run_def)
qed

lemma room_empty: "room_for_filename (d_bitmap empty_dentry_block) (GET_DENTRY_SLOTS 1) 214 = 0"
  using room_for_filename_spec [of "GET_DENTRY_SLOTS 1" "d_bitmap empty_dentry_block" 214] free_run_empty slots_pos(1) [of 1]
  by (metis not_gr_zero zero_less_one)

lemma block1_layout:
  "\<exists>ps. layout block1 ps \<and> set ps = {0} \<and> d_dentry block1 ! 0 = new_dentry empty_dentry_block 0 5 0x81A4 [65] 7 \<and> de_name block1 0 = [65]"
proof -
  have "d_max empty_dentry_block = 214" "GET_DENTRY_SLOTS (length [65 :: u8]) = GET_DENTRY_SLOTS 1"
    by (simp_all add: empty_dentry_block_def NR_DENTRY_IN_BLOCK_def)
  then have "free_run (d_bitmap empty_dentry_block) (d_max empty_dentry_block) 0 (GET_DENTRY_SLOTS (length [65 :: u8]))"
    using free_run_empty by metis
  from update_dentry_layout [OF layout_empty_dentry_block this, of 5 "0x81A4" 7] show ?thesis
    unfolding block1_def room_empty by (metis list.discI list.set(1))
qed

theorem f2fs_update_dentry_correct_witness:
  "block_ok block1 \<and> dents block1 = {([65], new_dentry empty_dentry_block 0 5 0x81A4 [65] 7)}"
proof -
  have m: "d_max empty_dentry_block = 214" "length [65 :: u8] = 1" by (simp_all add: empty_dentry_block_def NR_DENTRY_IN_BLOCK_def)
  have "dents empty_dentry_block = {}" using dents_layout [OF layout_empty_dentry_block] by simp
  then show ?thesis
    using f2fs_update_dentry_correct [OF block_ok_empty, where name = "[65]" and ino = 5 and mode = "0x81A4" and h = 7] room_empty unfolding m block1_def by simp
qed

theorem find_target_dentry_correct_witness:
  "\<exists>p m. find_target_dentry \<lparr>disk_name = [65], fn_hash = 0\<rparr> 7 block1 = Some (Some p, m) \<and> de_ino (d_dentry block1 ! p) = 5"
proof -
  obtain ps where
    u: "layout block1 ps" "set ps = {0}" "d_dentry block1 ! 0 = new_dentry empty_dentry_block 0 5 0x81A4 [65] 7" "de_name block1 0 = [65]"
    using block1_layout by blast
  have d: "dents block1 = {([65], new_dentry empty_dentry_block 0 5 0x81A4 [65] 7)}" using u by (simp add: dents_layout [OF u(1)])
  show ?thesis
    using find_target_dentry_correct [OF block_okI [OF u(1)], of "\<lparr>disk_name = [65], fn_hash = 0\<rparr>" 7] unfolding d
    by (auto split: option.splits)
qed

text \<open>
  C36: Deleting an entry of a well-formed block keeps the block well-formed, removes this entry and leaves all
  others as they are; the block is reported empty exactly when no entry is left, so a block that
  is truncated then holds none.
\<close>

theorem clear_dentry_correct:
  assumes ok: "block_ok d" and p: "p \<in> set (walk d 0)"
  shows "block_ok (clear_dentry d p) \<and> set (walk (clear_dentry d p) 0) = set (walk d 0) - {p}
    \<and> d_dentry (clear_dentry d p) = d_dentry d \<and> (\<forall>q. de_name (clear_dentry d p) q = de_name d q)
    \<and> (dentry_block_empty (clear_dentry d p) 0 \<longleftrightarrow> dents (clear_dentry d p) = {})"
proof -
  obtain as bs where s: "walk d 0 = as @ p # bs" using p by (auto dest: split_list)
  then have l: "layout d (as @ p # bs)" using ok by (simp add: block_ok_def)
  note c = clear_dentry_layout [OF l]
  have w: "walk (clear_dentry d p) 0 = as @ bs" by (rule layout_walk [OF c(1)])
  have "p \<notin> set as" "p \<notin> set bs" using l layoutD(2) [OF l, of p] by (auto simp: layout_def sorted_wrt_append dest: bspec)
  then have "set (as @ bs) = set (walk d 0) - {p}" using s by auto
  moreover have "dentry_block_empty (clear_dentry d p) 0 \<longleftrightarrow> dents (clear_dentry d p) = {}"
    using layoutD(2) [OF c(1)] by (fastforce simp: dentry_block_empty_iff [OF c(1)] dents_layout [OF c(1)])
  ultimately show ?thesis using block_okI [OF c(1)] c(2,3) w by simp
qed

theorem clear_dentry_correct_witness: "dents (clear_dentry block1 0) = {} \<and> dentry_block_empty (clear_dentry block1 0) 0"
proof -
  obtain ps where
    u: "layout block1 ps" "set ps = {0}" using block1_layout by blast
  then have w: "set (walk block1 0) = {0}" by (simp add: layout_walk)
  from clear_dentry_correct [OF block_okI [OF u(1)], of 0] w show ?thesis by (simp add: dents_def)
qed

text \<open>
  C37: The conversion of an inline directory to a directory block keeps every entry, with its name and its
  fields, and the block is well-formed; it relies on the two bits of the inline bitmap that stand for no
  slot being clear, which insertion and deletion keep.
\<close>

theorem convert_inline_dentries_correct:
  assumes "block_ok i" "d_max i = NR_INLINE_DENTRY" "length (d_bitmap i) = INLINE_DENTRY_BITMAP_SIZE" "tail_clear i"
  shows "block_ok (convert_inline_dentries i) \<and> dents (convert_inline_dentries i) = dents i \<and> d_max (convert_inline_dentries i) = NR_DENTRY_IN_BLOCK"
proof -
  obtain ps where l: "layout i ps" using assms(1) by (auto simp: block_ok_def)
  note c = convert_inline_layout [OF l assms(2-4)]
  show ?thesis using block_okI [OF c(1)] c(2,3) by (simp add: dents_layout [OF c(1)] dents_layout [OF l])
qed

theorem convert_inline_dentries_correct_witness:
  "block_ok (convert_inline_dentries empty_inline_dentry) \<and> dents (convert_inline_dentries empty_inline_dentry) = {}"
proof -
  have z: "\<not> test_bit_le i (replicate 23 0)" if "i < 184" for i using test_bit_le_zeros [of i 23] that by simp
  have "dims_ok empty_inline_dentry" by (simp add: dims_ok_def empty_inline_dentry_def dentry_sizes)
  then have l: "layout empty_inline_dentry []" by (simp add: layout_empty) (simp add: empty_inline_dentry_def dentry_sizes z)
  have t: "tail_clear empty_inline_dentry" by (simp add: tail_clear_def empty_inline_dentry_def dentry_sizes z)
  from convert_inline_dentries_correct [OF block_okI [OF l] _ _ t] show ?thesis
    by (simp add: dents_layout [OF l]) (simp add: empty_inline_dentry_def)
qed

end
