(* ===== verification/Inos.thy ===== *)
theory Inos
  imports Max_Prelude
begin

section \<open>Inode number lists and orphans\<close>

text \<open>
  The file system keeps three lists of inode numbers: orphans (deleted but still open files), files
  with appended data and files with updated data. With file cells each list is split over
  \<open>inode_cache_count\<close> cells, an inode number belonging to the cell of its remainder, and the number of
  entries of a kind is one counter over all cells. Modelled: every operation on the lists
  (\<open>checkpoint.c\<close>: \<open>__add_ino_entry\<close> to \<open>release_orphan_inode\<close>), and the orphan blocks that a checkpoint
  writes and a mount reads back. A counter of the kernel is a number that the calls change
  atomically; what two calls in a row see is the subject of \<open>acquire_step\<close>.
\<close>

subsection \<open>State\<close>

datatype ino_type = ORPHAN_INO | APPEND_INO | UPDATE_INO

record inode_management =
  ino_root :: "nat set"
  ino_list :: "nat list"

record ino_info =
  im :: "nat \<Rightarrow> ino_type \<Rightarrow> inode_management"
  inode_cache_count :: nat
  ino_mangement_num :: "ino_type \<Rightarrow> int"
  max_orphans :: nat

definition F2FS_ORPHANS_PER_BLOCK :: nat where "F2FS_ORPHANS_PER_BLOCK = 1020"

definition GET_ORPHAN_BLOCKS :: "nat \<Rightarrow> nat" where
  "GET_ORPHAN_BLOCKS n = (n + F2FS_ORPHANS_PER_BLOCK - 1) div F2FS_ORPHANS_PER_BLOCK"

definition init_ino_entry_info :: "nat \<Rightarrow> nat \<Rightarrow> nat \<Rightarrow> nat \<Rightarrow> ino_info" where
  "init_ino_entry_info nr_file_cell cpus blocks_per_seg cp_payload =
     \<lparr>im = (\<lambda>_ _. \<lparr>ino_root = {}, ino_list = []\<rparr>),
      inode_cache_count = (if nr_file_cell > 0 then nr_file_cell else cpus),
      ino_mangement_num = (\<lambda>_. 0),
      max_orphans = sub32 (sub32 (sub32 blocks_per_seg 2) 6) cp_payload * F2FS_ORPHANS_PER_BLOCK mod 2 ^ 32\<rparr>"

subsection \<open>Entries\<close>

definition cell_of :: "ino_info \<Rightarrow> nat \<Rightarrow> nat" where
  "cell_of s ino = ino mod inode_cache_count s"

definition set_im :: "nat \<Rightarrow> ino_type \<Rightarrow> inode_management \<Rightarrow> ino_info \<Rightarrow> ino_info" where
  "set_im c t m s = s\<lparr>im := (im s)(c := (im s c)(t := m))\<rparr>"

definition count_ino :: "ino_type \<Rightarrow> int \<Rightarrow> ino_info \<Rightarrow> ino_info" where
  "count_ino t k s = s\<lparr>ino_mangement_num := (ino_mangement_num s)(t := ino_mangement_num s t + k)\<rparr>"

definition add_ino_entry :: "ino_info \<Rightarrow> nat \<Rightarrow> ino_type \<Rightarrow> ino_info" where
  "add_ino_entry s ino t =
     (let c = cell_of s ino; m = im s c t
      in if ino \<in> ino_root m then s
         else let s = set_im c t (m\<lparr>ino_root := insert ino (ino_root m), ino_list := ino_list m @ [ino]\<rparr>) s
              in if t \<noteq> ORPHAN_INO then count_ino t 1 s else s)"

definition remove_ino_entry :: "ino_info \<Rightarrow> nat \<Rightarrow> ino_type \<Rightarrow> ino_info" where
  "remove_ino_entry s ino t =
     (let c = cell_of s ino; m = im s c t
      in if ino \<in> ino_root m
         then count_ino t (-1) (set_im c t (m\<lparr>ino_root := ino_root m - {ino}, ino_list := remove1 ino (ino_list m)\<rparr>) s)
         else s)"

definition add_dirty_inode :: "ino_info \<Rightarrow> nat \<Rightarrow> ino_type \<Rightarrow> ino_info" where
  "add_dirty_inode = add_ino_entry"

definition remove_dirty_inode :: "ino_info \<Rightarrow> nat \<Rightarrow> ino_type \<Rightarrow> ino_info" where
  "remove_dirty_inode = remove_ino_entry"

definition exist_written_data :: "ino_info \<Rightarrow> nat \<Rightarrow> ino_type \<Rightarrow> bool" where
  "exist_written_data s ino t \<longleftrightarrow> ino \<in> ino_root (im s (cell_of s ino) t)"

definition release_one :: "ino_type \<Rightarrow> nat \<Rightarrow> nat \<Rightarrow> ino_info \<Rightarrow> ino_info" where
  "release_one t c ino s =
     (let m = im s c t
      in count_ino t (-1) (set_im c t (m\<lparr>ino_root := ino_root m - {ino}, ino_list := remove1 ino (ino_list m)\<rparr>) s))"

definition release_list :: "ino_type \<Rightarrow> nat \<Rightarrow> ino_info \<Rightarrow> ino_info" where
  "release_list t c s = fold (release_one t c) (ino_list (im s c t)) s"

definition release_dirty_inode :: "ino_info \<Rightarrow> ino_info" where
  "release_dirty_inode s = fold (\<lambda>c s. release_list UPDATE_INO c (release_list APPEND_INO c s)) [0..<inode_cache_count s] s"

subsection \<open>Orphans\<close>

definition acquire_orphan_inode :: "ino_info \<Rightarrow> bool \<times> ino_info" where
  "acquire_orphan_inode s =
     (if ino_mangement_num s ORPHAN_INO \<ge> int (max_orphans s) then (False, s)
      else (True, count_ino ORPHAN_INO 1 s))"

definition release_orphan_inode :: "ino_info \<Rightarrow> ino_info" where
  "release_orphan_inode s = count_ino ORPHAN_INO (-1) s"

definition add_orphan_inode :: "ino_info \<Rightarrow> nat \<Rightarrow> ino_info" where
  "add_orphan_inode s ino = add_ino_entry s ino ORPHAN_INO"

definition remove_orphan_inode :: "ino_info \<Rightarrow> nat \<Rightarrow> ino_info" where
  "remove_orphan_inode s ino = remove_ino_entry s ino ORPHAN_INO"

record f2fs_orphan_block =
  ob_ino :: "nat list"
  ob_blk_addr :: nat
  ob_blk_count :: nat
  ob_entry_count :: nat

text \<open>
  The blocks a checkpoint writes. \<open>grabbed\<close> is the number of pages taken before; a page that is needed
  and was not taken is a null pointer, which the code dereferences (\<open>None\<close>). The state of the loop is the page
  that is being filled, if any, with the number of its entries, the blocks that are full, and the index.
\<close>

definition orphan_blocks_num :: "ino_info \<Rightarrow> nat" where
  "orphan_blocks_num s = GET_ORPHAN_BLOCKS (nat (ino_mangement_num s ORPHAN_INO))"

fun write_orphans_loop ::
  "nat \<Rightarrow> nat list \<Rightarrow> f2fs_orphan_block list \<Rightarrow> nat list option \<Rightarrow> nat \<Rightarrow> f2fs_orphan_block list option" where
  "write_orphans_loop grabbed [] done page index =
     (case page of None \<Rightarrow> Some done
      | Some inos \<Rightarrow> Some (done @ [\<lparr>ob_ino = inos @ replicate (F2FS_ORPHANS_PER_BLOCK - length inos) 0,
          ob_blk_addr = index, ob_blk_count = grabbed, ob_entry_count = length inos\<rparr>]))"
| "write_orphans_loop grabbed (ino # rest) done page index =
     (case (case page of None \<Rightarrow> if length done < grabbed then Some [] else None | Some inos \<Rightarrow> Some inos) of
        None \<Rightarrow> None
      | Some inos \<Rightarrow>
          let inos = inos @ [ino]
          in if length inos = F2FS_ORPHANS_PER_BLOCK
             then write_orphans_loop grabbed rest (done @ [\<lparr>ob_ino = inos, ob_blk_addr = index, ob_blk_count = grabbed,
                    ob_entry_count = length inos\<rparr>]) None (index + 1)
             else write_orphans_loop grabbed rest done (Some inos) index)"

definition orphan_entries :: "ino_info \<Rightarrow> nat list" where
  "orphan_entries s = concat (map (\<lambda>c. ino_list (im s c ORPHAN_INO)) [0..<inode_cache_count s])"

definition write_orphan_inodes :: "ino_info \<Rightarrow> f2fs_orphan_block list option" where
  "write_orphan_inodes s = write_orphans_loop (orphan_blocks_num s mod 2 ^ 16) (orphan_entries s) [] None 1"

text \<open>The inode numbers a mount hands to \<open>recover_orphan_inode\<close>, in this order.\<close>

definition recover_orphan_inodes :: "f2fs_orphan_block list \<Rightarrow> nat list" where
  "recover_orphan_inodes blks = concat (map (\<lambda>b. map (\<lambda>j. ob_ino b ! j) [0..<ob_entry_count b]) blks)"

subsection \<open>Invariant\<close>

text \<open>
  Tree and list of a cell have the same numbers, each once and in its own cell. The counters of the
  dirty lists are exact; the counter of the orphans exceeds their number by the reservations that
  \<open>acquire_orphan_inode\<close> made and that are not used or given back yet.
\<close>

definition entries :: "ino_info \<Rightarrow> ino_type \<Rightarrow> nat list" where
  "entries s t = concat (map (\<lambda>c. ino_list (im s c t)) [0..<inode_cache_count s])"

definition cells_ok :: "ino_info \<Rightarrow> bool" where
  "cells_ok s \<longleftrightarrow> 0 < inode_cache_count s
     \<and> (\<forall>c t. distinct (ino_list (im s c t)) \<and> set (ino_list (im s c t)) = ino_root (im s c t)
          \<and> (\<forall>ino \<in> ino_root (im s c t). cell_of s ino = c))"

definition inos_ok :: "nat \<Rightarrow> ino_info \<Rightarrow> bool" where
  "inos_ok reserved s \<longleftrightarrow> cells_ok s
     \<and> ino_mangement_num s APPEND_INO = int (length (entries s APPEND_INO))
     \<and> ino_mangement_num s UPDATE_INO = int (length (entries s UPDATE_INO))
     \<and> ino_mangement_num s ORPHAN_INO = int (length (entries s ORPHAN_INO)) + int reserved"

lemma entries_orphans: "orphan_entries s = entries s ORPHAN_INO"
  by (simp add: orphan_entries_def entries_def)

lemma length_entries: "length (entries s t) = (\<Sum>c<inode_cache_count s. length (ino_list (im s c t)))"
  by (simp add: entries_def length_concat comp_def sum_list_sum_nth atLeast0LessThan)

lemma set_ino_entries: "cells_ok s \<Longrightarrow> set (entries s t) = {ino. exist_written_data s ino t}"
proof -
  assume ok: "cells_ok s"
  have "cell_of s ino < inode_cache_count s" for ino using ok by (simp add: cells_ok_def cell_of_def)
  with ok show ?thesis unfolding entries_def cells_ok_def exist_written_data_def by fastforce
qed

lemma distinct_concat_map:
  "distinct cs \<Longrightarrow> (\<And>c. distinct (f c)) \<Longrightarrow> (\<And>c c' x. x \<in> set (f c) \<Longrightarrow> x \<in> set (f c') \<Longrightarrow> c = c') \<Longrightarrow> distinct (concat (map f cs))"
  by (induction cs) (simp, fastforce)

lemma distinct_entries: "cells_ok s \<Longrightarrow> distinct (entries s t)"
  unfolding entries_def by (rule distinct_concat_map) (simp_all add: cells_ok_def, metis)

lemma sum_cells:
  fixes f g :: "nat \<Rightarrow> nat"
  assumes "c < n" "\<And>x. x \<noteq> c \<Longrightarrow> g x = f x"
  shows "(\<Sum>x<n. g x) + f c = (\<Sum>x<n. f x) + g c"
proof -
  have "sum g ({..<n} - {c}) = sum f ({..<n} - {c})" using assms(2) by (intro sum.cong) auto
  then show ?thesis using assms(1) by (simp add: sum.remove [of _ c])
qed

lemma set_im_simps [simp]:
  "inode_cache_count (set_im c t m s) = inode_cache_count s" "max_orphans (set_im c t m s) = max_orphans s"
  "ino_mangement_num (set_im c t m s) = ino_mangement_num s" "cell_of (set_im c t m s) = cell_of s"
  "im (set_im c t m s) c' t' = (if c' = c \<and> t' = t then m else im s c' t')"
  by (auto simp: set_im_def cell_of_def fun_eq_iff)

text \<open>A list of one cell changes; the number of entries of its kind changes by the same amount.\<close>

lemma entries_set_im:
  assumes "c < inode_cache_count s"
  shows "length (entries (set_im c t m s) t) + length (ino_list (im s c t)) = length (entries s t) + length (ino_list m)"
    "t' \<noteq> t \<Longrightarrow> entries (set_im c t m s) t' = entries s t'"
  using sum_cells [OF assms, of "\<lambda>x. length (ino_list (im (set_im c t m s) x t))" "\<lambda>x. length (ino_list (im s x t))"]
  by (simp_all add: length_entries) (simp add: entries_def)

lemma count_ino_simps [simp]:
  "im (count_ino t k s) = im s" "inode_cache_count (count_ino t k s) = inode_cache_count s" "entries (count_ino t k s) t' = entries s t'"
  "cells_ok (count_ino t k s) = cells_ok s" "max_orphans (count_ino t k s) = max_orphans s"
  "ino_mangement_num (count_ino t k s) t' = (if t' = t then ino_mangement_num s t + k else ino_mangement_num s t')"
  by (simp_all add: count_ino_def entries_def cells_ok_def cell_of_def)

lemma cells_ok_set_im:
  assumes "cells_ok s" "distinct (ino_list m)" "set (ino_list m) = ino_root m" "\<forall>ino \<in> ino_root m. cell_of s ino = c"
  shows "cells_ok (set_im c t m s)"
  using assms by (auto simp: cells_ok_def)

lemma cell_lt: "cells_ok s \<Longrightarrow> cell_of s ino < inode_cache_count s"
  by (simp add: cells_ok_def cell_of_def)

lemma add_ino_entry_cells: "cells_ok s \<Longrightarrow> cells_ok (add_ino_entry s ino t)"
proof -
  assume ok: "cells_ok s"
  let ?c = "cell_of s ino" and ?m = "im s (cell_of s ino) t"
  show ?thesis
  proof (cases "ino \<in> ino_root ?m")
    case False
    have "cells_ok (set_im ?c t (?m\<lparr>ino_root := insert ino (ino_root ?m), ino_list := ino_list ?m @ [ino]\<rparr>) s)"
      using ok False by (intro cells_ok_set_im) (auto simp: cells_ok_def)
    then show ?thesis using False by (cases "t = ORPHAN_INO") (simp_all add: add_ino_entry_def Let_def)
  qed (use ok in \<open>simp add: add_ino_entry_def Let_def\<close>)
qed

lemma add_ino_entry_simps:
  "max_orphans (add_ino_entry s ino t) = max_orphans s" "inode_cache_count (add_ino_entry s ino t) = inode_cache_count s"
  "exist_written_data (add_ino_entry s ino t) i t' \<longleftrightarrow> exist_written_data s i t' \<or> i = ino \<and> t' = t"
  by (auto simp: add_ino_entry_def exist_written_data_def Let_def cell_of_def)

lemma add_ino_entry_count:
  assumes ok: "cells_ok s"
  shows "int (length (entries (add_ino_entry s ino t) t)) = int (length (entries s t)) + (if exist_written_data s ino t then 0 else 1)"
    "t' \<noteq> t \<Longrightarrow> entries (add_ino_entry s ino t) t' = entries s t'"
    "ino_mangement_num (add_ino_entry s ino t) t' =
       ino_mangement_num s t' + (if t' = t \<and> t \<noteq> ORPHAN_INO \<and> \<not> exist_written_data s ino t then 1 else 0)"
  using entries_set_im [OF cell_lt [OF ok, of ino], where t = t and m =
      "(im s (cell_of s ino) t)\<lparr>ino_root := insert ino (ino_root (im s (cell_of s ino) t)), ino_list := ino_list (im s (cell_of s ino) t) @ [ino]\<rparr>"]
  by (auto simp: add_ino_entry_def exist_written_data_def Let_def)

lemma remove_ino_entry_cells: "cells_ok s \<Longrightarrow> cells_ok (remove_ino_entry s ino t)"
proof -
  assume ok: "cells_ok s"
  let ?c = "cell_of s ino" and ?m = "im s (cell_of s ino) t"
  have "cells_ok (set_im ?c t (?m\<lparr>ino_root := ino_root ?m - {ino}, ino_list := remove1 ino (ino_list ?m)\<rparr>) s)"
    using ok by (intro cells_ok_set_im) (auto simp: cells_ok_def set_remove1_eq)
  then show ?thesis using ok by (simp add: remove_ino_entry_def Let_def)
qed

lemma remove_ino_entry_simps:
  "max_orphans (remove_ino_entry s ino t) = max_orphans s" "inode_cache_count (remove_ino_entry s ino t) = inode_cache_count s"
  "exist_written_data (remove_ino_entry s ino t) i t' \<longleftrightarrow> exist_written_data s i t' \<and> \<not> (i = ino \<and> t' = t)"
proof -
  show "max_orphans (remove_ino_entry s ino t) = max_orphans s" and c: "inode_cache_count (remove_ino_entry s ino t) = inode_cache_count s"
    by (simp_all add: remove_ino_entry_def Let_def)
  have "cell_of (remove_ino_entry s ino t) = cell_of s" using c by (simp add: cell_of_def fun_eq_iff)
  then show "exist_written_data (remove_ino_entry s ino t) i t' \<longleftrightarrow> exist_written_data s i t' \<and> \<not> (i = ino \<and> t' = t)"
    by (cases "t' = t"; cases "i = ino"; cases "cell_of s i = cell_of s ino") (simp_all add: exist_written_data_def remove_ino_entry_def Let_def)
qed

lemma remove_ino_entry_count:
  assumes ok: "cells_ok s"
  shows "int (length (entries (remove_ino_entry s ino t) t)) = int (length (entries s t)) - (if exist_written_data s ino t then 1 else 0)"
    "t' \<noteq> t \<Longrightarrow> entries (remove_ino_entry s ino t) t' = entries s t'"
    "ino_mangement_num (remove_ino_entry s ino t) t' = ino_mangement_num s t' - (if t' = t \<and> exist_written_data s ino t then 1 else 0)"
proof -
  let ?c = "cell_of s ino" and ?m = "im s (cell_of s ino) t"
  have "set (ino_list ?m) = ino_root ?m" using ok unfolding cells_ok_def by blast
  then have m: "ino \<in> ino_root ?m \<Longrightarrow> ino \<in> set (ino_list ?m)" by blast
  have l: "length (ino_list ?m) = length (remove1 ino (ino_list ?m)) + 1" if "ino \<in> ino_root ?m"
    using m [OF that] length_pos_if_in_set [OF m [OF that]] by (simp add: length_remove1)
  note e = entries_set_im [OF cell_lt [OF ok, of ino], where t = t and m = "?m\<lparr>ino_root := ino_root ?m - {ino}, ino_list := remove1 ino (ino_list ?m)\<rparr>"]
  show "int (length (entries (remove_ino_entry s ino t) t)) = int (length (entries s t)) - (if exist_written_data s ino t then 1 else 0)"
    using e(1) l by (cases "ino \<in> ino_root ?m") (simp_all add: remove_ino_entry_def exist_written_data_def Let_def)
  show "t' \<noteq> t \<Longrightarrow> entries (remove_ino_entry s ino t) t' = entries s t'"
    using e(2) by (auto simp: remove_ino_entry_def Let_def)
  show "ino_mangement_num (remove_ino_entry s ino t) t' = ino_mangement_num s t' - (if t' = t \<and> exist_written_data s ino t then 1 else 0)"
    by (auto simp: remove_ino_entry_def exist_written_data_def Let_def)
qed

subsection \<open>Counters\<close>

text \<open>What the callers do, with the number of the reservations that are out.\<close>

inductive ino_step :: "nat \<times> ino_info \<Rightarrow> nat \<times> ino_info \<Rightarrow> bool" where
  acquire: "acquire_orphan_inode s = (True, s') \<Longrightarrow> ino_step (r, s) (r + 1, s')"
| release: "ino_step (r + 1, s) (r, release_orphan_inode s)"
| add_orphan: "\<not> exist_written_data s ino ORPHAN_INO \<Longrightarrow> ino_step (r + 1, s) (r, add_orphan_inode s ino)"
| remove_orphan: "ino_step (r, s) (r, remove_orphan_inode s ino)"
| add_dirty: "t \<noteq> ORPHAN_INO \<Longrightarrow> ino_step (r, s) (r, add_dirty_inode s ino t)"
| remove_dirty: "t \<noteq> ORPHAN_INO \<Longrightarrow> ino_step (r, s) (r, remove_dirty_inode s ino t)"
| release_dirty: "ino_step (r, s) (r, release_dirty_inode s)"

definition ino_start :: "nat \<times> ino_info \<Rightarrow> bool" where
  "ino_start rs \<longleftrightarrow> (\<exists>cells cpus bps payload. 0 < cpus \<and> rs = (0, init_ino_entry_info cells cpus bps payload))"

definition ino_invar :: "nat \<times> ino_info \<Rightarrow> bool" where
  "ino_invar rs \<longleftrightarrow> inos_ok (fst rs) (snd rs) \<and> ino_mangement_num (snd rs) ORPHAN_INO \<le> int (max_orphans (snd rs))"

lemma release_one_remove:
  assumes "cells_ok s" "ino \<in> ino_root (im s c t)"
  shows "release_one t c ino s = remove_ino_entry s ino t"
proof -
  have "cell_of s ino = c" using assms unfolding cells_ok_def by blast
  then show ?thesis using assms(2) by (simp add: release_one_def remove_ino_entry_def Let_def)
qed

definition dirty_frame :: "ino_type \<Rightarrow> ino_info \<Rightarrow> ino_info \<Rightarrow> bool" where
  "dirty_frame t s s' \<longleftrightarrow> cells_ok s' \<and> max_orphans s' = max_orphans s \<and> inode_cache_count s' = inode_cache_count s
     \<and> ino_mangement_num s' t - int (length (entries s' t)) = ino_mangement_num s t - int (length (entries s t))
     \<and> (\<forall>t'. t' \<noteq> t \<longrightarrow> ino_mangement_num s' t' = ino_mangement_num s t' \<and> entries s' t' = entries s t'
           \<and> (\<forall>i. exist_written_data s' i t' = exist_written_data s i t'))"

lemma dirty_frame_trans: "dirty_frame t s s' \<Longrightarrow> dirty_frame t s' s'' \<Longrightarrow> dirty_frame t s s''"
  by (simp add: dirty_frame_def)

lemma dirty_frame_remove: "cells_ok s \<Longrightarrow> dirty_frame t s (remove_ino_entry s ino t)"
  using remove_ino_entry_count [where s = s and ino = ino and t = t] by (simp add: dirty_frame_def remove_ino_entry_cells remove_ino_entry_simps)

lemma release_fold:
  "cells_ok s \<Longrightarrow> ino_list (im s c t) = xs \<Longrightarrow>
     dirty_frame t s (fold (release_one t c) xs s) \<and> ino_list (im (fold (release_one t c) xs s) c t) = []
     \<and> (\<forall>c'. c' \<noteq> c \<longrightarrow> im (fold (release_one t c) xs s) c' t = im s c' t)"
proof (induction xs arbitrary: s)
  case Nil
  then show ?case by (simp add: dirty_frame_def)
next
  case (Cons x xs)
  have root: "x \<in> ino_root (im s c t)" using Cons.prems unfolding cells_ok_def by (metis list.set_intros(1))
  have c: "cell_of s x = c" using Cons.prems(1) root unfolding cells_ok_def by blast
  have eq: "release_one t c x s = remove_ino_entry s x t" by (rule release_one_remove [OF Cons.prems(1) root])
  have "ino_list (im (remove_ino_entry s x t) c t) = xs" "\<forall>c'. c' \<noteq> c \<longrightarrow> im (remove_ino_entry s x t) c' t = im s c' t"
    using Cons.prems(2) root c by (simp_all add: remove_ino_entry_def Let_def)
  moreover note Cons.IH [OF remove_ino_entry_cells [OF Cons.prems(1)] this(1)] dirty_frame_remove [OF Cons.prems(1), of t x]
  ultimately show ?case using dirty_frame_trans by (auto simp: eq)
qed

lemma release_list_frame: "cells_ok s \<Longrightarrow> dirty_frame t s (release_list t c s)"
  using release_fold [of s c t] by (simp add: release_list_def)

lemma release_dirty_frame:
  assumes "cells_ok s"
  shows "cells_ok (release_dirty_inode s) \<and> max_orphans (release_dirty_inode s) = max_orphans s
    \<and> inode_cache_count (release_dirty_inode s) = inode_cache_count s
    \<and> (\<forall>t. ino_mangement_num (release_dirty_inode s) t - int (length (entries (release_dirty_inode s) t))
          = ino_mangement_num s t - int (length (entries s t)))
    \<and> ino_mangement_num (release_dirty_inode s) ORPHAN_INO = ino_mangement_num s ORPHAN_INO
    \<and> entries (release_dirty_inode s) ORPHAN_INO = entries s ORPHAN_INO"
proof -
  let ?P = "\<lambda>s'. cells_ok s' \<and> max_orphans s' = max_orphans s \<and> inode_cache_count s' = inode_cache_count s
    \<and> (\<forall>t. ino_mangement_num s' t - int (length (entries s' t)) = ino_mangement_num s t - int (length (entries s t)))
    \<and> ino_mangement_num s' ORPHAN_INO = ino_mangement_num s ORPHAN_INO \<and> entries s' ORPHAN_INO = entries s ORPHAN_INO"
  have step: "?P (release_list t c s')" if "?P s'" "t \<noteq> ORPHAN_INO" for t c s'
    using release_list_frame [of s' t c] that unfolding dirty_frame_def by (metis (no_types, lifting))
  have "?P (fold (\<lambda>c s. release_list UPDATE_INO c (release_list APPEND_INO c s)) cs s')" if "?P s'" for cs s'
    using that
  proof (induction cs arbitrary: s')
    case (Cons c cs)
    have "?P (release_list UPDATE_INO c (release_list APPEND_INO c s'))"
      by (rule step [OF step [OF Cons.prems]]) simp_all
    from Cons.IH [OF this] show ?case by simp
  qed simp
  from this [of s "[0..<inode_cache_count s]"] show ?thesis using assms unfolding release_dirty_inode_def by simp
qed

lemma ino_step_invar: "ino_step rs rs' \<Longrightarrow> ino_invar rs \<Longrightarrow> ino_invar rs'"
proof (induction rule: ino_step.induct)
  case (acquire s s' r)
  then show ?case by (auto simp: acquire_orphan_inode_def ino_invar_def inos_ok_def split: if_splits)
next
  case (release r s)
  then show ?case by (simp add: release_orphan_inode_def ino_invar_def inos_ok_def)
next
  case (add_orphan s ino r)
  then have ok: "cells_ok s" by (simp add: ino_invar_def inos_ok_def)
  show ?case using add_orphan ok
    by (simp add: add_orphan_inode_def ino_invar_def inos_ok_def add_ino_entry_count add_ino_entry_cells add_ino_entry_simps)
next
  case (remove_orphan r s ino)
  then have ok: "cells_ok s" by (simp add: ino_invar_def inos_ok_def)
  show ?case using remove_orphan ok
    by (simp add: remove_orphan_inode_def ino_invar_def inos_ok_def remove_ino_entry_count remove_ino_entry_cells remove_ino_entry_simps)
next
  case (add_dirty t r s ino)
  then have ok: "cells_ok s" by (simp add: ino_invar_def inos_ok_def)
  show ?case using add_dirty ok
    by (cases t) (simp_all add: add_dirty_inode_def ino_invar_def inos_ok_def add_ino_entry_count add_ino_entry_cells add_ino_entry_simps)
next
  case (remove_dirty t r s ino)
  then have ok: "cells_ok s" by (simp add: ino_invar_def inos_ok_def)
  show ?case using remove_dirty ok
    by (cases t) (simp_all add: remove_dirty_inode_def ino_invar_def inos_ok_def remove_ino_entry_count remove_ino_entry_cells remove_ino_entry_simps)
next
  case (release_dirty r s)
  then have ok: "cells_ok s" by (simp add: ino_invar_def inos_ok_def)
  have "ino_mangement_num (release_dirty_inode s) t - int (length (entries (release_dirty_inode s) t))
      = ino_mangement_num s t - int (length (entries s t))" for t
    using release_dirty_frame [OF ok] by blast
  note diff = this [of APPEND_INO] this [of UPDATE_INO]
  have f: "cells_ok (release_dirty_inode s)" "max_orphans (release_dirty_inode s) = max_orphans s"
      "ino_mangement_num (release_dirty_inode s) ORPHAN_INO = ino_mangement_num s ORPHAN_INO"
      "entries (release_dirty_inode s) ORPHAN_INO = entries s ORPHAN_INO"
    using release_dirty_frame [OF ok] by blast+
  show ?case using release_dirty f diff by (simp add: ino_invar_def inos_ok_def)
qed

interpretation inos: state_machine ino_start ino_step ino_invar
proof unfold_locales
  fix rs rs'
  show "ino_start rs \<Longrightarrow> ino_invar rs"
    by (auto simp: ino_start_def ino_invar_def inos_ok_def cells_ok_def init_ino_entry_info_def entries_def)
  show "ino_step rs rs' \<Longrightarrow> ino_invar rs \<Longrightarrow> ino_invar rs'" by (rule ino_step_invar)
qed

subsection \<open>Orphan blocks\<close>

definition part :: "nat list option \<Rightarrow> nat list" where
  "part page = (case page of None \<Rightarrow> [] | Some inos \<Rightarrow> inos)"

definition block_of :: "nat \<Rightarrow> nat \<Rightarrow> f2fs_orphan_block \<Rightarrow> bool" where
  "block_of cnt idx b \<longleftrightarrow> ob_blk_addr b = idx \<and> ob_blk_count b = cnt \<and> length (ob_ino b) = F2FS_ORPHANS_PER_BLOCK
     \<and> 0 < ob_entry_count b \<and> ob_entry_count b \<le> F2FS_ORPHANS_PER_BLOCK"

lemma part_None: "part None = []"
  by (simp add: part_def)

lemma GET_ORPHAN_BLOCKS_simps:
  "GET_ORPHAN_BLOCKS 0 = 0" "0 < n \<Longrightarrow> n < 1020 \<Longrightarrow> GET_ORPHAN_BLOCKS n = 1" "GET_ORPHAN_BLOCKS (1020 + n) = GET_ORPHAN_BLOCKS n + 1"
  "n \<le> m \<Longrightarrow> GET_ORPHAN_BLOCKS n \<le> GET_ORPHAN_BLOCKS m" "0 < n \<Longrightarrow> 0 < GET_ORPHAN_BLOCKS n"
  unfolding GET_ORPHAN_BLOCKS_def F2FS_ORPHANS_PER_BLOCK_def by (simp_all add: div_le_mono div_greater_zero_iff)

lemma write_orphans_loop_correct:
  assumes "length done + GET_ORPHAN_BLOCKS (length (part page) + length xs) \<le> g" "\<forall>inos. page = Some inos \<longrightarrow> inos \<noteq> [] \<and> length inos < 1020"
  shows "\<exists>new. write_orphans_loop g xs done page idx = Some (done @ new)
    \<and> length new = GET_ORPHAN_BLOCKS (length (part page) + length xs) \<and> recover_orphan_inodes new = part page @ xs
    \<and> (\<forall>k < length new. block_of g (idx + k) (new ! k))"
  using assms
proof (induction g xs "done" page idx rule: write_orphans_loop.induct)
  case (1 g "done" page idx)
  show ?case
  proof (cases page)
    case (Some inos)
    then have l: "0 < length inos" "length inos < 1020" using "1.prems"(2) by auto
    have "map ((!) (inos @ replicate (1020 - length inos) 0)) [0..<length inos] = inos"
      by (rule nth_equalityI) (simp_all add: nth_append)
    then show ?thesis using l Some
      by (simp add: part_def recover_orphan_inodes_def GET_ORPHAN_BLOCKS_simps F2FS_ORPHANS_PER_BLOCK_def block_of_def)
  qed (simp add: part_def recover_orphan_inodes_def GET_ORPHAN_BLOCKS_simps)
next
  case (2 g ino rest "done" page idx)
  define inos where "inos = part page @ [ino]"
  have n: "length (part page) + length (ino # rest) = length inos + length rest" by (simp add: inos_def)
  have lt: "length (part page) < 1020" using "2.prems"(2) by (cases page) (auto simp: part_def)
  have room: "page = None \<Longrightarrow> length done < g"
    using "2.prems"(1) GET_ORPHAN_BLOCKS_simps(5) [of "length inos + length rest"] by (simp add: n inos_def)
  then have pg: "(case page of None \<Rightarrow> if length done < g then Some [] else None | Some inos \<Rightarrow> Some inos) = Some (part page)"
    by (simp add: part_def split: option.split)
  show ?case
  proof (cases "length inos = 1020")
    case True
    let ?b = "\<lparr>ob_ino = inos, ob_blk_addr = idx, ob_blk_count = g, ob_entry_count = length inos\<rparr>"
    have u: "write_orphans_loop g (ino # rest) done page idx = write_orphans_loop g rest (done @ [?b]) None (idx + 1)"
      unfolding write_orphans_loop.simps pg using True by (simp add: inos_def F2FS_ORPHANS_PER_BLOCK_def)
    have tot: "GET_ORPHAN_BLOCKS (length (part page) + length (ino # rest)) = GET_ORPHAN_BLOCKS (length rest) + 1"
      unfolding n True by (rule GET_ORPHAN_BLOCKS_simps)
    have "\<exists>new. write_orphans_loop g rest (done @ [?b]) None (idx + 1) = Some ((done @ [?b]) @ new)
        \<and> length new = GET_ORPHAN_BLOCKS (length (part None) + length rest) \<and> recover_orphan_inodes new = part None @ rest
        \<and> (\<forall>k < length new. block_of g (idx + 1 + k) (new ! k))"
    proof (rule "2.IH"(1) [OF pg refl, folded inos_def])
      show "length inos = F2FS_ORPHANS_PER_BLOCK" using True by (simp add: inos_def F2FS_ORPHANS_PER_BLOCK_def)
      show "length (done @ [?b]) + GET_ORPHAN_BLOCKS (length (part None) + length rest) \<le> g"
        using "2.prems"(1) unfolding tot by (simp add: part_def)
    qed simp
    then obtain new where new: "write_orphans_loop g rest (done @ [?b]) None (idx + 1) = Some ((done @ [?b]) @ new)"
        "length new = GET_ORPHAN_BLOCKS (length rest)" "recover_orphan_inodes new = rest"
        "\<forall>k < length new. block_of g (idx + 1 + k) (new ! k)"
      unfolding part_None list.size add_0 append_Nil by blast
    have "block_of g (idx + k) ((?b # new) ! k)" if "k < length (?b # new)" for k
    proof (cases k)
      case 0
      then show ?thesis using True by (simp add: block_of_def F2FS_ORPHANS_PER_BLOCK_def)
    next
      case (Suc j)
      then show ?thesis using new(4) that by simp
    qed
    moreover have "recover_orphan_inodes (?b # new) = part page @ ino # rest"
    proof -
      have "recover_orphan_inodes (?b # new) = map ((!) inos) [0..<length inos] @ rest" using new(3) by (simp add: recover_orphan_inodes_def)
      then show ?thesis unfolding map_nth by (simp add: inos_def)
    qed
    ultimately show ?thesis using u new(1,2) tot by (intro exI [of _ "?b # new"]) simp
  next
    case False
    have u: "write_orphans_loop g (ino # rest) done page idx = write_orphans_loop g rest done (Some inos) idx"
      unfolding write_orphans_loop.simps pg using False by (simp add: inos_def F2FS_ORPHANS_PER_BLOCK_def)
    have "\<exists>new. write_orphans_loop g rest done (Some inos) idx = Some (done @ new)
        \<and> length new = GET_ORPHAN_BLOCKS (length (part (Some inos)) + length rest) \<and> recover_orphan_inodes new = part (Some inos) @ rest
        \<and> (\<forall>k < length new. block_of g (idx + k) (new ! k))"
      unfolding inos_def
    proof (rule "2.IH"(2) [OF pg refl])
      show "length (part page @ [ino]) \<noteq> F2FS_ORPHANS_PER_BLOCK" using False by (simp add: inos_def F2FS_ORPHANS_PER_BLOCK_def)
      show "length done + GET_ORPHAN_BLOCKS (length (part (Some (part page @ [ino]))) + length rest) \<le> g"
        using "2.prems"(1) by (simp add: part_def)
      show "\<forall>inos. Some (part page @ [ino]) = Some inos \<longrightarrow> inos \<noteq> [] \<and> length inos < 1020"
        using lt False by (simp add: inos_def)
    qed
    then show ?thesis unfolding u n by (simp add: part_def inos_def)
  qed
qed

text \<open>
  C39: The orphan list survives an unmount: in every reachable state in which no reservation is out, the
  checkpoint writes as many orphan blocks as its header says, in full blocks with their number and the
  total, no page is missing, and the mount reads back the inode numbers of all cells, each once.
\<close>

theorem orphans_round_trip:
  assumes "ino_start rs0" "ino_step\<^sup>*\<^sup>* rs0 (0, s)" "max_orphans s \<le> 65535 * 1020"
  shows "\<exists>blks. write_orphan_inodes s = Some blks \<and> length blks = orphan_blocks_num s
    \<and> (\<forall>k < length blks. block_of (orphan_blocks_num s) (k + 1) (blks ! k))
    \<and> set (recover_orphan_inodes blks) = {ino. exist_written_data s ino ORPHAN_INO} \<and> distinct (recover_orphan_inodes blks)"
proof -
  have inv: "ino_invar (0, s)" by (rule inos.invar_reachable [OF assms(1,2)])
  then have ok: "cells_ok s" and num: "nat (ino_mangement_num s ORPHAN_INO) = length (entries s ORPHAN_INO)"
    and mx: "length (entries s ORPHAN_INO) \<le> 65535 * 1020"
    using assms(3) by (simp_all add: ino_invar_def inos_ok_def)
  have g: "orphan_blocks_num s = GET_ORPHAN_BLOCKS (length (entries s ORPHAN_INO))" by (simp add: orphan_blocks_num_def num)
  have "orphan_blocks_num s \<le> GET_ORPHAN_BLOCKS (65535 * 1020)" unfolding g using mx by (rule GET_ORPHAN_BLOCKS_simps)
  then have m: "orphan_blocks_num s mod 2 ^ 16 = orphan_blocks_num s" by (simp add: GET_ORPHAN_BLOCKS_def F2FS_ORPHANS_PER_BLOCK_def)
  have "\<exists>new. write_orphans_loop (orphan_blocks_num s) (entries s ORPHAN_INO) [] None 1 = Some ([] @ new)
    \<and> length new = GET_ORPHAN_BLOCKS (length (part None) + length (entries s ORPHAN_INO))
    \<and> recover_orphan_inodes new = part None @ entries s ORPHAN_INO \<and> (\<forall>k < length new. block_of (orphan_blocks_num s) (1 + k) (new ! k))"
    by (rule write_orphans_loop_correct) (simp_all add: g part_def)
  then show ?thesis using set_ino_entries [OF ok, of ORPHAN_INO] distinct_entries [OF ok, of ORPHAN_INO] g
    unfolding write_orphan_inodes_def entries_orphans m part_None append_Nil list.size add_0 by (auto simp: add.commute)
qed

text \<open>A run on two cells that ends with one orphan.\<close>

definition one_orphan :: ino_info where
  "one_orphan = add_orphan_inode (snd (acquire_orphan_inode (init_ino_entry_info 2 4 512 0))) 5"

lemma one_orphan_reached: "ino_step\<^sup>*\<^sup>* (0, init_ino_entry_info 2 4 512 0) (0, one_orphan)"
proof -
  let ?i = "init_ino_entry_info 2 4 512 0"
  have a: "acquire_orphan_inode ?i = (True, snd (acquire_orphan_inode ?i))"
    by (simp add: acquire_orphan_inode_def init_ino_entry_info_def F2FS_ORPHANS_PER_BLOCK_def)
  have "\<not> exist_written_data (snd (acquire_orphan_inode ?i)) 5 ORPHAN_INO"
    by (simp add: acquire_orphan_inode_def init_ino_entry_info_def exist_written_data_def)
  from ino_step.acquire [OF a, of 0] ino_step.add_orphan [OF this, of 0] show ?thesis
    by (simp add: one_orphan_def)
qed

theorem orphans_round_trip_witness:
  "\<exists>blks. write_orphan_inodes one_orphan = Some blks \<and> length blks = 1
    \<and> set (recover_orphan_inodes blks) = {5} \<and> distinct (recover_orphan_inodes blks)"
proof -
  have n: "orphan_blocks_num one_orphan = 1" "\<And>ino. exist_written_data one_orphan ino ORPHAN_INO \<longleftrightarrow> ino = 5" "max_orphans one_orphan = 514080"
    by (simp_all add: one_orphan_def add_orphan_inode_def add_ino_entry_def acquire_orphan_inode_def init_ino_entry_info_def
      F2FS_ORPHANS_PER_BLOCK_def Let_def cell_of_def orphan_blocks_num_def GET_ORPHAN_BLOCKS_def exist_written_data_def, auto)
  have st: "ino_start (0, init_ino_entry_info 2 4 512 0)" unfolding ino_start_def by (intro exI conjI) (rule zero_less_numeral, rule refl)
  obtain blks where b: "write_orphan_inodes one_orphan = Some blks" "length blks = 1" "set (recover_orphan_inodes blks) = {5}" "distinct (recover_orphan_inodes blks)"
    using orphans_round_trip [OF st one_orphan_reached] n by auto
  then show ?thesis by blast
qed

subsection \<open>Concurrent reservations\<close>

text \<open>
  \<open>acquire_orphan_inode\<close> on many cores: the comparison of the counter with the limit and the increment
  are two steps, with no lock around them. The state is the counter and the cores that are between the two.
\<close>

inductive acquire_step :: "nat \<Rightarrow> nat \<Rightarrow> nat \<times> nat set \<Rightarrow> nat \<times> nat set \<Rightarrow> bool" for cores limit where
  compare: "c < cores \<Longrightarrow> c \<notin> S \<Longrightarrow> n < limit \<Longrightarrow> acquire_step cores limit (n, S) (n, insert c S)"
| increment: "c \<in> S \<Longrightarrow> acquire_step cores limit (n, S) (n + 1, S - {c})"

definition acquire_invar :: "nat \<Rightarrow> nat \<Rightarrow> nat \<times> nat set \<Rightarrow> bool" where
  "acquire_invar cores limit nS \<longleftrightarrow> snd nS \<subseteq> {..<cores} \<and> fst nS + card (snd nS) + 1 \<le> limit + cores"

interpretation acq: state_machine "\<lambda>s. s = (0, {}) \<and> 0 < limit \<and> 0 < cores" "acquire_step cores limit" "acquire_invar cores limit"
  for cores limit
proof unfold_locales
  fix s s'
  show "s = (0, {}) \<and> 0 < limit \<and> 0 < cores \<Longrightarrow> acquire_invar cores limit s" by (auto simp: acquire_invar_def)
  assume "acquire_step cores limit s s'" "acquire_invar cores limit s"
  then show "acquire_invar cores limit s'"
  proof cases
    case (compare c S n)
    have fin: "finite S" using \<open>acquire_invar cores limit s\<close> compare by (auto simp: acquire_invar_def intro: finite_subset)
    have sub: "insert c S \<subseteq> {..<cores}" using \<open>acquire_invar cores limit s\<close> compare by (auto simp: acquire_invar_def)
    then have "card (insert c S) \<le> cores" using card_mono [of "{..<cores}"] by fastforce
    then show ?thesis using compare sub by (simp add: acquire_invar_def)
  next
    case (increment c S n)
    have "finite S" using \<open>acquire_invar cores limit s\<close> increment by (auto simp: acquire_invar_def intro: finite_subset)
    then have "card S = card (S - {c}) + 1" using increment by (metis Suc_eq_plus1 card_Suc_Diff1)
    then show ?thesis using increment \<open>acquire_invar cores limit s\<close> by (auto simp: acquire_invar_def)
  qed
qed

lemma acquire_seq: "n < limit \<Longrightarrow> 0 < cores \<Longrightarrow> (acquire_step cores limit)\<^sup>*\<^sup>* (0, {}) (n, {})"
proof (induction n)
  case (Suc n)
  have "acquire_step cores limit (n, {}) (n, {0})" using Suc acquire_step.compare [of 0 cores "{}" n limit] by simp
  moreover have "acquire_step cores limit (n, {0}) (Suc n, {})" using acquire_step.increment [of 0 "{0}" cores limit n] by simp
  ultimately show ?case using Suc by (meson Suc_lessD rtranclp.rtrancl_into_rtrancl)
qed simp

lemma acquire_all_compare: "n < limit \<Longrightarrow> k \<le> cores \<Longrightarrow> (acquire_step cores limit)\<^sup>*\<^sup>* (n, {}) (n, {..<k})"
proof (induction k)
  case (Suc k)
  then have "acquire_step cores limit (n, {..<k}) (n, {..<Suc k})"
    using acquire_step.compare [of k cores "{..<k}" n limit] by (simp add: lessThan_Suc)
  then show ?case using Suc by (meson Suc_leD rtranclp.rtrancl_into_rtrancl)
qed simp

lemma acquire_all_increment: "(acquire_step cores limit)\<^sup>*\<^sup>* (n, {..<k}) (n + k, {})"
proof (induction k arbitrary: n)
  case (Suc k)
  have "{..<Suc k} - {k} = {..<k}" by auto
  then have "acquire_step cores limit (n, {..<Suc k}) (n + 1, {..<k})"
    using acquire_step.increment [of k "{..<Suc k}" cores limit n] by simp
  then show ?case using Suc [of "n + 1"] by (simp add: converse_rtranclp_into_rtranclp)
qed simp



end
