(* ===== verification/Spec2Isabelle.thy ===== *)
theory Spec2Isabelle
  imports Hash Rps Prefree Logs Nid_Mount Nat_Checkpoint Nodepath Extent_Correct Dentry_Correct Inos
begin

section \<open>Max: a multicore log-structured file system\<close>

text \<open>
  Max (\<open>src/Max\<close>) is a log-structured file system for many cores, derived from F2FS, and
  \<open>src/disk-tools\<close> are the tools that format, check and dump its volumes.

  \<^bold>\<open>Parts of the program and the theories that model them.\<close>

  \<^item> Generic code. \<open>Max_Prelude\<close>: 32-bit wrap-around on \<open>nat\<close>, counting over lists and bit maps.
    \<open>Bitops\<close>: the byte bitmaps of \<open>f2fs.h\<close> and the bit searches of \<open>libf2fs.c\<close> and \<open>segment.c\<close>.
    \<open>Hash\<close>: \<open>hash.c\<close>, its copy in \<open>libf2fs.c\<close>, and the checksum.
  \<^item> The reader pass-through semaphore, \<open>rps.c\<close>: \<open>Rps\<close>, a step relation in which the threads, the
    shared counter, the per-CPU counters and the grace period are explicit.
  \<^item> Segment management, \<open>segment.c\<close>, \<open>segment.h\<close>, \<open>gc.c\<close>. \<open>Segmap\<close>: the free segment and section
    maps. \<open>Segstate\<close>: the state of the segment manager and the address arithmetic. \<open>Sit\<close>: the
    segment information table. \<open>Dirty\<close>: the lists of dirty and pre-free segments. \<open>Prefree\<close>: the
    end of a checkpoint and discards. \<open>Policy\<close>: space conditions and the pace of the collector.
    \<open>Victim\<close>: the choice of a segment to clean or to reuse. \<open>Alloc\<close>, \<open>Alloc_Correct\<close>, \<open>Logs\<close>: the
    logs of all multi-log groups, the search for free segments, and the allocation of a block.
  \<^item> Node management, \<open>node.c\<close>, \<open>node.h\<close>. \<open>Natcache\<close>: the node address table, its journal and its
    cache of one tree per file cell. \<open>Nids\<close>: the per-core lists of free node ids and the flush of
    the cache at a checkpoint. \<open>Nat_Correct\<close>: the invariant of the cache and its preservation.
    \<open>Nid_Lists\<close>, \<open>Nid_Mount\<close>: allocation of node ids, and mounting. \<open>Shadow\<close>, \<open>Nat_Flush\<close>,
    \<open>Nat_Checkpoint\<close>: the two copies of every block, and the flush. \<open>Nodepath\<close>: the path from an inode
    to a block of its file, the footers and the views of a node block.
  \<^item> The extent cache, \<open>data.c\<close>: \<open>Extent\<close>, \<open>Extent_Correct\<close>, the single extent of an inode and the
    extent trees, over a red-black tree that is a parameter (the kernel's library).
  \<^item> Directory blocks, \<open>dir.c\<close>, \<open>inline.c\<close>: \<open>Dentry\<close>, \<open>Dentry_Correct\<close>, the slots of a block or of an
    inline area, with search, insertion, deletion, listing and the conversion of an inline directory.
  \<^item> Inode number lists, \<open>checkpoint.c\<close>: \<open>Inos\<close>, the lists of orphans and of files with written data,
    split over the file cells, and the orphan blocks of a checkpoint. \<open>Bytes\<close> has the byte buffers and
    little-endian fields that the on-disk structures share.

  \<^bold>\<open>How the parts interact.\<close> A write allocates a block from a log (\<open>Logs\<close>), which takes segments
  from the free map (\<open>Segmap\<close>, \<open>Alloc_Correct\<close>) or, when space is short (\<open>Policy\<close>), reuses dirty
  segments chosen by \<open>Victim\<close>; it marks the block in the SIT (\<open>Sit\<close>), files the segments (\<open>Dirty\<close>)
  and, for a node, records the address in the NAT (\<open>Nat_Correct\<close>). A checkpoint flushes the NAT and
  the SIT and frees the pre-free segments (\<open>Prefree\<close>). Checkpoints exclude operations through \<open>Rps\<close>.

  \<^bold>\<open>Correspondence.\<close> A C structure is a record with the fields the modelled code uses, an unsigned
  number is a \<open>nat\<close> with the wrap-around written out, a bit field is a word or a byte list, a radix
  tree is a map, a linked list is a list of keys. A function that changes its arguments returns the
  changed state; \<open>f2fs_bug_on\<close> sets the fsck flag of the state, as in a build without
  \<open>CONFIG_F2FS_CHECK_FS\<close>. The build options are those of the source: \<open>RPS\<close>, \<open>MLOG\<close>, \<open>FILE_CELL\<close>,
  \<open>PER_CORE_COUNTERS\<close> and \<open>PER_CORE_NID_LIST\<close> are defined. Outside \<open>Rps\<close> and the collector thread a
  function runs as one step, under the locks it takes.

  \<^bold>\<open>What the lemmas show.\<close> \<open>Rps\<close>: mutual exclusion and the balance of the counters in every reachable
  state. \<open>Bitops\<close>, \<open>Hash\<close>: equality of the searches and of the two hash functions with references,
  detection of changed bytes. \<open>Segmap\<close>, \<open>Sit\<close>, \<open>Dirty\<close>, \<open>Prefree\<close>: every counter and list equals what
  it caches, and every operation keeps that and has the effect of a set operation. \<open>Victim\<close>,
  \<open>Alloc_Correct\<close>: the searches end, and what they return is a victim, respectively a free segment.
  \<open>Logs\<close>: an allocated block is in use neither now nor in the last checkpoint. \<open>Nat_Correct\<close>: the NAT
  that the file system sees is one map, read and changed at one node id by each operation.
  \<open>Nid_Lists\<close>: a node id is handed out once, and only if it is free; when \<open>alloc_nid\<close> returns and when
  it cannot. \<open>Nat_Checkpoint\<close>: the flush writes the whole NAT and no block of the last checkpoint.
  \<open>Nodepath\<close>: every block of a file has one path, and it leads back to the block. \<open>Extent_Correct\<close>: the
  extent cache stays true to the file, except for the part right of a split. \<open>Dentry_Correct\<close>: a
  block is its set of entries, and every operation changes one of them; an entry of length zero stops
  the search from ending. \<open>Inos\<close>: the counters are exact in every reachable state, orphans survive an
  unmount, and concurrent reservations exceed the limit.

  \<^bold>\<open>Interfaces.\<close> The locales are \<open>bitmap_ops\<close> and \<open>bit_search\<close> (interpreted in \<open>Bitops\<close>), \<open>state_machine\<close> (
  interpreted for \<open>Rps\<close>, the collector thread, the inode number lists and the reservation of orphans), \<open>segment_pool\<close> (\<open>Segmap\<close>) and \<open>ssr_source\<close> (\<open>Logs\<close>, the
  victim selection as the allocator uses it, interpreted on \<open>Victim\<close>) and \<open>shadow_area\<close> (\<open>Shadow\<close>, areas
  with two copies of every block, interpreted for the NAT and the SIT).

  \<^bold>\<open>Loops.\<close> Loops over a map, a list or a range are structural recursions or carry a measure, so they
  need no fuel. \<open>alloc_nid\<close>, the search for a victim and the search of a directory block may run
  forever and are partial functions into \<open>option\<close>; the theorems on them say when they return.

  \<^bold>\<open>Not modelled.\<close> Reading and writing file data, page cache and block layer (\<open>file.c\<close>, the rest of
  \<open>data.c\<close>), mounting (\<open>super.c\<close>), the name operations of the VFS (\<open>namei.c\<close>, \<open>inode.c\<close>), extended
  attributes and access control lists are sequences of calls into the kernel, whose code is not in the
  repository. Roll-forward recovery (\<open>recovery.c\<close>), the moving of blocks by the collector (\<open>gc.c\<close>) and
  the flush of the SIT need the contents of data and node pages. Of directories the blocks are
  modelled, not the hash levels above them. \<open>debug.c\<close> and \<open>trace.c\<close> only print. The \<open>crypto\<close>
  files drive the kernel's key ring and ciphers, and encrypted names are left out. Of the disk tools
  the shared library is modelled where the kernel uses the same code; formatting and checking are
  not. The benchmarks under \<open>src/fxmark\<close> are third-party programs that the file system does not use.
\<close>

end
